(* ===== verification/Prelude.thy ===== *)
theory Prelude
  imports Main "HOL-Library.Multiset"
begin

text \<open>
  Shared by every component: the ways a Go statement can fail to return
  (\<open>fault\<close>), slice accesses with Go's bounds checks, loops, labelled transition
  systems with their reachable states, and the locale \<open>invariant\<close> that turns a
  one-step preservation proof into a fact about every reachable state, and the locale
  \<open>simulation\<close> that does so for a refinement.
\<close>

section \<open>Faults\<close>

text \<open>
  A Go statement can panic (an index out of range, a nil pointer, an explicit
  \<open>panic\<close>), end the process (\<open>log.Fatal\<close>) or wait for ever on a full channel
  or a held mutex. A fallible operation returns \<open>Inl\<close> of the fault or \<open>Inr\<close> of
  its result.
\<close>

datatype fault =
    IndexOutOfRange
  | NilDereference
  | ExplicitPanic string
  | Fatal string
  | Blocks

type_synonym 'a go = "fault + 'a"

named_theorems go_simps \<open>equations that evaluate slice accesses and faults\<close>

section \<open>Slices\<close>

definition slen :: "'a list \<Rightarrow> int" where
  "slen xs = int (length xs)"

definition go_index :: "'a list \<Rightarrow> int \<Rightarrow> 'a go" where
  "go_index xs i = (if 0 \<le> i \<and> i < slen xs then Inr (xs ! nat i) else Inl IndexOutOfRange)"

definition go_update :: "'a list \<Rightarrow> int \<Rightarrow> 'a \<Rightarrow> 'a list go" where
  "go_update xs i v = (if 0 \<le> i \<and> i < slen xs then Inr (xs[nat i := v]) else Inl IndexOutOfRange)"

definition go_from :: "'a list \<Rightarrow> int \<Rightarrow> 'a list go" where
  "go_from xs i = (if 0 \<le> i \<and> i \<le> slen xs then Inr (drop (nat i) xs) else Inl IndexOutOfRange)"

lemma slen_nonneg [simp]: "0 \<le> slen xs"
  by (simp add: slen_def)

lemma slen_Nil [simp]: "slen [] = 0"
  by (simp add: slen_def)

lemma slen_append [simp]: "slen (xs @ ys) = slen xs + slen ys"
  by (simp add: slen_def)

lemma slen_Cons [simp]: "slen (x # xs) = slen xs + 1"
  by (simp add: slen_def)

lemma slen_update [simp]: "slen (xs[i := v]) = slen xs"
  by (simp add: slen_def)

lemma slen_replicate [simp]: "slen (replicate n x) = int n"
  by (simp add: slen_def)

lemma go_index_Inr [go_simps]:
  "go_index xs i = Inr x \<longleftrightarrow> 0 \<le> i \<and> i < slen xs \<and> x = xs ! nat i"
  by (auto simp: go_index_def)

lemma go_index_in [simp]: "0 \<le> i \<Longrightarrow> i < slen xs \<Longrightarrow> go_index xs i = Inr (xs ! nat i)"
  by (simp add: go_index_def)

lemma go_index_out [simp]: "i < 0 \<or> slen xs \<le> i \<Longrightarrow> go_index xs i = Inl IndexOutOfRange"
  by (auto simp: go_index_def)

lemma go_update_Inr [go_simps]:
  "go_update xs i v = Inr ys \<longleftrightarrow> 0 \<le> i \<and> i < slen xs \<and> ys = xs[nat i := v]"
  by (auto simp: go_update_def)

lemma go_update_in [simp]: "0 \<le> i \<Longrightarrow> i < slen xs \<Longrightarrow> go_update xs i v = Inr (xs[nat i := v])"
  by (simp add: go_update_def)

lemma go_from_Inr [go_simps]:
  "go_from xs i = Inr ys \<longleftrightarrow> 0 \<le> i \<and> i \<le> slen xs \<and> ys = drop (nat i) xs"
  by (auto simp: go_from_def)

lemma nat_less_length_iff: "0 \<le> i \<Longrightarrow> nat i < length xs \<longleftrightarrow> i < slen xs"
  by (auto simp: slen_def)

lemma nat_slen_minus_one [simp]: "nat (slen xs - 1) = length xs - 1"
  by (simp add: slen_def nat_diff_distrib)

lemma slen_pos_iff [simp]: "0 < slen xs \<longleftrightarrow> xs \<noteq> []"
  by (simp add: slen_def)

lemma slen_ge_one_iff [simp]: "1 \<le> slen xs \<longleftrightarrow> xs \<noteq> []"
  by (cases xs) simp_all

section \<open>Lists\<close>

lemma take_Suc_eq_imp_nth:
  "take (Suc k) xs = take (Suc k) ys \<Longrightarrow> k < length xs \<Longrightarrow> k < length ys \<and> xs ! k = ys ! k"
proof -
  assume eq: "take (Suc k) xs = take (Suc k) ys" and k: "k < length xs"
  from eq have "length (take (Suc k) xs) = length (take (Suc k) ys)" by simp
  with k have "k < length ys" by (simp add: min_def split: if_splits)
  moreover from eq have "take (Suc k) xs ! k = take (Suc k) ys ! k" by simp
  ultimately show ?thesis by simp
qed

lemma take_eq_mono: "take m xs = take m ys \<Longrightarrow> k \<le> m \<Longrightarrow> take k xs = take k ys"
proof -
  assume "take m xs = take m ys" and "k \<le> m"
  then have "take k (take m xs) = take k (take m ys)" by simp
  with \<open>k \<le> m\<close> show ?thesis by (simp add: min_absorb1)
qed

lemma set_remove1_subsetD: "x \<in> set (remove1 y xs) \<Longrightarrow> x \<in> set xs"
  by (meson notin_set_remove1)

lemma upto_join: "0 \<le> a \<Longrightarrow> a < c \<Longrightarrow> [1..a] @ [a + 1..c] = [1..c]"
  by (cases "a = 0") (simp_all add: upto_split2 [of 1 a c, symmetric])

section \<open>Loops\<close>

text \<open>\<open>for _, x := range xs { body }\<close> over a state; a fault in the body ends the loop.\<close>

fun go_for :: "('x \<Rightarrow> 's \<Rightarrow> 's go) \<Rightarrow> 'x list \<Rightarrow> 's \<Rightarrow> 's go" where
  "go_for body [] s = Inr s"
| "go_for body (x # xs) s = (case body x s of Inl e \<Rightarrow> Inl e | Inr t \<Rightarrow> go_for body xs t)"

lemma go_for_append:
  "go_for body (xs @ ys) s = (case go_for body xs s of Inl e \<Rightarrow> Inl e | Inr t \<Rightarrow> go_for body ys t)"
  by (induction xs arbitrary: s) (auto split: sum.splits)

lemma go_for_inv:
  assumes "\<And>x s t. x \<in> set xs \<Longrightarrow> P s \<Longrightarrow> body x s = Inr t \<Longrightarrow> P t"
    and "P s" and "go_for body xs s = Inr t"
  shows "P t"
  using assms by (induction xs arbitrary: s) (auto split: sum.splits)

text \<open>Two majorities of the same electorate share a member.\<close>

lemma majorities_intersect:
  fixes n :: nat
  assumes "P \<subseteq> {..<n}" and "Q \<subseteq> {..<n}" and "n div 2 < card P" and "n div 2 < card Q"
  shows "P \<inter> Q \<noteq> {}"
proof
  assume disj: "P \<inter> Q = {}"
  have fin: "finite P" "finite Q"
    using assms(1,2) by (auto intro: finite_subset)
  then have "card P + card Q = card (P \<union> Q)"
    using disj by (simp add: card_Un_disjoint)
  also have "\<dots> \<le> card {..<n}"
    using assms(1,2) by (intro card_mono) auto
  finally have "card P + card Q \<le> n" by simp
  with assms(3,4) show False by linarith
qed

section \<open>Labelled transition systems\<close>

text \<open>
  A component with concurrent steps is a step function over action labels: \<open>None\<close>
  when the action is not enabled (or would fault), \<open>Some\<close> of the next state
  otherwise. Any interleaving is a list of actions.
\<close>

fun run_actions :: "('a \<Rightarrow> 's \<Rightarrow> 's option) \<Rightarrow> 'a list \<Rightarrow> 's \<Rightarrow> 's option" where
  "run_actions step [] s = Some s"
| "run_actions step (a # as) s =
     (case step a s of None \<Rightarrow> None | Some s' \<Rightarrow> run_actions step as s')"

inductive reachable :: "('s \<Rightarrow> bool) \<Rightarrow> ('a \<Rightarrow> 's \<Rightarrow> 's option) \<Rightarrow> 's \<Rightarrow> bool"
  for init :: "'s \<Rightarrow> bool" and step :: "'a \<Rightarrow> 's \<Rightarrow> 's option"
where
  reach_init: "init s \<Longrightarrow> reachable init step s"
| reach_step: "reachable init step s \<Longrightarrow> step a s = Some t \<Longrightarrow> reachable init step t"

lemma run_append:
  "run_actions step as s = Some t \<Longrightarrow> run_actions step (as @ bs) s = run_actions step bs t"
  by (induction "as" arbitrary: s) (auto split: option.splits)

lemma reachable_run:
  "reachable init step s \<Longrightarrow> run_actions step as s = Some t \<Longrightarrow> reachable init step t"
proof (induction as arbitrary: s)
  case Nil
  then show ?case by simp
next
  case (Cons a as)
  then obtain u where "step a s = Some u" "run_actions step as u = Some t"
    by (auto split: option.splits)
  with Cons show ?case by (blast intro: reach_step)
qed

locale invariant =
  fixes init :: "'s \<Rightarrow> bool"
    and step :: "'a \<Rightarrow> 's \<Rightarrow> 's option"
    and inv :: "'s \<Rightarrow> bool"
  assumes inv_init: "init s \<Longrightarrow> inv s"
    and inv_step: "inv s \<Longrightarrow> step a s = Some t \<Longrightarrow> inv t"
begin

lemma reachable_inv: "reachable init step s \<Longrightarrow> inv s"
  by (induction rule: reachable.induct) (auto intro: inv_init inv_step)

lemma run_inv: "inv s \<Longrightarrow> run_actions step as s = Some t \<Longrightarrow> inv t"
  by (induction as arbitrary: s) (auto split: option.splits intro: inv_step)

end

text \<open>
  A system implements another if every step of it is a step of the other or none, seen through
  a relation of their states.
\<close>

locale simulation =
  fixes init1 :: "'s \<Rightarrow> bool" and step1 :: "'a \<Rightarrow> 's \<Rightarrow> 's option"
    and init2 :: "'t \<Rightarrow> bool" and step2 :: "'b \<Rightarrow> 't \<Rightarrow> 't option"
    and rel :: "'s \<Rightarrow> 't \<Rightarrow> bool"
  assumes sim_init: "init1 s \<Longrightarrow> \<exists>t. init2 t \<and> rel s t"
    and sim_step: "rel s t \<Longrightarrow> step1 a s = Some s' \<Longrightarrow>
      rel s' t \<or> (\<exists>b t'. step2 b t = Some t' \<and> rel s' t')"
begin

lemma reachable_simulated: "reachable init1 step1 s \<Longrightarrow> \<exists>t. reachable init2 step2 t \<and> rel s t"
proof (induction rule: reachable.induct)
  case (reach_init s)
  then show ?case using sim_init by (blast intro: reachable.reach_init)
next
  case (reach_step s a s')
  then obtain t where t: "reachable init2 step2 t" "rel s t" by blast
  with sim_step [OF t(2) reach_step.hyps(2)] show ?case by (blast intro: reachable.reach_step)
qed

end

end
