(* ===== verification/Persister.thy ===== *)
theory Persister
  imports Prelude
begin

text \<open>
  raft/persister.go: the stable storage of one Raft peer. A byte slice is a list; every
  method takes the persister's mutex for its whole body, so each is one atomic step.
  \<open>clone\<close> copies, so a stored slice shares nothing with the caller's: on lists it is
  the identity. The locale \<open>stable_store\<close> is the contract Raft relies on: what was
  saved last is what is read, also through \<open>Copy\<close>.
\<close>

record 'b Persister =
  raftstate :: "'b list"
  snapshot :: "'b list"

definition MakePersister :: "'b Persister" where
  "MakePersister = \<lparr>raftstate = [], snapshot = []\<rparr>"

fun clone :: "'b list \<Rightarrow> 'b list" where
  "clone [] = []"
| "clone (x # xs) = x # clone xs"

definition CopyPersister :: "'b Persister \<Rightarrow> 'b Persister" where
  "CopyPersister ps =
     (let np = MakePersister;
          np1 = np\<lparr>raftstate := raftstate ps\<rparr>
      in np1\<lparr>snapshot := snapshot ps\<rparr>)"

definition SaveRaftState :: "'b list \<Rightarrow> 'b Persister \<Rightarrow> 'b Persister" where
  "SaveRaftState st ps = ps\<lparr>raftstate := clone st\<rparr>"

definition ReadRaftState :: "'b Persister \<Rightarrow> 'b list" where
  "ReadRaftState ps = clone (raftstate ps)"

definition RaftStateSize :: "'b Persister \<Rightarrow> int" where
  "RaftStateSize ps = slen (raftstate ps)"

definition SaveStateAndSnapshot :: "'b list \<Rightarrow> 'b list \<Rightarrow> 'b Persister \<Rightarrow> 'b Persister" where
  "SaveStateAndSnapshot st sn ps = ps\<lparr>raftstate := clone st, snapshot := clone sn\<rparr>"

definition ReadSnapshot :: "'b Persister \<Rightarrow> 'b list" where
  "ReadSnapshot ps = clone (snapshot ps)"

definition SnapshotSize :: "'b Persister \<Rightarrow> int" where
  "SnapshotSize ps = slen (snapshot ps)"

lemma clone_id [simp]: "clone xs = xs"
  by (induction xs) auto

lemmas persister_defs =
  MakePersister_def CopyPersister_def SaveRaftState_def ReadRaftState_def RaftStateSize_def
  SaveStateAndSnapshot_def ReadSnapshot_def SnapshotSize_def Let_def

section \<open>The contract of stable storage\<close>

locale stable_store =
  fixes save :: "'d \<Rightarrow> 's \<Rightarrow> 's"
    and load :: "'s \<Rightarrow> 'd"
    and copy :: "'s \<Rightarrow> 's"
  assumes load_save: "load (save d s) = d"
    and load_copy: "load (copy s) = load s"
begin

lemma load_last_save: "load (fold save ds s) = (if ds = [] then load s else last ds)"
  by (induction ds rule: rev_induct) (auto simp: load_save)

lemma load_copies: "load ((copy ^^ k) s) = load s"
  by (induction k) (auto simp: load_copy)

end

interpretation raft_store: stable_store SaveRaftState ReadRaftState CopyPersister
  by unfold_locales (auto simp: persister_defs)

text \<open>Saving state and snapshot together is one atomic replacement of both.\<close>

lemma save_both_reads:
  "ReadRaftState (SaveStateAndSnapshot st sn ps) = st \<and>
   ReadSnapshot (SaveStateAndSnapshot st sn ps) = sn \<and>
   RaftStateSize (SaveStateAndSnapshot st sn ps) = slen st \<and>
   SnapshotSize (SaveStateAndSnapshot st sn ps) = slen sn"
  by (simp add: persister_defs)

lemma save_state_keeps_snapshot: "ReadSnapshot (SaveRaftState st ps) = ReadSnapshot ps"
  by (simp add: persister_defs)

lemma copy_reads:
  "ReadRaftState (CopyPersister ps) = ReadRaftState ps"
  "ReadSnapshot (CopyPersister ps) = ReadSnapshot ps"
  by (simp_all add: persister_defs)

end
