(* ===== verification/RaftNode.thy ===== *)
theory RaftNode
  imports Persister
begin

text \<open>
  raft/raft.go: one Raft peer. The record \<open>Raft\<close> is the struct's state; every method
  that runs under the peer's mutex is one function of it. Terms and indices are Go
  \<open>int\<close>s, kept as unbounded integers (a term grows by one per election). A method
  that can index a slice out of range, or wait on the full \<open>Commit\<close> channel while it
  holds the mutex, returns a \<open>fault\<close>. Timers are counted by their resets: when one
  fires is up to the environment. The persisted bytes are the list of the values the
  encoder was given, in order (labgob wraps encoding/gob, whose stream is a sequence of
  values that decode to what was encoded).
\<close>

section \<open>Data\<close>

datatype Role = Follower | Candidate | Leader

record 'c LogEntry =
  Command :: "'c option"
  Term :: int

record 'c ApplyMsg =
  CommandValid :: bool
  MsgCommand :: "'c option"
  CommandIndex :: int

datatype 'c gobval = GobInt int | GobLog "'c LogEntry list"

record 'c Raft =
  peers :: nat
  me :: nat
  persister :: "'c gobval Persister"
  dead :: bool
  currentTerm :: int
  votedFor :: int
  role :: Role
  log :: "'c LogEntry list"
  commitIndex :: int
  nextIndex :: "int list"
  matchIndex :: "int list"
  lastApplied :: int
  electionTimer :: nat
  heartbeatTimer :: nat
  applyCh :: "'c ApplyMsg list"
  Commit :: nat
  logPrevIndex :: int
  logPrevTerm :: int

record RequestVoteArgs =
  rvTerm :: int
  CandidateId :: int
  LastLogIndex :: int
  LastLogTerm :: int

record RequestVoteReply =
  rvrTerm :: int
  VoteGranted :: bool

record 'c AppendEntriesArgs =
  aeTerm :: int
  LeaderID :: int
  PrevLogIndex :: int
  PrevLogTerm :: int
  Entries :: "'c LogEntry list"
  LeaderCommit :: int

record AppendEntriesReply =
  aerTerm :: int
  Success :: bool
  NewTerm :: int
  NewIndex :: int

text \<open>A reply the RPC layer never filled in keeps Go's zero values.\<close>

definition zeroVoteReply :: RequestVoteReply where
  "zeroVoteReply = \<lparr>rvrTerm = 0, VoteGranted = False\<rparr>"

definition zeroAppendReply :: AppendEntriesReply where
  "zeroAppendReply = \<lparr>aerTerm = 0, Success = False, NewTerm = 0, NewIndex = 0\<rparr>"

section \<open>Reading the state, persistence, timers\<close>

definition GetState :: "'c Raft \<Rightarrow> int \<times> bool" where
  "GetState rf = (currentTerm rf, role rf = Leader)"

definition persist :: "'c Raft \<Rightarrow> 'c Raft" where
  "persist rf =
     (let data = [GobInt (currentTerm rf), GobInt (votedFor rf), GobLog (log rf)]
      in rf\<lparr>persister := SaveRaftState data (persister rf)\<rparr>)"

definition updateLastLogInfo :: "'c Raft \<Rightarrow> 'c Raft" where
  "updateLastLogInfo rf =
     (let lastIndex = slen (log rf) - 1 in
      if lastIndex \<ge> 0
      then rf\<lparr>logPrevIndex := lastIndex, logPrevTerm := Term (log rf ! nat lastIndex)\<rparr>
      else rf\<lparr>logPrevIndex := -1, logPrevTerm := -1\<rparr>)"

fun decodeInt :: "'c gobval list \<Rightarrow> (int \<times> 'c gobval list) option" where
  "decodeInt (GobInt n # d) = Some (n, d)"
| "decodeInt _ = None"

fun decodeLog :: "'c gobval list \<Rightarrow> ('c LogEntry list \<times> 'c gobval list) option" where
  "decodeLog (GobLog l # d) = Some (l, d)"
| "decodeLog _ = None"

definition readPersist :: "'c Raft \<Rightarrow> 'c gobval list \<Rightarrow> 'c Raft go" where
  "readPersist rf data =
     (if length data < 1 then Inr rf
      else case decodeInt data of
        None \<Rightarrow> Inl (Fatal ''quit'')
      | Some (t, d1) \<Rightarrow>
         (case decodeInt d1 of
            None \<Rightarrow> Inl (Fatal ''quit'')
          | Some (v, d2) \<Rightarrow>
             (case decodeLog d2 of
                None \<Rightarrow> Inl (Fatal ''quit'')
              | Some (l, _) \<Rightarrow>
                  Inr (updateLastLogInfo (rf\<lparr>currentTerm := t, votedFor := v, log := l\<rparr>)))))"

text \<open>The random part of an election timeout is \<open>rand.Int63()\<close> modulo the timeout.\<close>

definition electionDelay :: "int \<Rightarrow> int \<Rightarrow> int" where
  "electionDelay timeout r = timeout + r mod timeout"

definition resetElectionTimer :: "'c Raft \<Rightarrow> 'c Raft" where
  "resetElectionTimer rf = rf\<lparr>electionTimer := Suc (electionTimer rf)\<rparr>"

definition resetHeartbeatTimer :: "'c Raft \<Rightarrow> 'c Raft" where
  "resetHeartbeatTimer rf = rf\<lparr>heartbeatTimer := Suc (heartbeatTimer rf)\<rparr>"

definition Kill :: "'c Raft \<Rightarrow> 'c Raft" where
  "Kill rf = rf\<lparr>dead := True\<rparr>"

definition killed :: "'c Raft \<Rightarrow> bool" where
  "killed rf = dead rf"

definition Make :: "nat \<Rightarrow> nat \<Rightarrow> 'c gobval Persister \<Rightarrow> 'c Raft go" where
  "Make n i ps =
     readPersist
       \<lparr>peers = n, me = i, persister = ps, dead = False, currentTerm = 0, votedFor = -1,
        role = Follower, log = [\<lparr>Command = None, Term = 0\<rparr>], commitIndex = 0,
        nextIndex = [], matchIndex = [], lastApplied = 0, electionTimer = 0,
        heartbeatTimer = 0, applyCh = [], Commit = 0, logPrevIndex = 0, logPrevTerm = 0\<rparr>
       (ReadRaftState ps)"

section \<open>Client commands\<close>

definition Start :: "'c Raft \<Rightarrow> 'c option \<Rightarrow> ('c Raft \<times> int \<times> int \<times> bool) go" where
  "Start rf command =
     (let term = currentTerm rf;
          isLeader = (role rf = Leader);
          lastIndex = slen (log rf) - 1;
          index = lastIndex + 1
      in if \<not> isLeader then Inr (rf, index, term, False)
         else let rf1 = rf\<lparr>log := log rf @ [\<lparr>Command = command, Term = currentTerm rf\<rparr>]\<rparr>
              in case go_update (matchIndex rf1) (int (me rf1)) index of
                   Inl e \<Rightarrow> Inl e
                 | Inr mi \<Rightarrow> Inr (persist (rf1\<lparr>matchIndex := mi\<rparr>), index, term, isLeader))"

section \<open>Voting\<close>

definition RequestVote :: "'c Raft \<Rightarrow> RequestVoteArgs \<Rightarrow> 'c Raft \<times> RequestVoteReply" where
  "RequestVote rf args =
     (if rvTerm args < currentTerm rf
      then (rf, \<lparr>rvrTerm = currentTerm rf, VoteGranted = False\<rparr>)
      else if rvTerm args = currentTerm rf
      then (let reply = \<lparr>rvrTerm = currentTerm rf, VoteGranted = False\<rparr> in
            if role rf = Leader then (rf, reply)
            else if votedFor rf = CandidateId args then (rf, reply\<lparr>VoteGranted := True\<rparr>)
            else if votedFor rf \<noteq> -1 \<and> votedFor rf \<noteq> CandidateId args then (rf, reply)
            else (rf, reply))
      else (let reply = \<lparr>rvrTerm = currentTerm rf, VoteGranted = False\<rparr>;
                rf1 = updateLastLogInfo
                        (rf\<lparr>currentTerm := rvTerm args, votedFor := -1, role := Follower\<rparr>)
            in if logPrevTerm rf1 > LastLogTerm args then (persist rf1, reply)
               else if logPrevTerm rf1 = LastLogTerm args \<and> logPrevIndex rf1 > LastLogIndex args
               then (persist rf1, reply)
               else (let rf2 = resetElectionTimer
                                 (rf1\<lparr>currentTerm := rvTerm args, votedFor := CandidateId args,
                                      role := Follower\<rparr>)
                     in (persist rf2, reply\<lparr>VoteGranted := True\<rparr>))))"

definition shouldStartElection :: "'c Raft \<Rightarrow> bool" where
  "shouldStartElection rf = (role rf \<noteq> Leader)"

text \<open>
  The election goroutine holds the mutex three times: to become a candidate
  (\<open>electionBegin\<close>), once per reply that carries a newer term (\<open>electionStepDown\<close>), and
  to take office (\<open>electionEnd\<close>). Between them it polls one peer at a time and counts
  (\<open>electionTally\<close>; the flag says that the loop breaks).
\<close>

definition electionBegin :: "'c Raft \<Rightarrow> 'c Raft \<times> RequestVoteArgs" where
  "electionBegin rf =
     (let rf1 = resetElectionTimer rf;
          rf2 = rf1\<lparr>role := Candidate, votedFor := int (me rf1),
                    currentTerm := currentTerm rf1 + 1\<rparr>;
          rf3 = updateLastLogInfo rf2
      in (rf3, \<lparr>rvTerm = currentTerm rf3, CandidateId = int (me rf3),
                LastLogIndex = logPrevIndex rf3, LastLogTerm = logPrevTerm rf3\<rparr>))"

definition electionStepDown ::
  "'c Raft \<Rightarrow> RequestVoteArgs \<Rightarrow> RequestVoteReply \<Rightarrow> 'c Raft" where
  "electionStepDown rf args reply =
     (if rvrTerm reply > rvTerm args
      then if currentTerm rf < rvrTerm reply
           then persist (resetElectionTimer
                  (rf\<lparr>currentTerm := rvrTerm reply, role := Follower, votedFor := -1\<rparr>))
           else rf
      else rf)"

definition electionTally :: "nat \<Rightarrow> RequestVoteReply \<Rightarrow> int \<Rightarrow> int \<Rightarrow> int \<times> int \<times> bool" where
  "electionTally n reply VoteCount VotesGranted =
     (let majority = int (n div 2);
          vg = (if VoteGranted reply then VotesGranted + 1 else VotesGranted);
          vc = VoteCount + 1
      in (vc, vg, vg > majority \<or> vc - vg > majority))"

definition electionEnd :: "'c Raft \<Rightarrow> RequestVoteArgs \<Rightarrow> int \<Rightarrow> 'c Raft go" where
  "electionEnd rf args VotesGranted =
     (if VotesGranted \<le> int (peers rf div 2) then Inr rf
      else let rf1 = updateLastLogInfo rf in
        if currentTerm rf1 = rvTerm args \<and> role rf1 = Candidate
        then let rf2 = rf1\<lparr>role := Leader,
                           nextIndex := replicate (peers rf1) (logPrevIndex rf1 + 1)\<rparr>
             in case go_update (replicate (peers rf2) 0) (int (me rf2)) (logPrevIndex rf2) of
                  Inl e \<Rightarrow> Inl e
                | Inr mi \<Rightarrow> Inr (rf2\<lparr>matchIndex := mi\<rparr>)
        else Inr rf1)"

section \<open>Replication: the follower's side\<close>

definition initializeAppendEntriesResponse :: "'c Raft \<Rightarrow> 'c Raft \<times> AppendEntriesReply" where
  "initializeAppendEntriesResponse rf =
     (resetElectionTimer rf,
      \<lparr>aerTerm = currentTerm rf, Success = True, NewTerm = logPrevTerm rf,
       NewIndex = logPrevIndex rf\<rparr>)"

definition becomeFollower :: "'c Raft \<Rightarrow> int \<Rightarrow> 'c Raft" where
  "becomeFollower rf term = rf\<lparr>role := Follower, votedFor := -1, currentTerm := term\<rparr>"

definition checkTermWithLeader ::
  "'c Raft \<Rightarrow> 'c AppendEntriesArgs \<Rightarrow> AppendEntriesReply \<Rightarrow> 'c Raft \<times> AppendEntriesReply \<times> bool"
where
  "checkTermWithLeader rf args reply =
     (if currentTerm rf < aeTerm args then (becomeFollower rf (aeTerm args), reply, True)
      else if currentTerm rf > aeTerm args then (rf, reply\<lparr>Success := False\<rparr>, False)
      else (rf, reply, True))"

definition lookConsistency ::
  "'c Raft \<Rightarrow> 'c AppendEntriesArgs \<Rightarrow> AppendEntriesReply \<Rightarrow> AppendEntriesReply \<times> bool" where
  "lookConsistency rf args reply =
     (if slen (Entries args) > 0
      then (let lastEntryTerm = Term (Entries args ! nat (slen (Entries args) - 1)) in
            if logPrevTerm rf > lastEntryTerm \<or>
               (logPrevTerm rf = lastEntryTerm \<and>
                logPrevIndex rf > PrevLogIndex args + slen (Entries args))
            then (reply\<lparr>Success := False, aerTerm := -1\<rparr>, False)
            else (reply, True))
      else (reply, True))"

text \<open>
  The scan of \<open>findConflictIndex\<close>: down from \<open>index\<close> while above the commit index
  and in the term of the entry at \<open>startIdx\<close>.
\<close>

function findConflictFrom :: "'c LogEntry list \<Rightarrow> int \<Rightarrow> int \<Rightarrow> int \<Rightarrow> int go" where
  "findConflictFrom lg ci startIdx index =
     (if index > ci
      then (case go_index lg index of
              Inl e \<Rightarrow> Inl e
            | Inr ei \<Rightarrow>
               (case go_index lg startIdx of
                  Inl e \<Rightarrow> Inl e
                | Inr es \<Rightarrow>
                   if Term ei = Term es then findConflictFrom lg ci startIdx (index - 1)
                   else Inr index))
      else Inr index)"
  by pat_completeness auto
termination
  by (relation "measure (\<lambda>(lg, ci, st, index). nat (index - ci))") auto

declare findConflictFrom.simps [simp del]

definition findConflictIndex :: "'c Raft \<Rightarrow> int \<Rightarrow> int go" where
  "findConflictIndex rf startIdx = findConflictFrom (log rf) (commitIndex rf) startIdx startIdx"

definition appendEntriesIfLogMatches ::
  "'c Raft \<Rightarrow> 'c AppendEntriesArgs \<Rightarrow> AppendEntriesReply
   \<Rightarrow> ('c Raft \<times> AppendEntriesReply \<times> bool) go" where
  "appendEntriesIfLogMatches rf0 args reply =
     (let rf = updateLastLogInfo rf0 in
      if PrevLogIndex args > logPrevIndex rf
      then (case go_index (log rf) (logPrevIndex rf) of
              Inl e \<Rightarrow> Inl e
            | Inr e \<Rightarrow> Inr (rf, reply\<lparr>Success := False, NewIndex := logPrevIndex rf,
                                    NewTerm := Term e\<rparr>, False))
      else (case go_index (log rf) (PrevLogIndex args) of
              Inl e \<Rightarrow> Inl e
            | Inr e \<Rightarrow>
               if Term e = PrevLogTerm args
               then Inr (rf\<lparr>log := take (nat (PrevLogIndex args + 1)) (log rf) @ Entries args\<rparr>,
                         reply, True)
               else (case findConflictIndex rf (PrevLogIndex args) of
                       Inl e \<Rightarrow> Inl e
                     | Inr index \<Rightarrow>
                        (case go_index (log rf) index of
                           Inl e \<Rightarrow> Inl e
                         | Inr ei \<Rightarrow>
                            Inr (rf, reply\<lparr>Success := False, NewIndex := index,
                                           NewTerm := Term ei\<rparr>, False)))))"

text \<open>A send on \<open>Commit\<close>, a channel of capacity 100, made while the mutex is held.\<close>

definition sendCommit :: "'c Raft \<Rightarrow> 'c Raft go" where
  "sendCommit rf = (if Commit rf < 100 then Inr (rf\<lparr>Commit := Suc (Commit rf)\<rparr>) else Inl Blocks)"

definition updateCommitIndexAndNotify :: "'c Raft \<Rightarrow> 'c AppendEntriesArgs \<Rightarrow> 'c Raft go" where
  "updateCommitIndexAndNotify rf args =
     (if commitIndex rf < LeaderCommit args
      then (let newCommitIndex = (if LeaderCommit args > slen (log rf) then slen (log rf)
                                  else LeaderCommit args)
            in case sendCommit (rf\<lparr>commitIndex := newCommitIndex\<rparr>) of
                 Inl e \<Rightarrow> Inl e
               | Inr rf1 \<Rightarrow> Inr (persist rf1))
      else Inr (persist rf))"

definition AppendEntries ::
  "'c Raft \<Rightarrow> 'c AppendEntriesArgs \<Rightarrow> ('c Raft \<times> AppendEntriesReply) go" where
  "AppendEntries rf args =
     (let rf1 = updateLastLogInfo rf;
          (rf2, reply) = initializeAppendEntriesResponse rf1;
          (rf3, reply3, ok) = checkTermWithLeader rf2 args reply
      in if \<not> ok then Inr (rf3, reply3)
         else let rf4 = updateLastLogInfo rf3;
                  (reply4, consistent) = lookConsistency rf4 args reply3
              in if \<not> consistent then Inr (rf4, reply4)
                 else (case appendEntriesIfLogMatches rf4 args reply4 of
                         Inl e \<Rightarrow> Inl e
                       | Inr (rf5, reply5, appended) \<Rightarrow>
                          if appended
                          then (case updateCommitIndexAndNotify rf5 args of
                                  Inl e \<Rightarrow> Inl e
                                | Inr rf6 \<Rightarrow> Inr (rf6, reply5))
                          else Inr (rf5, reply5)))"

section \<open>Replication: the leader's side\<close>

definition heartbeatGo :: "'c Raft \<Rightarrow> int \<Rightarrow> bool" where
  "heartbeatGo rf term = (\<not> (role rf \<noteq> Leader \<or> currentTerm rf \<noteq> term))"

definition initiateAppendEntries :: "'c Raft \<Rightarrow> int \<Rightarrow> 'c AppendEntriesArgs go" where
  "initiateAppendEntries rf next =
     (case go_from (log rf) next of
        Inl e \<Rightarrow> Inl e
      | Inr es \<Rightarrow>
         (case go_index (log rf) (next - 1) of
            Inl e \<Rightarrow> Inl e
          | Inr p \<Rightarrow>
             Inr \<lparr>aeTerm = currentTerm rf, LeaderID = int (me rf), PrevLogIndex = next - 1,
                  PrevLogTerm = Term p, Entries = es, LeaderCommit = commitIndex rf\<rparr>))"

definition updateSuccessIndexes :: "'c Raft \<Rightarrow> nat \<Rightarrow> int \<Rightarrow> int \<Rightarrow> 'c Raft go" where
  "updateSuccessIndexes rf server next entryLen =
     (case go_update (nextIndex rf) (int server) (next + entryLen) of
        Inl e \<Rightarrow> Inl e
      | Inr ni \<Rightarrow>
         (case go_update (matchIndex rf) (int server) (next - 1 + entryLen) of
            Inl e \<Rightarrow> Inl e
          | Inr mi \<Rightarrow> Inr (rf\<lparr>nextIndex := ni, matchIndex := mi\<rparr>)))"

fun countReplicated :: "int list \<Rightarrow> int \<Rightarrow> int \<Rightarrow> int \<Rightarrow> bool" where
  "countReplicated [] index majority cnt = False"
| "countReplicated (mi # mis) index majority cnt =
     (if mi \<ge> index
      then if cnt + 1 > majority then True
           else countReplicated mis index majority (cnt + 1)
      else countReplicated mis index majority cnt)"

definition isMajorityReplicated :: "'c Raft \<Rightarrow> int \<Rightarrow> bool" where
  "isMajorityReplicated rf index =
     countReplicated (matchIndex rf) index (int (peers rf div 2)) 0"

function commitFrom :: "'c Raft \<Rightarrow> int \<Rightarrow> bool \<Rightarrow> 'c Raft \<times> bool" where
  "commitFrom rf i goCommit =
     (if i \<le> slen (log rf)
      then if isMajorityReplicated rf i then commitFrom (rf\<lparr>commitIndex := i\<rparr>) (i + 1) True
           else (rf, goCommit)
      else (rf, goCommit))"
  by pat_completeness auto
termination
  by (relation "measure (\<lambda>(rf, i, g). nat (slen (log rf) + 1 - i))") auto

declare commitFrom.simps [simp del]

definition updateCommitIndex :: "'c Raft \<Rightarrow> 'c Raft go" where
  "updateCommitIndex rf =
     (let (rf1, goCommit) = commitFrom rf (commitIndex rf + 1) False
      in if goCommit then sendCommit rf1 else Inr rf1)"

definition attemptCommitLogs :: "'c Raft \<Rightarrow> 'c AppendEntriesArgs \<Rightarrow> 'c Raft go" where
  "attemptCommitLogs rf args =
     (if slen (Entries args) > 0 \<and>
         Term (Entries args ! nat (slen (Entries args) - 1)) = currentTerm rf
      then updateCommitIndex rf else Inr rf)"

definition adjustNextBasedOnReply :: "'c Raft \<Rightarrow> AppendEntriesReply \<Rightarrow> int go" where
  "adjustNextBasedOnReply rf reply =
     (case go_index (log rf) (NewIndex reply) of
        Inl e \<Rightarrow> Inl e
      | Inr e \<Rightarrow> Inr (if Term e = NewTerm reply then NewIndex reply + 1 else NewIndex reply))"

text \<open>The result is the peer, the goroutine's \<open>next\<close>, and whether its loop goes on.\<close>

definition handleAppendEntriesResponse ::
  "'c Raft \<Rightarrow> AppendEntriesReply \<Rightarrow> 'c AppendEntriesArgs \<Rightarrow> nat \<Rightarrow> int \<Rightarrow> int
   \<Rightarrow> ('c Raft \<times> int \<times> bool) go" where
  "handleAppendEntriesResponse rf reply args server next term =
     (if \<not> Success reply \<and> aerTerm reply = -1 then Inr (rf, next, False)
      else if aerTerm reply > term
      then Inr ((if currentTerm rf < aerTerm reply
                 then persist (resetElectionTimer
                        (rf\<lparr>currentTerm := aerTerm reply, role := Follower, votedFor := -1\<rparr>))
                 else rf), next, False)
      else if Success reply
      then (case updateSuccessIndexes rf server next (slen (Entries args)) of
              Inl e \<Rightarrow> Inl e
            | Inr rf1 \<Rightarrow>
               (case attemptCommitLogs rf1 args of
                  Inl e \<Rightarrow> Inl e
                | Inr rf2 \<Rightarrow> Inr (rf2, next, False)))
      else (case adjustNextBasedOnReply rf reply of
              Inl e \<Rightarrow> Inl e
            | Inr n \<Rightarrow> Inr (rf, n, True)))"

text \<open>One iteration of \<open>requestHeartbeats\<close>: the arguments of the goroutine it starts.\<close>

definition requestHeartbeat :: "'c Raft \<Rightarrow> nat \<Rightarrow> (nat \<times> int \<times> int) option go" where
  "requestHeartbeat rf index =
     (if me rf = index then Inr None
      else if role rf = Leader
      then (case go_index (nextIndex rf) (int index) of
              Inl e \<Rightarrow> Inl e
            | Inr next \<Rightarrow> Inr (Some (index, next, currentTerm rf)))
      else Inr None)"

section \<open>Applying committed entries\<close>

function prepareFrom :: "'c LogEntry list \<Rightarrow> int \<Rightarrow> int \<Rightarrow> 'c ApplyMsg list go" where
  "prepareFrom lg i ci =
     (if i \<le> ci
      then (case go_index lg i of
              Inl e \<Rightarrow> Inl e
            | Inr e \<Rightarrow>
               (case prepareFrom lg (i + 1) ci of
                  Inl f \<Rightarrow> Inl f
                | Inr msgs \<Rightarrow>
                   Inr (\<lparr>CommandValid = True, MsgCommand = Command e, CommandIndex = i\<rparr> # msgs)))
      else Inr [])"
  by pat_completeness auto
termination
  by (relation "measure (\<lambda>(lg, i, ci). nat (ci + 1 - i))") auto

declare prepareFrom.simps [simp del]

definition prepareMessages :: "'c Raft \<Rightarrow> 'c ApplyMsg list go" where
  "prepareMessages rf = prepareFrom (log rf) (lastApplied rf + 1) (commitIndex rf)"

fun applyMessages :: "'c Raft \<Rightarrow> 'c ApplyMsg list \<Rightarrow> 'c Raft" where
  "applyMessages rf [] = rf"
| "applyMessages rf (msg # msgs) =
     applyMessages (rf\<lparr>applyCh := applyCh rf @ [msg], lastApplied := CommandIndex msg\<rparr>) msgs"

definition applyCommits :: "'c Raft \<Rightarrow> 'c Raft go" where
  "applyCommits rf =
     (if lastApplied rf < commitIndex rf
      then (case prepareMessages rf of
              Inl e \<Rightarrow> Inl e
            | Inr msgs \<Rightarrow> Inr (applyMessages rf msgs))
      else Inr rf)"

text \<open>One round of the \<open>CommitLog\<close> goroutine: take a signal, then apply.\<close>

definition CommitLog :: "'c Raft \<Rightarrow> 'c Raft go" where
  "CommitLog rf =
     (if Commit rf = 0 then Inl Blocks else applyCommits (rf\<lparr>Commit := Commit rf - 1\<rparr>))"

end
