(* ===== verification/RaftLemmas.thy ===== *)
theory RaftLemmas
  imports RaftNode
begin

text \<open>
  What the operations of one Raft peer do: how each moves the term, the vote and the
  role (\<open>term_step\<close>), what each does to the log, the loops against their closed
  forms, the conditions under which no operation panics, and the order in which
  committed entries are applied.
\<close>

named_theorems raft_defs \<open>definitions of the peer's operations\<close>

lemmas raft_op_defs [raft_defs] =
  persist_def updateLastLogInfo_def resetElectionTimer_def resetHeartbeatTimer_def Kill_def
  Start_def RequestVote_def electionBegin_def electionStepDown_def electionEnd_def
  initializeAppendEntriesResponse_def becomeFollower_def checkTermWithLeader_def
  lookConsistency_def sendCommit_def updateCommitIndexAndNotify_def
  updateSuccessIndexes_def attemptCommitLogs_def
  adjustNextBasedOnReply_def

section \<open>Terms, votes and roles\<close>

text \<open>
  Every operation but taking office either leaves term, vote and role alone or moves to
  a higher term without being leader there.
\<close>

definition term_step :: "'c Raft \<Rightarrow> 'c Raft \<Rightarrow> bool" where
  "term_step rf rf' \<longleftrightarrow>
     peers rf' = peers rf \<and> me rf' = me rf \<and>
     (currentTerm rf' = currentTerm rf \<and> votedFor rf' = votedFor rf \<and> role rf' = role rf \<or>
      currentTerm rf < currentTerm rf' \<and> role rf' \<noteq> Leader)"

lemma term_step_refl [simp, intro]: "term_step rf rf"
  by (simp add: term_step_def)

lemma term_step_trans [trans]: "term_step a b \<Longrightarrow> term_step b c \<Longrightarrow> term_step a c"
  by (auto simp: term_step_def)

lemma term_step_same:
  "peers rf' = peers rf \<Longrightarrow> me rf' = me rf \<Longrightarrow> currentTerm rf' = currentTerm rf \<Longrightarrow>
   votedFor rf' = votedFor rf \<Longrightarrow> role rf' = role rf \<Longrightarrow> term_step rf rf'"
  by (simp add: term_step_def)

lemma updateLastLogInfo_frame [simp]:
  "peers (updateLastLogInfo rf) = peers rf" "me (updateLastLogInfo rf) = me rf"
  "currentTerm (updateLastLogInfo rf) = currentTerm rf"
  "votedFor (updateLastLogInfo rf) = votedFor rf" "role (updateLastLogInfo rf) = role rf"
  "log (updateLastLogInfo rf) = log rf" "commitIndex (updateLastLogInfo rf) = commitIndex rf"
  "lastApplied (updateLastLogInfo rf) = lastApplied rf"
  "applyCh (updateLastLogInfo rf) = applyCh rf" "Commit (updateLastLogInfo rf) = Commit rf"
  "nextIndex (updateLastLogInfo rf) = nextIndex rf"
  "matchIndex (updateLastLogInfo rf) = matchIndex rf" "dead (updateLastLogInfo rf) = dead rf"
  "persister (updateLastLogInfo rf) = persister rf"
  by (simp_all add: updateLastLogInfo_def Let_def)

lemma updateLastLogInfo_last:
  "log rf \<noteq> [] \<Longrightarrow> logPrevIndex (updateLastLogInfo rf) = slen (log rf) - 1 \<and>
     logPrevTerm (updateLastLogInfo rf) = Term (last (log rf))"
  by (simp add: updateLastLogInfo_def last_conv_nth)

lemma persist_frame [simp]:
  "peers (persist rf) = peers rf" "me (persist rf) = me rf"
  "currentTerm (persist rf) = currentTerm rf" "votedFor (persist rf) = votedFor rf"
  "role (persist rf) = role rf" "log (persist rf) = log rf"
  "commitIndex (persist rf) = commitIndex rf" "lastApplied (persist rf) = lastApplied rf"
  "applyCh (persist rf) = applyCh rf" "Commit (persist rf) = Commit rf"
  "nextIndex (persist rf) = nextIndex rf" "matchIndex (persist rf) = matchIndex rf"
  "dead (persist rf) = dead rf"
  by (simp_all add: persist_def Let_def)

lemma resetElectionTimer_frame [simp]:
  "peers (resetElectionTimer rf) = peers rf" "me (resetElectionTimer rf) = me rf"
  "currentTerm (resetElectionTimer rf) = currentTerm rf"
  "votedFor (resetElectionTimer rf) = votedFor rf" "role (resetElectionTimer rf) = role rf"
  "log (resetElectionTimer rf) = log rf" "commitIndex (resetElectionTimer rf) = commitIndex rf"
  "lastApplied (resetElectionTimer rf) = lastApplied rf"
  "applyCh (resetElectionTimer rf) = applyCh rf" "Commit (resetElectionTimer rf) = Commit rf"
  "nextIndex (resetElectionTimer rf) = nextIndex rf"
  "matchIndex (resetElectionTimer rf) = matchIndex rf"
  "dead (resetElectionTimer rf) = dead rf"
  "logPrevIndex (resetElectionTimer rf) = logPrevIndex rf"
  "logPrevTerm (resetElectionTimer rf) = logPrevTerm rf"
  by (simp_all add: resetElectionTimer_def)

lemma RequestVote_term_step: "term_step rf (fst (RequestVote rf args))"
  by (auto simp: RequestVote_def term_step_def Let_def)

lemma RequestVote_log [simp]: "log (fst (RequestVote rf args)) = log rf"
  by (auto simp: RequestVote_def Let_def)

text \<open>A granted vote is the vote of the peer in the term it was asked for.\<close>

lemma RequestVote_granted:
  "VoteGranted (snd (RequestVote rf args)) \<Longrightarrow>
     currentTerm (fst (RequestVote rf args)) = rvTerm args \<and>
     votedFor (fst (RequestVote rf args)) = CandidateId args"
  by (auto simp: RequestVote_def Let_def split: if_splits)

lemma electionBegin_term_step: "term_step rf (fst (electionBegin rf))"
  by (simp add: electionBegin_def Let_def term_step_def)

lemma electionBegin_args:
  "electionBegin rf = (rf', args) \<Longrightarrow>
     rvTerm args = currentTerm rf' \<and> CandidateId args = int (me rf) \<and>
     currentTerm rf' = currentTerm rf + 1 \<and> votedFor rf' = int (me rf) \<and> role rf' = Candidate \<and>
     log rf' = log rf \<and> peers rf' = peers rf \<and> me rf' = me rf"
  by (auto simp: electionBegin_def Let_def)

lemma electionStepDown_term_step: "term_step rf (electionStepDown rf args reply)"
  by (auto simp: electionStepDown_def term_step_def)

lemma electionStepDown_log [simp]: "log (electionStepDown rf args reply) = log rf"
  by (simp add: electionStepDown_def)

lemma electionEnd_cases:
  assumes "electionEnd rf args vg = Inr rf'"
  obtains "term_step rf rf'" "log rf' = log rf" 
  | "vg > int (peers rf div 2)" "currentTerm rf = rvTerm args" "role rf = Candidate"
    "currentTerm rf' = currentTerm rf" "votedFor rf' = votedFor rf" "role rf' = Leader"
    "log rf' = log rf" "peers rf' = peers rf" "me rf' = me rf"
  using assms
  by (auto simp: electionEnd_def Let_def term_step_def split: if_splits sum.splits)

lemma Start_term_step: "Start rf c = Inr (rf', r) \<Longrightarrow> term_step rf rf'"
  by (auto simp: Start_def Let_def term_step_def split: if_splits sum.splits)

lemma Start_log:
  "Start rf c = Inr (rf', i, t, ok) \<Longrightarrow>
     log rf' = (if role rf = Leader then log rf @ [\<lparr>Command = c, Term = currentTerm rf\<rparr>]
                else log rf)"
  by (auto simp: Start_def Let_def split: if_splits sum.splits)

section \<open>AppendEntries\<close>

lemma checkTermWithLeader_term_step:
  "checkTermWithLeader rf args reply = (rf', reply', ok) \<Longrightarrow>
     term_step rf rf' \<and> log rf' = log rf \<and> (ok \<longrightarrow> currentTerm rf' = aeTerm args) \<and>
     (ok \<longleftrightarrow> currentTerm rf \<le> aeTerm args) \<and> commitIndex rf' = commitIndex rf \<and>
     (\<not> ok \<longrightarrow> rf' = rf)"
  by (auto simp: checkTermWithLeader_def becomeFollower_def term_step_def split: if_splits)

lemma updateCommitIndexAndNotify_frame:
  "updateCommitIndexAndNotify rf args = Inr rf' \<Longrightarrow> term_step rf rf' \<and> log rf' = log rf"
  by (auto simp: updateCommitIndexAndNotify_def sendCommit_def Let_def term_step_def
      split: if_splits sum.splits)

lemma appendEntriesIfLogMatches_cases:
  assumes "appendEntriesIfLogMatches rf args reply = Inr (rf', reply', ok)"
  shows "term_step rf rf' \<and> currentTerm rf' = currentTerm rf \<and>
    (ok \<longrightarrow> 0 \<le> PrevLogIndex args \<and> PrevLogIndex args < slen (log rf) \<and>
            Term (log rf ! nat (PrevLogIndex args)) = PrevLogTerm args \<and>
            log rf' = take (nat (PrevLogIndex args + 1)) (log rf) @ Entries args) \<and>
    (\<not> ok \<longrightarrow> log rf' = log rf)"
  using assms
  by (auto simp: appendEntriesIfLogMatches_def Let_def term_step_def go_simps
      split: if_splits sum.splits)

text \<open>
  The one way AppendEntries changes a log: it keeps the prefix up to the entry the
  leader named, whose term must agree, and puts the leader's entries behind it.
\<close>

lemma AppendEntries_cases:
  assumes "AppendEntries rf args = Inr (rf', reply)"
  shows "term_step rf rf' \<and>
    (log rf' = log rf \<or>
     currentTerm rf \<le> aeTerm args \<and> currentTerm rf' = aeTerm args \<and>
     0 \<le> PrevLogIndex args \<and> PrevLogIndex args < slen (log rf) \<and>
     Term (log rf ! nat (PrevLogIndex args)) = PrevLogTerm args \<and>
     log rf' = take (nat (PrevLogIndex args + 1)) (log rf) @ Entries args)"
proof -
  define rf2 where "rf2 = resetElectionTimer (updateLastLogInfo rf)"
  obtain rf3 reply3 ok where c: "checkTermWithLeader rf2 args
      (snd (initializeAppendEntriesResponse (updateLastLogInfo rf))) = (rf3, reply3, ok)"
    by (metis prod_cases3)
  have r2: "term_step rf rf2" "log rf2 = log rf" "currentTerm rf2 = currentTerm rf"
    by (auto simp: rf2_def term_step_def)
  note c' = checkTermWithLeader_term_step [OF c]
  note eq = assms [unfolded AppendEntries_def initializeAppendEntriesResponse_def Let_def
      prod.case, folded rf2_def]
  show ?thesis
  proof (cases ok)
    case False
    with c c' eq r2 show ?thesis
      by (auto simp: initializeAppendEntriesResponse_def)
  next
    case True
    define rf4 where "rf4 = updateLastLogInfo rf3"
    have r4: "term_step rf rf4" "log rf4 = log rf" "currentTerm rf4 = aeTerm args"
      "currentTerm rf \<le> aeTerm args"
      using c' True r2 by (auto simp: rf4_def term_step_def)
    obtain reply4 cons where l: "lookConsistency rf4 args reply3 = (reply4, cons)"
      by fastforce
    show ?thesis
    proof (cases cons)
      case False
      with eq c True l r4 show ?thesis
        by (auto simp: initializeAppendEntriesResponse_def rf4_def)
    next
      case cons: True
      with eq c True l obtain rf5 reply5 app where
        a: "appendEntriesIfLogMatches rf4 args reply4 = Inr (rf5, reply5, app)"
        and rest: "(if app then (case updateCommitIndexAndNotify rf5 args of
            Inl e \<Rightarrow> Inl e | Inr rf6 \<Rightarrow> Inr (rf6, reply5)) else Inr (rf5, reply5))
          = (Inr (rf', reply) :: ('a Raft \<times> AppendEntriesReply) go)"
        by (auto simp: initializeAppendEntriesResponse_def rf4_def split: sum.splits)
      note a' = appendEntriesIfLogMatches_cases [OF a]
      show ?thesis
      proof (cases app)
        case False
        with rest a' r4 show ?thesis by (auto intro: term_step_trans)
      next
        case True
        with rest have u: "updateCommitIndexAndNotify rf5 args = Inr rf'"
          by (auto split: sum.splits)
        note u' = updateCommitIndexAndNotify_frame [OF u]
        have t: "term_step rf rf'" "term_step rf4 rf'"
          using r4(1) a' u' by (blast intro: term_step_trans)+
        have "currentTerm rf' = aeTerm args"
        proof -
          have "currentTerm rf' = currentTerm rf5"
            using u by (auto simp: updateCommitIndexAndNotify_def sendCommit_def Let_def
                split: if_splits sum.splits)
          with a' r4 show ?thesis by simp
        qed
        with t a' u' r4 True show ?thesis by simp
      qed
    qed
  qed
qed

lemma AppendEntries_old_term:
  "aeTerm args < currentTerm rf \<Longrightarrow> AppendEntries rf args = Inr (rf', reply) \<Longrightarrow>
     log rf' = log rf \<and> \<not> Success reply \<and> aerTerm reply = currentTerm rf"
  by (auto simp: AppendEntries_def initializeAppendEntriesResponse_def checkTermWithLeader_def
      Let_def)

section \<open>The loops\<close>

lemma countReplicated_iff:
  "cnt \<le> majority \<Longrightarrow>
     countReplicated mis index majority cnt \<longleftrightarrow>
       cnt + int (length (filter (\<lambda>m. index \<le> m) mis)) > majority"
  by (induction mis index majority cnt rule: countReplicated.induct) auto

lemma isMajorityReplicated_iff:
  "isMajorityReplicated rf index \<longleftrightarrow>
     peers rf div 2 < length (filter (\<lambda>m. index \<le> m) (matchIndex rf))"
  by (auto simp: isMajorityReplicated_def countReplicated_iff)

lemma isMajorityReplicated_cong:
  "matchIndex rf = matchIndex rf' \<Longrightarrow> peers rf = peers rf' \<Longrightarrow>
     isMajorityReplicated rf i = isMajorityReplicated rf' i"
  by (simp add: isMajorityReplicated_def)

lemma isMajorityReplicated_antimono:
  assumes "isMajorityReplicated rf j" and "i \<le> j"
  shows "isMajorityReplicated rf i"
proof -
  have "length (filter (\<lambda>m. j \<le> m) mis) \<le> length (filter (\<lambda>m. i \<le> m) mis)" for mis :: "int list"
    using assms(2) by (induction mis) auto
  with assms(1) show ?thesis
    by (simp add: isMajorityReplicated_iff) (meson order_less_le_trans)
qed

text \<open>
  \<open>updateCommitIndex\<close> moves the commit index to the last replicated index in reach, and
  signals exactly when it moved.
\<close>

lemma commitFrom_spec:
  assumes "i = commitIndex rf + 1"
  shows "\<exists>c. commitFrom rf i g = (rf\<lparr>commitIndex := c\<rparr>, g \<or> commitIndex rf < c) \<and>
     commitIndex rf \<le> c \<and> (\<forall>j. commitIndex rf < j \<and> j \<le> c \<longrightarrow> isMajorityReplicated rf j) \<and>
     (commitIndex rf < c \<longrightarrow> c \<le> slen (log rf)) \<and>
     (c < slen (log rf) \<longrightarrow> \<not> isMajorityReplicated rf (c + 1))"
  using assms
proof (induction rf i g rule: commitFrom.induct)
  case (1 rf i g)
  show ?case
  proof (cases "i \<le> slen (log rf) \<and> isMajorityReplicated rf i")
    case False
    then have "commitFrom rf i g = (rf, g)"
      by (subst commitFrom.simps) auto
    with False "1.prems" show ?thesis
      by (intro exI [of _ "commitIndex rf"]) auto
  next
    case True
    let ?rf = "rf\<lparr>commitIndex := i\<rparr>"
    have cong: "isMajorityReplicated ?rf j = isMajorityReplicated rf j" for j
      by (rule isMajorityReplicated_cong) simp_all
    from "1.IH" True have "\<exists>c. commitFrom ?rf (i + 1) True = (?rf\<lparr>commitIndex := c\<rparr>, True) \<and>
        i \<le> c \<and> (\<forall>j. i < j \<and> j \<le> c \<longrightarrow> isMajorityReplicated rf j) \<and>
        (i < c \<longrightarrow> c \<le> slen (log rf)) \<and>
        (c < slen (log rf) \<longrightarrow> \<not> isMajorityReplicated rf (c + 1))"
      by (simp add: cong)
    then obtain c where
      c: "commitFrom ?rf (i + 1) True = (?rf\<lparr>commitIndex := c\<rparr>, True)" "i \<le> c"
        "\<forall>j. i < j \<and> j \<le> c \<longrightarrow> isMajorityReplicated rf j"
        "i < c \<longrightarrow> c \<le> slen (log rf)" "c < slen (log rf) \<longrightarrow> \<not> isMajorityReplicated rf (c + 1)"
      by blast
    from True have "commitFrom rf i g = commitFrom ?rf (i + 1) True"
      by (subst commitFrom.simps) simp
    with c(1) have "commitFrom rf i g = (rf\<lparr>commitIndex := c\<rparr>, True)" by simp
    moreover have "\<forall>j. commitIndex rf < j \<and> j \<le> c \<longrightarrow> isMajorityReplicated rf j"
      using c(3) True "1.prems" by (metis add1_zle_eq le_less)
    ultimately show ?thesis
      using c(2,4,5) True "1.prems" by (intro exI [of _ c]) auto
  qed
qed

lemma updateCommitIndex_spec:
  assumes "updateCommitIndex rf = Inr rf'"
  shows "term_step rf rf' \<and> currentTerm rf' = currentTerm rf \<and> log rf' = log rf \<and>
    commitIndex rf \<le> commitIndex rf' \<and>
    (\<forall>j. commitIndex rf < j \<and> j \<le> commitIndex rf' \<longrightarrow> isMajorityReplicated rf j) \<and>
    (commitIndex rf < commitIndex rf' \<longrightarrow> commitIndex rf' \<le> slen (log rf)) \<and>
    (commitIndex rf' < slen (log rf) \<longrightarrow> \<not> isMajorityReplicated rf (commitIndex rf' + 1)) \<and>
    Commit rf' = (if commitIndex rf < commitIndex rf' then Suc (Commit rf) else Commit rf) \<and>
    lastApplied rf' = lastApplied rf \<and> applyCh rf' = applyCh rf"
proof -
  from commitFrom_spec [of "commitIndex rf + 1" rf False, OF refl] obtain c where
    c: "commitFrom rf (commitIndex rf + 1) False = (rf\<lparr>commitIndex := c\<rparr>, commitIndex rf < c)"
      "commitIndex rf \<le> c" "\<forall>j. commitIndex rf < j \<and> j \<le> c \<longrightarrow> isMajorityReplicated rf j"
      "commitIndex rf < c \<longrightarrow> c \<le> slen (log rf)"
      "c < slen (log rf) \<longrightarrow> \<not> isMajorityReplicated rf (c + 1)"
    by auto
  with assms show ?thesis
    by (auto simp: updateCommitIndex_def sendCommit_def term_step_def split: if_splits)
qed

lemma findConflictFrom_spec:
  "index \<le> startIdx \<Longrightarrow> startIdx < slen lg \<Longrightarrow> -1 \<le> ci \<Longrightarrow>
   \<forall>j. index < j \<and> j \<le> startIdx \<longrightarrow> Term (lg ! nat j) = Term (lg ! nat startIdx) \<Longrightarrow>
   \<exists>k. findConflictFrom lg ci startIdx index = Inr k \<and> k \<le> index \<and>
     (k = index \<or> ci \<le> k) \<and>
     (\<forall>j. k < j \<and> j \<le> startIdx \<longrightarrow> Term (lg ! nat j) = Term (lg ! nat startIdx)) \<and>
     (ci < k \<longrightarrow> Term (lg ! nat k) \<noteq> Term (lg ! nat startIdx))"
proof (induction lg ci startIdx index rule: findConflictFrom.induct)
  case (1 lg ci startIdx index)
  show ?case
  proof (cases "index > ci \<and> Term (lg ! nat index) = Term (lg ! nat startIdx)")
    case False
    with "1.prems" have "findConflictFrom lg ci startIdx index = Inr index"
      by (subst findConflictFrom.simps) auto
    moreover from False have "ci < index \<longrightarrow> Term (lg ! nat index) \<noteq> Term (lg ! nat startIdx)"
      by blast
    ultimately show ?thesis using "1.prems"(4) by blast
  next
    case True
    have all: "\<forall>j. index - 1 < j \<and> j \<le> startIdx \<longrightarrow> Term (lg ! nat j) = Term (lg ! nat startIdx)"
    proof (intro allI impI)
      fix j assume "index - 1 < j \<and> j \<le> startIdx"
      then have "j = index \<or> index < j \<and> j \<le> startIdx" by linarith
      with True "1.prems"(4) show "Term (lg ! nat j) = Term (lg ! nat startIdx)" by blast
    qed
    from True "1.prems" have g: "go_index lg index = Inr (lg ! nat index)"
      "go_index lg startIdx = Inr (lg ! nat startIdx)" by simp_all
    from True have le: "ci < index" "Term (lg ! nat index) = Term (lg ! nat startIdx)" by simp_all
    from "1.prems"(1) have "index - 1 \<le> startIdx" by simp
    from "1.IH" [OF le(1) g le(2) this "1.prems"(2,3) all] obtain k where
      k: "findConflictFrom lg ci startIdx (index - 1) = Inr k" "k \<le> index - 1"
        "k = index - 1 \<or> ci \<le> k"
        "\<forall>j. k < j \<and> j \<le> startIdx \<longrightarrow> Term (lg ! nat j) = Term (lg ! nat startIdx)"
        "ci < k \<longrightarrow> Term (lg ! nat k) \<noteq> Term (lg ! nat startIdx)"
      by blast
    from g True have "findConflictFrom lg ci startIdx index
        = findConflictFrom lg ci startIdx (index - 1)"
      by (subst findConflictFrom.simps) simp
    with k(1) have "findConflictFrom lg ci startIdx index = Inr k" by simp
    moreover from k(2) have "k \<le> index" by simp
    moreover from k(3) le(1) have "k = index \<or> ci \<le> k" by linarith
    ultimately show ?thesis using k(4,5) by blast
  qed
qed

lemma findConflictIndex_spec:
  assumes "0 \<le> startIdx" "startIdx < slen (log rf)" "0 \<le> commitIndex rf"
  shows "\<exists>k. findConflictIndex rf startIdx = Inr k \<and> 0 \<le> k \<and> k \<le> startIdx \<and>
    (\<forall>j. k < j \<and> j \<le> startIdx \<longrightarrow> Term (log rf ! nat j) = Term (log rf ! nat startIdx)) \<and>
    (commitIndex rf < k \<longrightarrow> Term (log rf ! nat k) \<noteq> Term (log rf ! nat startIdx))"
proof -
  have "\<forall>j. startIdx < j \<and> j \<le> startIdx \<longrightarrow>
      Term (log rf ! nat j) = Term (log rf ! nat startIdx)" by simp
  from findConflictFrom_spec [OF order_refl assms(2) _ this, of "commitIndex rf"] assms(3)
  obtain k where k: "findConflictFrom (log rf) (commitIndex rf) startIdx startIdx = Inr k"
      "k \<le> startIdx" "k = startIdx \<or> commitIndex rf \<le> k"
      "\<forall>j. k < j \<and> j \<le> startIdx \<longrightarrow> Term (log rf ! nat j) = Term (log rf ! nat startIdx)"
      "commitIndex rf < k \<longrightarrow> Term (log rf ! nat k) \<noteq> Term (log rf ! nat startIdx)"
    by auto
  from k(3) assms(1,3) have "0 \<le> k" by linarith
  with k show ?thesis unfolding findConflictIndex_def by blast
qed

section \<open>Persistence\<close>

text \<open>A restart from what was persisted last gives back term, vote and log.\<close>

lemma readPersist_persist:
  "readPersist r (ReadRaftState (persister (persist rf)))
     = Inr (updateLastLogInfo (r\<lparr>currentTerm := currentTerm rf, votedFor := votedFor rf,
                                 log := log rf\<rparr>))"
  by (simp add: persist_def readPersist_def raft_store.load_save Let_def)

lemma Make_persist:
  "\<exists>rf'. Make n i (persister (persist rf)) = Inr rf' \<and> currentTerm rf' = currentTerm rf \<and>
     votedFor rf' = votedFor rf \<and> log rf' = log rf \<and> role rf' = Follower \<and> peers rf' = n \<and>
     me rf' = i \<and> commitIndex rf' = 0 \<and> lastApplied rf' = 0 \<and> applyCh rf' = []"
  by (simp add: Make_def readPersist_persist)

lemma Make_fresh:
  "\<exists>rf'. Make n i (MakePersister :: 'c gobval Persister) = Inr rf' \<and> currentTerm rf' = 0 \<and>
     votedFor rf' = -1 \<and> log rf' = [\<lparr>Command = None, Term = 0\<rparr>] \<and> role rf' = Follower \<and>
     peers rf' = n \<and> me rf' = i \<and> commitIndex rf' = 0 \<and> lastApplied rf' = 0 \<and>
     applyCh rf' = [] \<and> dead rf' = False"
  by (simp add: Make_def readPersist_def persister_defs)

section \<open>Applying\<close>

lemma prepareFrom_spec:
  "0 \<le> i \<Longrightarrow> ci < slen lg \<Longrightarrow>
     prepareFrom lg i ci
       = Inr (map (\<lambda>k. \<lparr>CommandValid = True, MsgCommand = Command (lg ! nat k), CommandIndex = k\<rparr>)
                  [i..ci])"
proof (induction lg i ci rule: prepareFrom.induct)
  case (1 lg i ci)
  show ?case
  proof (cases "i \<le> ci")
    case True
    with "1.prems" have g: "go_index lg i = Inr (lg ! nat i)" by simp
    from True "1.prems" "1.IH" [OF True g]
    have IH: "prepareFrom lg (i + 1) ci
       = Inr (map (\<lambda>k. \<lparr>CommandValid = True, MsgCommand = Command (lg ! nat k), CommandIndex = k\<rparr>)
                  [i + 1..ci])" by simp
    from True g IH show ?thesis
      by (subst prepareFrom.simps) (simp add: upto_rec1)
  next
    case False
    then show ?thesis by (subst prepareFrom.simps) simp
  qed
qed

lemma prepareFrom_panics:
  "0 \<le> i \<Longrightarrow> i \<le> ci \<Longrightarrow> slen lg \<le> ci \<Longrightarrow> prepareFrom lg i ci = Inl IndexOutOfRange"
proof (induction lg i ci rule: prepareFrom.induct)
  case (1 lg i ci)
  show ?case
  proof (cases "i < slen lg")
    case True
    with "1.prems" have g: "go_index lg i = Inr (lg ! nat i)" by simp
    from "1.IH" [OF "1.prems"(2) g] True "1.prems" g show ?thesis
      by (subst prepareFrom.simps) auto
  next
    case False
    with "1.prems" show ?thesis by (subst prepareFrom.simps) simp
  qed
qed

lemma applyMessages_spec:
  "applyMessages rf msgs
     = rf\<lparr>applyCh := applyCh rf @ msgs,
          lastApplied := (if msgs = [] then lastApplied rf else CommandIndex (last msgs))\<rparr>"
  by (induction rf msgs rule: applyMessages.induct) auto

lemma applyCommits_spec:
  assumes "0 \<le> lastApplied rf" and "commitIndex rf < slen (log rf)"
  shows "applyCommits rf
    = Inr (rf\<lparr>applyCh := applyCh rf @
            map (\<lambda>k. \<lparr>CommandValid = True, MsgCommand = Command (log rf ! nat k),
                      CommandIndex = k\<rparr>) [lastApplied rf + 1..commitIndex rf],
          lastApplied := max (lastApplied rf) (commitIndex rf)\<rparr>)"
proof (cases "lastApplied rf < commitIndex rf")
  case True
  then have "[lastApplied rf + 1..commitIndex rf] \<noteq> []" by simp
  moreover from True have "last [lastApplied rf + 1..commitIndex rf] = commitIndex rf"
    by (simp add: upto_rec2)
  ultimately show ?thesis using True assms
    by (simp add: applyCommits_def prepareMessages_def prepareFrom_spec applyMessages_spec
        last_map max_def)
next
  case False
  then show ?thesis by (simp add: applyCommits_def max_def)
qed

section \<open>Absence of panics\<close>

text \<open>
  With the dummy entry in place and an index the leader could have sent, AppendEntries
  returns; the only thing it can wait for is room in the \<open>Commit\<close> channel.
\<close>

lemma appendEntriesIfLogMatches_returns:
  assumes "log rf \<noteq> []" and "0 \<le> PrevLogIndex args" and "0 \<le> commitIndex rf"
  shows "appendEntriesIfLogMatches rf args reply \<noteq> Inl f"
proof -
  define rf1 where "rf1 = updateLastLogInfo rf"
  have r1: "log rf1 = log rf" "commitIndex rf1 = commitIndex rf"
      "logPrevIndex rf1 = slen (log rf) - 1"
    using updateLastLogInfo_last [OF assms(1)] by (simp_all add: rf1_def)
  show ?thesis
  proof (cases "PrevLogIndex args > logPrevIndex rf1")
    case True
    with assms(1) r1 show ?thesis
      by (simp add: appendEntriesIfLogMatches_def Let_def rf1_def [symmetric])
  next
    case False
    with r1 have p: "PrevLogIndex args < slen (log rf1)" by simp
    from findConflictIndex_spec [of "PrevLogIndex args" rf1] assms p r1 obtain k where
      k: "findConflictIndex rf1 (PrevLogIndex args) = Inr k" "0 \<le> k" "k \<le> PrevLogIndex args"
      by auto
    with False assms p show ?thesis
      by (simp add: appendEntriesIfLogMatches_def Let_def rf1_def [symmetric])
  qed
qed

lemma AppendEntries_faults_only_blocked:
  assumes "AppendEntries rf args = Inl f"
    and "log rf \<noteq> []" and "0 \<le> PrevLogIndex args" and "0 \<le> commitIndex rf"
  shows "f = Blocks \<and> 100 \<le> Commit rf"
proof -
  define rf2 where "rf2 = resetElectionTimer (updateLastLogInfo rf)"
  obtain rf3 reply3 ok where c: "checkTermWithLeader rf2 args
      (snd (initializeAppendEntriesResponse (updateLastLogInfo rf))) = (rf3, reply3, ok)"
    by (metis prod_cases3)
  note c' = checkTermWithLeader_term_step [OF c]
  define rf4 where "rf4 = updateLastLogInfo rf3"
  obtain reply4 cons where l: "lookConsistency rf4 args reply3 = (reply4, cons)"
    by fastforce
  have r4: "log rf4 = log rf" "commitIndex rf4 = commitIndex rf" "Commit rf4 = Commit rf"
    using c c' by (auto simp: rf4_def rf2_def checkTermWithLeader_def becomeFollower_def
        split: if_splits)
  have "appendEntriesIfLogMatches rf4 args reply4 \<noteq> Inl g" for g
    using appendEntriesIfLogMatches_returns [of rf4 args] assms(2-4) r4 by simp
  then obtain rf5 reply5 app where
    a: "appendEntriesIfLogMatches rf4 args reply4 = Inr (rf5, reply5, app)"
    by (metis prod_cases3 sum.exhaust)
  from assms(1) c l a have "updateCommitIndexAndNotify rf5 args = Inl f"
    by (auto simp: AppendEntries_def initializeAppendEntriesResponse_def Let_def
        rf2_def [symmetric] rf4_def [symmetric] split: if_splits sum.splits)
  moreover from a have "Commit rf5 = Commit rf4"
    by (auto simp: appendEntriesIfLogMatches_def Let_def split: if_splits sum.splits)
  ultimately show ?thesis using r4
    by (auto simp: updateCommitIndexAndNotify_def sendCommit_def Let_def
        split: if_splits sum.splits)
qed

section \<open>The order of applied messages\<close>

definition apply_ok :: "'c Raft \<Rightarrow> bool" where
  "apply_ok rf \<longleftrightarrow> 0 \<le> lastApplied rf \<and> map CommandIndex (applyCh rf) = [1..lastApplied rf]"

lemma prepareFrom_indices:
  "prepareFrom lg i ci = Inr msgs \<Longrightarrow> map CommandIndex msgs = [i..ci]"
proof (induction lg i ci arbitrary: msgs rule: prepareFrom.induct)
  case (1 lg i ci)
  show ?case
  proof (cases "i \<le> ci")
    case True
    with "1.prems" obtain e msgs' where e: "go_index lg i = Inr e"
      and m: "prepareFrom lg (i + 1) ci = Inr msgs'"
        "msgs = \<lparr>CommandValid = True, MsgCommand = Command e, CommandIndex = i\<rparr> # msgs'"
      by (subst (asm) prepareFrom.simps) (auto split: sum.splits)
    from "1.IH" [OF True e m(1)] m(2) True show ?thesis
      by (simp add: upto_rec1 [of i ci])
  next
    case False
    with "1.prems" show ?thesis by (subst (asm) prepareFrom.simps) simp
  qed
qed

lemma applyCommits_apply_ok:
  assumes "apply_ok rf" and "applyCommits rf = Inr rf'"
  shows "apply_ok rf' \<and> term_step rf rf' \<and> log rf' = log rf \<and> commitIndex rf' = commitIndex rf \<and>
    lastApplied rf' = max (lastApplied rf) (commitIndex rf)"
proof (cases "lastApplied rf < commitIndex rf")
  case True
  with assms(2) obtain msgs where m: "prepareMessages rf = Inr msgs"
    and rf': "rf' = applyMessages rf msgs"
    by (auto simp: applyCommits_def split: sum.splits)
  from m have idx: "map CommandIndex msgs = [lastApplied rf + 1..commitIndex rf]"
    by (simp add: prepareMessages_def prepareFrom_indices)
  with True have "msgs \<noteq> []" by auto
  moreover from this have "CommandIndex (last msgs) = last (map CommandIndex msgs)"
    by (simp add: last_map)
  moreover from True have "last [lastApplied rf + 1..commitIndex rf] = commitIndex rf"
    by (simp add: upto_rec2)
  moreover from assms(1) True have "[1..lastApplied rf] @ [lastApplied rf + 1..commitIndex rf]
      = [1..commitIndex rf]"
    by (intro upto_join) (simp_all add: apply_ok_def)
  ultimately show ?thesis using True assms(1)
    by (simp add: rf' applyMessages_spec idx apply_ok_def term_step_def)
next
  case False
  with assms show ?thesis by (auto simp: applyCommits_def max_def)
qed

end
