(* ===== verification/RaftSystem.thy ===== *)
theory RaftSystem
  imports RaftLemmas
begin

text \<open>
  A cluster of Raft peers: their states, the goroutines they have started, and the RPCs
  in flight. Every action is one critical section of the code or one event of the
  network, so an execution is any interleaving of goroutines, deliveries, losses and
  delays. An RPC carries the number of its \<open>Call\<close>; a reply packet repeats the call, the
  server and the arguments it answers, and a \<open>Call\<close> may also return without a reply
  (\<open>CallFails\<close>), with the zero reply the caller allocated. Requests are never
  duplicated. \<open>Restart\<close> is the tester's crash: the peer's goroutines stop, and
  \<open>Make\<close> builds a new peer from what was persisted.
\<close>

datatype 'c routine =
    ElectionSpawned nat
  | Polling nat RequestVoteArgs nat int int
  | AwaitVote nat RequestVoteArgs nat int int nat
  | Beating nat nat int int
  | AwaitAppend nat nat int int "'c AppendEntriesArgs" nat
  | Ended

datatype 'c packet =
    VoteReq nat nat RequestVoteArgs
  | VoteRep nat nat RequestVoteArgs RequestVoteReply
  | AppReq nat nat "'c AppendEntriesArgs"
  | AppRep nat nat "'c AppendEntriesArgs" AppendEntriesReply

record 'c system =
  nservers :: nat
  nodes :: "nat \<Rightarrow> 'c Raft"
  routines :: "'c routine list"
  net :: "'c packet list"
  calls :: nat

datatype 'c action =
    ElectionTick nat
  | HeartbeatTick nat
  | HeartbeatSpawn nat nat
  | Run nat
  | Deliver "'c packet"
  | Return nat "'c packet"
  | CallFails nat
  | Lose "'c packet"
  | ClientStart nat "'c option"
  | Apply nat
  | KillPeer nat
  | Restart nat

definition setNode :: "nat \<Rightarrow> 'c Raft \<Rightarrow> 'c system \<Rightarrow> 'c system" where
  "setNode i rf s = s\<lparr>nodes := (nodes s)(i := rf)\<rparr>"

definition setRoutine :: "nat \<Rightarrow> 'c routine \<Rightarrow> 'c system \<Rightarrow> 'c system" where
  "setRoutine g r s = s\<lparr>routines := (routines s)[g := r]\<rparr>"

definition spawn :: "'c routine \<Rightarrow> 'c system \<Rightarrow> 'c system" where
  "spawn r s = s\<lparr>routines := routines s @ [r]\<rparr>"

definition sendCall :: "'c packet \<Rightarrow> 'c system \<Rightarrow> 'c system" where
  "sendCall p s = s\<lparr>net := net s @ [p], calls := Suc (calls s)\<rparr>"

definition answer :: "'c packet \<Rightarrow> 'c packet \<Rightarrow> 'c system \<Rightarrow> 'c system" where
  "answer req rep s = s\<lparr>net := remove1 req (net s) @ [rep]\<rparr>"

definition takePacket :: "'c packet \<Rightarrow> 'c system \<Rightarrow> 'c system" where
  "takePacket p s = s\<lparr>net := remove1 p (net s)\<rparr>"

text \<open>\<open>Make\<close> of a peer that never persisted anything.\<close>

definition freshNode :: "nat \<Rightarrow> nat \<Rightarrow> 'c Raft" where
  "freshNode n i = (case Make n i MakePersister of Inr rf \<Rightarrow> rf)"

definition startSystem :: "nat \<Rightarrow> 'c system" where
  "startSystem n = \<lparr>nservers = n, nodes = freshNode n, routines = [], net = [], calls = 0\<rparr>"

definition raftInit :: "'c system \<Rightarrow> bool" where
  "raftInit s \<longleftrightarrow> s = startSystem (nservers s)"

text \<open>A goroutine runs up to its next RPC or to its end.\<close>

fun runRoutine :: "nat \<Rightarrow> 'c routine \<Rightarrow> 'c system \<Rightarrow> 'c system option" where
  "runRoutine g (ElectionSpawned i) s =
     (let (rf, args) = electionBegin (nodes s i)
      in Some (setRoutine g (Polling i args 0 1 1) (setNode i rf s)))"
| "runRoutine g (Polling i args p vc vg) s =
     (if p < nservers s
      then if p \<noteq> i
           then Some (sendCall (VoteReq (calls s) p args)
                       (setRoutine g (AwaitVote i args p vc vg (calls s)) s))
           else Some (setRoutine g (Polling i args (Suc p) vc vg) s)
      else (case electionEnd (nodes s i) args vg of
              Inl _ \<Rightarrow> None
            | Inr rf \<Rightarrow> Some (setRoutine g Ended (setNode i rf s))))"
| "runRoutine g (Beating i j next term) s =
     (if killed (nodes s i) \<or> \<not> heartbeatGo (nodes s i) term
      then Some (setRoutine g Ended s)
      else (case initiateAppendEntries (nodes s i) next of
              Inl _ \<Rightarrow> None
            | Inr args \<Rightarrow>
               Some (sendCall (AppReq (calls s) j args)
                      (setRoutine g (AwaitAppend i j next term args (calls s)) s))))"
| "runRoutine g _ s = None"

text \<open>A goroutine's \<open>Call\<close> comes back; it counts the vote or digests the reply.\<close>

definition voteReturns ::
  "nat \<Rightarrow> nat \<Rightarrow> RequestVoteArgs \<Rightarrow> nat \<Rightarrow> int \<Rightarrow> int \<Rightarrow> RequestVoteReply
   \<Rightarrow> 'c system \<Rightarrow> 'c system" where
  "voteReturns g i args p vc vg reply s =
     (let rf = electionStepDown (nodes s i) args reply;
          (vc', vg', stop) = electionTally (nservers s) reply vc vg
      in setRoutine g (Polling i args (if stop then nservers s else Suc p) vc' vg')
           (setNode i rf s))"

definition appendReturns ::
  "nat \<Rightarrow> nat \<Rightarrow> nat \<Rightarrow> int \<Rightarrow> int \<Rightarrow> 'c AppendEntriesArgs \<Rightarrow> AppendEntriesReply
   \<Rightarrow> 'c system \<Rightarrow> 'c system option" where
  "appendReturns g i j next term args reply s =
     (case handleAppendEntriesResponse (nodes s i) reply args j next term of
        Inl _ \<Rightarrow> None
      | Inr (rf, next', again) \<Rightarrow>
         Some (setRoutine g (if again then Beating i j next' term else Ended) (setNode i rf s)))"

fun returnTo :: "nat \<Rightarrow> 'c routine \<Rightarrow> 'c packet \<Rightarrow> 'c system \<Rightarrow> 'c system option" where
  "returnTo g (AwaitVote i args p vc vg cid) (VoteRep cid' p' args' reply) s =
     (if cid' = cid \<and> p' = p \<and> args' = args \<and> VoteRep cid' p' args' reply \<in> set (net s)
      then Some (voteReturns g i args p vc vg reply
                  (takePacket (VoteRep cid' p' args' reply) s))
      else None)"
| "returnTo g (AwaitAppend i j next term args cid) (AppRep cid' j' args' reply) s =
     (if cid' = cid \<and> j' = j \<and> args' = args \<and> AppRep cid' j' args' reply \<in> set (net s)
      then appendReturns g i j next term args reply
             (takePacket (AppRep cid' j' args' reply) s)
      else None)"
| "returnTo g _ _ s = None"

fun failCall :: "nat \<Rightarrow> 'c routine \<Rightarrow> 'c system \<Rightarrow> 'c system option" where
  "failCall g (AwaitVote i args p vc vg cid) s =
     Some (voteReturns g i args p vc vg zeroVoteReply s)"
| "failCall g (AwaitAppend i j next term args cid) s =
     appendReturns g i j next term args zeroAppendReply s"
| "failCall g _ s = None"

text \<open>A request reaches its server, whose handler runs and answers.\<close>

fun deliver :: "'c packet \<Rightarrow> 'c system \<Rightarrow> 'c system option" where
  "deliver (VoteReq cid d args) s =
     (let (rf, reply) = RequestVote (nodes s d) args
      in Some (answer (VoteReq cid d args) (VoteRep cid d args reply) (setNode d rf s)))"
| "deliver (AppReq cid d args) s =
     (case AppendEntries (nodes s d) args of
        Inl _ \<Rightarrow> None
      | Inr (rf, reply) \<Rightarrow>
         Some (answer (AppReq cid d args) (AppRep cid d args reply) (setNode d rf s)))"
| "deliver _ s = None"

fun stopRoutine :: "nat \<Rightarrow> 'c routine \<Rightarrow> 'c routine" where
  "stopRoutine i (ElectionSpawned j) = (if i = j then Ended else ElectionSpawned j)"
| "stopRoutine i (Polling j a p vc vg) = (if i = j then Ended else Polling j a p vc vg)"
| "stopRoutine i (AwaitVote j a p vc vg c) = (if i = j then Ended else AwaitVote j a p vc vg c)"
| "stopRoutine i (Beating j k nx t) = (if i = j then Ended else Beating j k nx t)"
| "stopRoutine i (AwaitAppend j k nx t a c) = (if i = j then Ended else AwaitAppend j k nx t a c)"
| "stopRoutine i Ended = Ended"

fun sysStep :: "'c action \<Rightarrow> 'c system \<Rightarrow> 'c system option" where
  "sysStep (ElectionTick i) s =
     (if i < nservers s \<and> \<not> killed (nodes s i) then
        if shouldStartElection (nodes s i)
        then Some (spawn (ElectionSpawned i) (setNode i (resetElectionTimer (nodes s i)) s))
        else Some s
      else None)"
| "sysStep (HeartbeatTick i) s =
     (if i < nservers s \<and> \<not> killed (nodes s i)
      then Some (setNode i (resetHeartbeatTimer (nodes s i)) s) else None)"
| "sysStep (HeartbeatSpawn i j) s =
     (if i < nservers s \<and> j < nservers s then
        (case requestHeartbeat (nodes s i) j of
           Inl _ \<Rightarrow> None
         | Inr None \<Rightarrow> Some s
         | Inr (Some (k, next, term)) \<Rightarrow> Some (spawn (Beating i k next term) s))
      else None)"
| "sysStep (Run g) s = (if g < length (routines s) then runRoutine g (routines s ! g) s else None)"
| "sysStep (Deliver p) s = (if p \<in> set (net s) then deliver p s else None)"
| "sysStep (Return g p) s =
     (if g < length (routines s) then returnTo g (routines s ! g) p s else None)"
| "sysStep (CallFails g) s =
     (if g < length (routines s) then failCall g (routines s ! g) s else None)"
| "sysStep (Lose p) s = (if p \<in> set (net s) then Some (takePacket p s) else None)"
| "sysStep (ClientStart i c) s =
     (if i < nservers s then
        (case Start (nodes s i) c of
           Inl _ \<Rightarrow> None
         | Inr (rf, _, _, _) \<Rightarrow> Some (setNode i rf s))
      else None)"
| "sysStep (Apply i) s =
     (if i < nservers s then
        (case CommitLog (nodes s i) of Inl _ \<Rightarrow> None | Inr rf \<Rightarrow> Some (setNode i rf s))
      else None)"
| "sysStep (KillPeer i) s =
     (if i < nservers s then Some (setNode i (Kill (nodes s i)) s) else None)"
| "sysStep (Restart i) s =
     (if i < nservers s then
        (case Make (nservers s) i (persister (nodes s i)) of
           Inl _ \<Rightarrow> None
         | Inr rf \<Rightarrow> Some ((setNode i rf s)\<lparr>routines := map (stopRoutine i) (routines s)\<rparr>))
      else None)"

text \<open>Executions in which no peer crashes.\<close>

fun isRestart :: "'c action \<Rightarrow> bool" where
  "isRestart (Restart i) = True"
| "isRestart _ = False"

definition stableStep :: "'c action \<Rightarrow> 'c system \<Rightarrow> 'c system option" where
  "stableStep a s = (if isRestart a then None else sysStep a s)"

lemmas sys_update_defs = setNode_def setRoutine_def spawn_def sendCall_def answer_def takePacket_def

lemma freshNode_simps [simp]:
  "currentTerm (freshNode n i) = 0" "votedFor (freshNode n i) = -1"
  "log (freshNode n i) = [\<lparr>Command = None, Term = 0\<rparr>]" "role (freshNode n i) = Follower"
  "peers (freshNode n i) = n" "me (freshNode n i) = i" "commitIndex (freshNode n i) = 0"
  "lastApplied (freshNode n i) = 0" "applyCh (freshNode n i) = []"
  "dead (freshNode n i) = False"
  by (simp_all add: freshNode_def Make_def readPersist_def persister_defs)

lemma heartbeatGo_iff: "heartbeatGo rf term \<longleftrightarrow> role rf = Leader \<and> currentTerm rf = term"
  by (simp add: heartbeatGo_def)

lemma initiateAppendEntries_Inr:
  "initiateAppendEntries rf next = Inr args \<Longrightarrow>
     aeTerm args = currentTerm rf \<and> LeaderID args = int (me rf) \<and>
     0 \<le> PrevLogIndex args \<and> PrevLogIndex args < slen (log rf) \<and>
     PrevLogTerm args = Term (log rf ! nat (PrevLogIndex args)) \<and>
     Entries args = drop (nat (PrevLogIndex args + 1)) (log rf)"
  by (auto simp: initiateAppendEntries_def go_simps split: sum.splits)

lemma requestHeartbeat_Some:
  "requestHeartbeat rf j = Inr (Some (k, next, term)) \<Longrightarrow>
     k = j \<and> me rf \<noteq> j \<and> role rf = Leader \<and> term = currentTerm rf"
  by (auto simp: requestHeartbeat_def split: if_splits sum.splits)

lemma handleAppendEntriesResponse_term_step:
  assumes "handleAppendEntriesResponse rf reply args server next term = Inr (rf', next', again)"
  shows "term_step rf rf' \<and> log rf' = log rf"
proof -
  have u: "updateSuccessIndexes rf server nx n = Inr rf1 \<Longrightarrow>
      term_step rf rf1 \<and> log rf1 = log rf" for nx n rf1
    by (auto simp: updateSuccessIndexes_def term_step_def split: sum.splits)
  have a: "attemptCommitLogs rf1 args = Inr rf2 \<Longrightarrow> term_step rf1 rf2 \<and> log rf2 = log rf1"
    for rf1 rf2
    using updateCommitIndex_spec [of rf1 rf2]
    by (auto simp: attemptCommitLogs_def split: if_splits)
  show ?thesis
    using assms
    by (auto simp: handleAppendEntriesResponse_def term_step_same split: if_splits sum.splits
        dest!: u a intro: term_step_trans)
      (simp_all add: term_step_def)
qed

end
