(* ===== verification/RaftElection.thy ===== *)
theory RaftElection
  imports RaftSystem
begin

text \<open>
  Election Safety of a cluster whose peers do not crash: two leaders of one term are the
  same peer. The proof keeps a ledger \<open>V v t\<close> of the votes cast (the candidate peer
  \<open>v\<close> voted for in term \<open>t\<close>, or -1), which only grows because no operation changes
  a vote without moving to a higher term (\<open>term_step\<close>). A goroutine that counts votes
  holds as many as there are distinct ledger entries for its candidate, so a leader has a
  majority of its term, and two majorities meet.
\<close>

type_synonym ledger = "nat \<Rightarrow> int \<Rightarrow> int"

definition extends :: "ledger \<Rightarrow> ledger \<Rightarrow> bool" where
  "extends V V' \<longleftrightarrow> (\<forall>v t. V v t \<noteq> -1 \<longrightarrow> V' v t = V v t)"

definition elected :: "nat \<Rightarrow> ledger \<Rightarrow> int \<Rightarrow> nat \<Rightarrow> bool" where
  "elected n V t i \<longleftrightarrow> (\<exists>Q. Q \<subseteq> {..<n} \<and> n div 2 < card Q \<and> (\<forall>v\<in>Q. V v t = int i))"

text \<open>The votes a candidate has counted after polling the peers below \<open>p\<close>.\<close>

definition counted :: "nat \<Rightarrow> ledger \<Rightarrow> int \<Rightarrow> nat \<Rightarrow> nat \<Rightarrow> int \<Rightarrow> bool" where
  "counted n V t i p vg \<longleftrightarrow>
     (\<exists>G. G \<subseteq> {..<n} \<and> vg = int (card G) \<and> (\<forall>v\<in>G. V v t = int i \<and> (v = i \<or> v < p)))"

fun routine_ok :: "nat \<Rightarrow> ledger \<Rightarrow> 'c routine \<Rightarrow> bool" where
  "routine_ok n V (ElectionSpawned i) = (i < n)"
| "routine_ok n V (Polling i args p vc vg) =
     (i < n \<and> CandidateId args = int i \<and> counted n V (rvTerm args) i p vg)"
| "routine_ok n V (AwaitVote i args p vc vg cid) =
     (i < n \<and> p < n \<and> p \<noteq> i \<and> CandidateId args = int i \<and> counted n V (rvTerm args) i p vg)"
| "routine_ok n V (Beating i j next term) = (i < n \<and> j < n \<and> i \<noteq> j)"
| "routine_ok n V (AwaitAppend i j next term args cid) = (i < n \<and> j < n \<and> i \<noteq> j)"
| "routine_ok n V Ended = True"

fun packet_ok :: "nat \<Rightarrow> ledger \<Rightarrow> 'c packet \<Rightarrow> bool" where
  "packet_ok n V (VoteReq cid d args) = (d < n \<and> 0 \<le> CandidateId args)"
| "packet_ok n V (VoteRep cid d args reply) =
     (0 \<le> CandidateId args \<and> (VoteGranted reply \<longrightarrow> V d (rvTerm args) = CandidateId args))"
| "packet_ok n V (AppReq cid d args) =
     (d < n \<and> (\<exists>i<n. i \<noteq> d \<and> LeaderID args = int i \<and> elected n V (aeTerm args) i))"
| "packet_ok n V (AppRep cid d args reply) = True"

definition node_ok :: "nat \<Rightarrow> ledger \<Rightarrow> nat \<Rightarrow> 'c Raft \<Rightarrow> bool" where
  "node_ok n V i rf \<longleftrightarrow>
     peers rf = n \<and> me rf = i \<and> 0 \<le> currentTerm rf \<and>
     V i (currentTerm rf) = votedFor rf \<and> (\<forall>t > currentTerm rf. V i t = -1) \<and>
     (role rf = Leader \<longrightarrow> elected n V (currentTerm rf) i)"

definition election_inv :: "ledger \<Rightarrow> 'c system \<Rightarrow> bool" where
  "election_inv V s \<longleftrightarrow>
     (\<forall>v t. t \<le> 0 \<longrightarrow> V v t = -1) \<and>
     (\<forall>i < nservers s. node_ok (nservers s) V i (nodes s i)) \<and>
     (\<forall>r \<in> set (routines s). routine_ok (nservers s) V r) \<and>
     (\<forall>p \<in> set (net s). packet_ok (nservers s) V p)"

section \<open>The ledger only grows\<close>

lemma extends_refl [simp]: "extends V V"
  by (simp add: extends_def)

lemma extendsD: "extends V V' \<Longrightarrow> V v t = c \<Longrightarrow> 0 \<le> c \<Longrightarrow> V' v t = c"
  by (auto simp: extends_def)

lemma elected_mono: "elected n V t i \<Longrightarrow> extends V V' \<Longrightarrow> elected n V' t i"
  unfolding elected_def by (metis extendsD of_nat_0_le_iff)

lemma counted_mono: "counted n V t i p vg \<Longrightarrow> extends V V' \<Longrightarrow> counted n V' t i p vg"
  unfolding counted_def by (metis extendsD of_nat_0_le_iff)

lemma counted_later: "counted n V t i p vg \<Longrightarrow> p \<le> q \<Longrightarrow> counted n V t i q vg"
  unfolding counted_def by (metis order_less_le_trans)

lemma counted_vote:
  assumes "counted n V t i p vg" and "V p t = int i" and "p < n" and "p \<noteq> i" and "Suc p \<le> q"
  shows "counted n V t i q (vg + 1)"
proof -
  from assms(1) obtain G where G: "G \<subseteq> {..<n}" "vg = int (card G)"
      "\<forall>v\<in>G. V v t = int i \<and> (v = i \<or> v < p)"
    by (auto simp: counted_def)
  from G(3) assms(4) have "p \<notin> G" by blast
  moreover from G(1) have "finite G" by (rule finite_subset) simp
  ultimately have "int (card (insert p G)) = vg + 1" using G(2) by simp
  moreover have "\<forall>v\<in>insert p G. V v t = int i \<and> (v = i \<or> v < q)"
    using G(3) assms(2,5) by auto
  ultimately show ?thesis using G(1) assms(3)
    unfolding counted_def by (intro exI [of _ "insert p G"]) auto
qed

lemma counted_majority: "counted n V t i p vg \<Longrightarrow> vg > int (n div 2) \<Longrightarrow> elected n V t i"
  unfolding counted_def elected_def by auto

lemma elected_unique:
  assumes "elected n V t i" and "elected n V t j"
  shows "i = j"
proof -
  from assms obtain P Q where "P \<subseteq> {..<n}" "n div 2 < card P" "\<forall>v\<in>P. V v t = int i"
      "Q \<subseteq> {..<n}" "n div 2 < card Q" "\<forall>v\<in>Q. V v t = int j"
    unfolding elected_def by blast
  moreover from this majorities_intersect [of P n Q] obtain v where "v \<in> P" "v \<in> Q" by auto
  ultimately show ?thesis by force
qed

lemma elected_term_pos:
  assumes "elected n V t i" and "\<forall>v t. t \<le> 0 \<longrightarrow> V v t = -1"
  shows "0 < t"
proof (rule ccontr)
  assume "\<not> 0 < t"
  with assms(2) have V: "V v t = -1" for v by simp
  from assms(1) obtain Q where "n div 2 < card Q" "\<forall>v\<in>Q. V v t = int i"
    unfolding elected_def by blast
  moreover from this(1) have "Q \<noteq> {}" by auto
  ultimately show False using V by force
qed

lemma routine_ok_mono: "routine_ok n V r \<Longrightarrow> extends V V' \<Longrightarrow> routine_ok n V' r"
  by (cases r) (auto intro: counted_mono)

lemma packet_ok_mono: "packet_ok n V p \<Longrightarrow> extends V V' \<Longrightarrow> packet_ok n V' p"
  by (cases p) (auto intro: elected_mono extendsD)

section \<open>One peer moves\<close>

definition cast :: "nat \<Rightarrow> 'c Raft \<Rightarrow> ledger \<Rightarrow> ledger" where
  "cast i rf V = V(i := (V i)(currentTerm rf := votedFor rf))"

lemma cast_step:
  assumes "node_ok n V i rf" and "term_step rf rf'" and "\<forall>v t. t \<le> 0 \<longrightarrow> V v t = -1"
  shows "extends V (cast i rf' V) \<and> node_ok n (cast i rf' V) i rf' \<and>
    (\<forall>v t. t \<le> 0 \<longrightarrow> cast i rf' V v t = -1)"
proof (cases "currentTerm rf' = currentTerm rf")
  case True
  with assms(1,2) have "V i (currentTerm rf') = votedFor rf'"
    by (auto simp: term_step_def node_ok_def)
  then have "cast i rf' V = V"
    by (auto simp: cast_def fun_eq_iff)
  with True assms show ?thesis
    by (auto simp: term_step_def node_ok_def)
next
  case False
  with assms(2) have t: "currentTerm rf < currentTerm rf'" "role rf' \<noteq> Leader"
      "peers rf' = peers rf" "me rf' = me rf"
    by (auto simp: term_step_def)
  with assms(1) have new: "V i (currentTerm rf') = -1" "0 < currentTerm rf'"
    by (auto simp: node_ok_def)
  then have "extends V (cast i rf' V)" by (auto simp: extends_def cast_def)
  moreover have "node_ok n (cast i rf' V) i rf'"
    using assms(1) t new by (auto simp: node_ok_def cast_def)
  ultimately show ?thesis using assms(3) new by (auto simp: cast_def)
qed

lemma node_ok_other:
  "node_ok n V j rf \<Longrightarrow> extends V V' \<Longrightarrow> V' j = V j \<Longrightarrow> node_ok n V' j rf"
  by (auto simp: node_ok_def intro: elected_mono)

lemma election_node:
  assumes "election_inv V s" and "extends V V'" and "\<forall>v t. t \<le> 0 \<longrightarrow> V' v t = -1"
    and "node_ok (nservers s) V' i rf" and "\<And>j. j \<noteq> i \<Longrightarrow> V' j = V j"
    and "nservers t = nservers s" and "nodes t = (nodes s)(i := rf)"
    and "\<forall>r\<in>set (routines t). r \<in> set (routines s) \<or> routine_ok (nservers s) V' r"
    and "\<forall>p\<in>set (net t). p \<in> set (net s) \<or> packet_ok (nservers s) V' p"
  shows "election_inv V' t"
  unfolding election_inv_def
proof (intro conjI)
  show "\<forall>v t. t \<le> 0 \<longrightarrow> V' v t = -1" by (rule assms(3))
  show "\<forall>j<nservers t. node_ok (nservers t) V' j (nodes t j)"
    using assms(1-7) by (auto simp: election_inv_def intro: node_ok_other)
  show "\<forall>r\<in>set (routines t). routine_ok (nservers t) V' r"
    using assms(1,2,6,8) by (metis election_inv_def routine_ok_mono)
  show "\<forall>p\<in>set (net t). packet_ok (nservers t) V' p"
    using assms(1,2,6,9) by (metis election_inv_def packet_ok_mono)
qed

lemma election_cast:
  assumes inv: "election_inv V s" and i: "i < nservers s"
    and step: "term_step (nodes s i) rf"
    and "nservers t = nservers s" and "nodes t = (nodes s)(i := rf)"
    and "\<forall>r\<in>set (routines t). r \<in> set (routines s) \<or> routine_ok (nservers s) (cast i rf V) r"
    and "\<forall>p\<in>set (net t). p \<in> set (net s) \<or> packet_ok (nservers s) (cast i rf V) p"
  shows "\<exists>V'. extends V V' \<and> election_inv V' t"
proof -
  from inv i have "node_ok (nservers s) V i (nodes s i)" "\<forall>v t. t \<le> 0 \<longrightarrow> V v t = -1"
    by (auto simp: election_inv_def)
  from cast_step [OF this(1) step this(2)]
  have c: "extends V (cast i rf V)" "\<forall>v t. t \<le> 0 \<longrightarrow> cast i rf V v t = -1"
      "node_ok (nservers s) (cast i rf V) i rf"
    by auto
  have "election_inv (cast i rf V) t"
    by (rule election_node [OF inv c(1,2,3) _ assms(4,5,6,7)]) (simp add: cast_def)
  with c(1) show ?thesis by blast
qed

lemma election_frame:
  assumes "election_inv V s" and "nservers t = nservers s" and "nodes t = nodes s"
    and "\<forall>r\<in>set (routines t). r \<in> set (routines s) \<or> routine_ok (nservers s) V r"
    and "\<forall>p\<in>set (net t). p \<in> set (net s) \<or> packet_ok (nservers s) V p"
  shows "\<exists>V'. extends V V' \<and> election_inv V' t"
proof -
  from assms have "election_inv V t" unfolding election_inv_def by metis
  then show ?thesis using extends_refl by blast
qed

section \<open>Every action keeps the invariant\<close>

lemma in_set_update: "x \<in> set (xs[k := y]) \<Longrightarrow> x = y \<or> x \<in> set xs"
  using set_update_subset_insert by fastforce

lemma election_inv_routine:
  "election_inv V s \<Longrightarrow> g < length (routines s) \<Longrightarrow> routine_ok (nservers s) V (routines s ! g)"
  by (auto simp: election_inv_def)

lemma election_inv_packet:
  "election_inv V s \<Longrightarrow> p \<in> set (net s) \<Longrightarrow> packet_ok (nservers s) V p"
  by (auto simp: election_inv_def)

lemma election_inv_node:
  "election_inv V s \<Longrightarrow> i < nservers s \<Longrightarrow> node_ok (nservers s) V i (nodes s i)"
  by (auto simp: election_inv_def)

lemma counted_self:
  assumes "V i t = int i" and "i < n"
  shows "counted n V t i 0 1"
  unfolding counted_def using assms by (intro exI [of _ "{i}"]) auto

lemma run_election:
  assumes inv: "election_inv V s" and ok: "routine_ok (nservers s) V r"
    and run: "runRoutine g r s = Some t"
  shows "\<exists>V'. extends V V' \<and> election_inv V' t"
  using ok run
proof (cases r)
  case (ElectionSpawned i)
  obtain rf args where b: "electionBegin (nodes s i) = (rf, args)" by fastforce
  from ok ElectionSpawned have i: "i < nservers s" by simp
  from run ElectionSpawned b have
    t: "t = setRoutine g (Polling i args 0 1 1) (setNode i rf s)" by simp
  have step: "term_step (nodes s i) rf"
    using electionBegin_term_step [of "nodes s i"] b by simp
  note args = electionBegin_args [OF b]
  have "me (nodes s i) = i" using election_inv_node [OF inv i] by (simp add: node_ok_def)
  with args i have "routine_ok (nservers s) (cast i rf V) (Polling i args 0 1 1)"
    by (simp add: counted_self cast_def)
  then show ?thesis
    by (intro election_cast [OF inv i step])
      (auto simp: t setRoutine_def setNode_def dest!: in_set_update)
next
  case (Polling i args p vc vg)
  from ok Polling have i: "i < nservers s" "CandidateId args = int i"
      "counted (nservers s) V (rvTerm args) i p vg" by auto
  show ?thesis
  proof (cases "p < nservers s")
    case True
    show ?thesis
    proof (cases "p = i")
      case [simp]: True
      with run Polling \<open>p < nservers s\<close> have
        t: "t = setRoutine g (Polling i args (Suc p) vc vg) s" by simp
      from counted_later [OF i(3), of "Suc p"]
      have "routine_ok (nservers s) V (Polling i args (Suc p) vc vg)" using i by simp
      then show ?thesis
        by (intro election_frame [OF inv]) (auto simp: t setRoutine_def dest!: in_set_update)
    next
      case False
      with run Polling True have
        t: "t = sendCall (VoteReq (calls s) p args)
                  (setRoutine g (AwaitVote i args p vc vg (calls s)) s)" by simp
      show ?thesis
        by (rule election_frame [OF inv])
          (use i False True in \<open>auto simp: t setRoutine_def sendCall_def dest!: in_set_update\<close>)
    qed
  next
    case False
    with run Polling obtain rf where e: "electionEnd (nodes s i) args vg = Inr rf"
      and t: "t = setRoutine g Ended (setNode i rf s)"
      by (auto split: sum.splits)
    from e show ?thesis
    proof (cases rule: electionEnd_cases)
      case 1
      show ?thesis
        by (rule election_cast [OF inv i(1) 1(1)])
          (auto simp: t setRoutine_def setNode_def dest!: in_set_update)
    next
      case 2
      note n = election_inv_node [OF inv i(1)]
      with 2 i(3) have "elected (nservers s) V (rvTerm args) i"
        by (auto simp: node_ok_def intro: counted_majority)
      with 2 n have "node_ok (nservers s) V i rf" by (simp add: node_ok_def)
      moreover from inv have "\<forall>v t. t \<le> 0 \<longrightarrow> V v t = -1" by (simp add: election_inv_def)
      ultimately have "election_inv V t"
        by (intro election_node [OF inv extends_refl])
          (auto simp: t setRoutine_def setNode_def dest!: in_set_update)
      then show ?thesis using extends_refl by blast
    qed
  qed
next
  case (Beating i j nx tm)
  from ok Beating have ij: "i < nservers s" "j < nservers s" "i \<noteq> j" by auto
  show ?thesis
  proof (cases "killed (nodes s i) \<or> \<not> heartbeatGo (nodes s i) tm")
    case True
    with run Beating have t: "t = setRoutine g Ended s" by simp
    show ?thesis
      by (rule election_frame [OF inv]) (auto simp: t setRoutine_def dest!: in_set_update)
  next
    case False
    with run Beating obtain args where a: "initiateAppendEntries (nodes s i) nx = Inr args"
      and t: "t = sendCall (AppReq (calls s) j args)
                    (setRoutine g (AwaitAppend i j nx tm args (calls s)) s)"
      by (auto split: sum.splits)
    from False have "role (nodes s i) = Leader" by (simp add: heartbeatGo_iff)
    with election_inv_node [OF inv ij(1)] initiateAppendEntries_Inr [OF a]
    have "elected (nservers s) V (aeTerm args) i" "LeaderID args = int i"
      by (auto simp: node_ok_def)
    with ij have "packet_ok (nservers s) V (AppReq (calls s) j args)" by auto
    then show ?thesis
      by (intro election_frame [OF inv])
        (use ij in \<open>auto simp: t setRoutine_def sendCall_def dest!: in_set_update\<close>)
  qed
qed auto

lemma voteReturns_election:
  assumes inv: "election_inv V s" and i: "i < nservers s" "p < nservers s" "p \<noteq> i"
    and args: "CandidateId args = int i" "counted (nservers s) V (rvTerm args) i p vg"
    and reply: "VoteGranted reply \<longrightarrow> V p (rvTerm args) = int i"
  shows "\<exists>V'. extends V V' \<and> election_inv V' (voteReturns g i args p vc vg reply s)"
proof -
  define rf where "rf = electionStepDown (nodes s i) args reply"
  obtain vc' vg' stop where tally: "electionTally (nservers s) reply vc vg = (vc', vg', stop)"
    by (metis prod_cases3)
  define q where "q = (if stop then nservers s else Suc p)"
  have step: "term_step (nodes s i) rf"
    by (simp add: rf_def electionStepDown_term_step)
  from inv i(1) have ext: "extends V (cast i rf V)"
    using cast_step [OF election_inv_node [OF inv i(1)] step] by (auto simp: election_inv_def)
  have "Suc p \<le> q" using i(2) by (simp add: q_def)
  have "counted (nservers s) V (rvTerm args) i q vg'"
  proof (cases "VoteGranted reply")
    case True
    with tally have "vg' = vg + 1" by (auto simp: electionTally_def Let_def)
    with True reply counted_vote [OF args(2) _ i(2,3) \<open>Suc p \<le> q\<close>] show ?thesis by simp
  next
    case False
    with tally have "vg' = vg" by (auto simp: electionTally_def Let_def)
    with counted_later [OF args(2)] \<open>Suc p \<le> q\<close> show ?thesis by simp
  qed
  with ext have "routine_ok (nservers s) (cast i rf V) (Polling i args q vc' vg')"
    using i args(1) by (auto intro: counted_mono)
  then show ?thesis
    by (intro election_cast [OF inv i(1) step])
      (auto simp: voteReturns_def rf_def [symmetric] tally q_def setRoutine_def setNode_def
        dest!: in_set_update)
qed

lemma appendReturns_election:
  assumes inv: "election_inv V s" and ij: "i < nservers s" "j < nservers s" "i \<noteq> j"
    and ret: "appendReturns g i j next term args reply s = Some t"
  shows "\<exists>V'. extends V V' \<and> election_inv V' t"
proof -
  from ret obtain rf next' again where
    h: "handleAppendEntriesResponse (nodes s i) reply args j next term = Inr (rf, next', again)"
    and t: "t = setRoutine g (if again then Beating i j next' term else Ended) (setNode i rf s)"
    by (auto simp: appendReturns_def split: sum.splits)
  from handleAppendEntriesResponse_term_step [OF h] have step: "term_step (nodes s i) rf" ..
  show ?thesis
    by (rule election_cast [OF inv ij(1) step])
      (use ij in \<open>auto simp: t setRoutine_def setNode_def dest!: in_set_update\<close>)
qed

lemma election_takePacket:
  "election_inv V s \<Longrightarrow> election_inv V (takePacket p s)"
  by (auto simp: election_inv_def takePacket_def dest: set_remove1_subsetD)

lemma deliver_election:
  assumes inv: "election_inv V s" and p: "p \<in> set (net s)" and d: "deliver p s = Some t"
  shows "\<exists>V'. extends V V' \<and> election_inv V' t"
  using d
proof (cases p)
  case (VoteReq cid d args)
  from election_inv_packet [OF inv p] VoteReq have ok: "d < nservers s" "0 \<le> CandidateId args"
    by auto
  obtain rf reply where rv: "RequestVote (nodes s d) args = (rf, reply)" by fastforce
  with assms(3) VoteReq have
    t: "t = answer p (VoteRep cid d args reply) (setNode d rf s)" by simp
  have step: "term_step (nodes s d) rf"
    using RequestVote_term_step [of "nodes s d" args] rv by simp
  have "packet_ok (nservers s) (cast d rf V) (VoteRep cid d args reply)"
    using RequestVote_granted [of "nodes s d" args] rv ok by (simp add: cast_def)
  then show ?thesis
    by (intro election_cast [OF inv ok(1) step])
      (auto simp: t answer_def setNode_def dest: set_remove1_subsetD)
next
  case (AppReq cid d args)
  from election_inv_packet [OF inv p] AppReq have ok: "d < nservers s" by auto
  from assms(3) AppReq obtain rf reply where ae: "AppendEntries (nodes s d) args = Inr (rf, reply)"
    and t: "t = answer p (AppRep cid d args reply) (setNode d rf s)"
    by (auto split: sum.splits)
  from AppendEntries_cases [OF ae] have step: "term_step (nodes s d) rf" ..
  show ?thesis
    by (rule election_cast [OF inv ok step])
      (auto simp: t answer_def setNode_def dest: set_remove1_subsetD)
qed auto

lemma CommitLog_term_step: "CommitLog rf = Inr rf' \<Longrightarrow> term_step rf rf' \<and> log rf' = log rf"
  by (auto simp: CommitLog_def applyCommits_def applyMessages_spec term_step_def
      split: if_splits sum.splits)

lemma return_election:
  assumes inv: "election_inv V s" and ok: "routine_ok (nservers s) V r"
    and ret: "returnTo g r p s = Some t"
  shows "\<exists>V'. extends V V' \<and> election_inv V' t"
proof -
  have inv': "election_inv V (takePacket p s)" by (rule election_takePacket [OF inv])
  have n: "nservers (takePacket p s) = nservers s" by (simp add: takePacket_def)
  from ret consider
      (vote) i args q vc vg cid reply where "r = AwaitVote i args q vc vg cid"
        "p = VoteRep cid q args reply" "p \<in> set (net s)"
        "t = voteReturns g i args q vc vg reply (takePacket p s)"
    | (append) i j nx tm args cid reply where "r = AwaitAppend i j nx tm args cid"
        "appendReturns g i j nx tm args reply (takePacket p s) = Some t"
    by (cases r; cases p) (auto split: if_splits)
  then show ?thesis
  proof cases
    case vote
    from election_inv_packet [OF inv vote(3)] vote(2)
    have "VoteGranted reply \<longrightarrow> V q (rvTerm args) = CandidateId args" by auto
    with ok vote(1,4) show ?thesis
      using voteReturns_election [OF inv', unfolded n] by auto
  next
    case append
    with ok show ?thesis
      using appendReturns_election [OF inv', unfolded n] by auto
  qed
qed

lemma peer_election:
  assumes inv: "election_inv V s" and i: "i < nservers s" and step: "term_step (nodes s i) rf"
  shows "\<exists>V'. extends V V' \<and> election_inv V' (setNode i rf s)"
  by (rule election_cast [OF inv i step]) (auto simp: setNode_def)

lemma election_step:
  assumes inv: "election_inv V s" and step: "stableStep a s = Some t"
  shows "\<exists>V'. extends V V' \<and> election_inv V' t"
proof -
  from step have st: "sysStep a s = Some t" and nr: "\<not> isRestart a"
    by (auto simp: stableStep_def split: if_splits)
  have same: "\<exists>V'. extends V V' \<and> election_inv V' s"
    using inv extends_refl by blast
  from st show ?thesis
  proof (cases a)
    case (ElectionTick i)
    with st have i: "i < nservers s" and "t = s \<or>
        t = spawn (ElectionSpawned i) (setNode i (resetElectionTimer (nodes s i)) s)"
      by (auto split: if_splits)
    moreover have "term_step (nodes s i) (resetElectionTimer (nodes s i))"
      by (simp add: term_step_same)
    from election_cast [OF inv i this,
        of "spawn (ElectionSpawned i) (setNode i (resetElectionTimer (nodes s i)) s)"] i
    have "\<exists>V'. extends V V' \<and>
        election_inv V' (spawn (ElectionSpawned i) (setNode i (resetElectionTimer (nodes s i)) s))"
      by (auto simp: spawn_def setNode_def)
    ultimately show ?thesis using same by blast
  next
    case (HeartbeatTick i)
    with st show ?thesis
      by (auto simp: resetHeartbeatTimer_def split: if_splits
          intro!: peer_election [OF inv] term_step_same)
  next
    case (HeartbeatSpawn i j)
    with st have ij: "i < nservers s" "j < nservers s"
      and "t = s \<or> (\<exists>k nx tm. requestHeartbeat (nodes s i) j = Inr (Some (k, nx, tm)) \<and>
            t = spawn (Beating i k nx tm) s)"
      by (auto split: if_splits sum.splits option.splits)
    moreover have "routine_ok (nservers s) V (Beating i k nx tm)"
      if "requestHeartbeat (nodes s i) j = Inr (Some (k, nx, tm))" for k nx tm
      using requestHeartbeat_Some [OF that] ij election_inv_node [OF inv ij(1)]
      by (simp add: node_ok_def)
    moreover have "\<exists>V'. extends V V' \<and> election_inv V' (spawn r s)"
      if "routine_ok (nservers s) V r" for r
      by (rule election_frame [OF inv]) (use that in \<open>auto simp: spawn_def\<close>)
    ultimately show ?thesis using same by blast
  next
    case (Run g)
    with st show ?thesis
      by (auto split: if_splits intro: run_election [OF inv election_inv_routine [OF inv]])
  next
    case (Deliver p)
    with st show ?thesis by (auto split: if_splits intro: deliver_election [OF inv])
  next
    case (Return g p)
    with st have g: "g < length (routines s)" and r: "returnTo g (routines s ! g) p s = Some t"
      by (auto split: if_splits)
    from return_election [OF inv election_inv_routine [OF inv g] r] show ?thesis .
  next
    case (CallFails g)
    with st have g: "g < length (routines s)" and r: "failCall g (routines s ! g) s = Some t"
      by (auto split: if_splits)
    note ok = election_inv_routine [OF inv g]
    from r ok show ?thesis
      by (cases "routines s ! g")
        (auto simp: zeroVoteReply_def intro: voteReturns_election [OF inv]
          appendReturns_election [OF inv])
  next
    case (Lose p)
    with st show ?thesis
      by (auto split: if_splits intro!: exI [of _ V] election_takePacket [OF inv])
  next
    case (ClientStart i c)
    with st show ?thesis
      by (auto split: if_splits sum.splits intro!: peer_election [OF inv] dest: Start_term_step)
  next
    case (Apply i)
    with st show ?thesis
      by (auto split: if_splits sum.splits intro!: peer_election [OF inv] dest: CommitLog_term_step)
  next
    case (KillPeer i)
    with st show ?thesis
      by (auto simp: Kill_def split: if_splits intro!: peer_election [OF inv] term_step_same)
  next
    case (Restart i)
    with nr show ?thesis by simp
  qed
qed

lemma election_init: "raftInit s \<Longrightarrow> election_inv (\<lambda>v t. -1) s"
proof -
  assume "raftInit s"
  then obtain n where s: "s = startSystem n" by (auto simp: raftInit_def)
  show ?thesis by (simp add: s startSystem_def election_inv_def node_ok_def)
qed

interpretation election: invariant raftInit stableStep "\<lambda>s. \<exists>V. election_inv V s"
proof unfold_locales
  show "\<exists>V. election_inv V s" if "raftInit s" for s :: "'a system"
    using election_init [OF that] by blast
  show "\<exists>V. election_inv V t" if "\<exists>V. election_inv V s" "stableStep a s = Some t"
    for s t :: "'a system" and a
    using that election_step by blast
qed

lemma leader_elected:
  "election_inv V s \<Longrightarrow> i < nservers s \<Longrightarrow> role (nodes s i) = Leader \<Longrightarrow>
     elected (nservers s) V (currentTerm (nodes s i)) i"
  using election_inv_node by (auto simp: node_ok_def)

text \<open>C1. Election Safety: while no peer crashes, two leaders of the same term are the
  same peer, in every state that any interleaving of goroutines, message deliveries,
  losses and delays can reach.\<close>

theorem election_safety:
  assumes "reachable raftInit stableStep s"
    and "i < nservers s" and "j < nservers s"
    and "role (nodes s i) = Leader" and "role (nodes s j) = Leader"
    and "currentTerm (nodes s i) = currentTerm (nodes s j)"
  shows "i = j"
proof -
  from election.reachable_inv [OF assms(1)] obtain V where inv: "election_inv V s" by blast
  from leader_elected [OF inv] assms(2-5) show ?thesis
    unfolding assms(6) by (metis assms(6) elected_unique)
qed

text \<open>A three-peer cluster in which peer 0 is elected in term 1 with the vote of peer 1.\<close>

definition demoVoteArgs :: RequestVoteArgs where
  "demoVoteArgs = \<lparr>rvTerm = 1, CandidateId = 0, LastLogIndex = 0, LastLogTerm = 0\<rparr>"

definition demoElection :: "nat action list" where
  "demoElection =
     [ElectionTick 0, Run 0, Run 0, Run 0, Deliver (VoteReq 0 1 demoVoteArgs),
      Return 0 (VoteRep 0 1 demoVoteArgs \<lparr>rvrTerm = 0, VoteGranted = True\<rparr>), Run 0]"

lemma startSystem_reachable: "reachable raftInit stableStep (startSystem n)"
  by (rule reach_init) (simp add: raftInit_def startSystem_def)

lemma demoElection_run:
  "case run_actions stableStep demoElection (startSystem 3) of
     None \<Rightarrow> False
   | Some s \<Rightarrow> nservers s = 3 \<and> role (nodes s 0) = Leader \<and> currentTerm (nodes s 0) = 1 \<and>
       role (nodes s 1) = Follower \<and> role (nodes s 2) = Follower"
  by code_simp

theorem election_safety_witness:
  "\<exists>s :: nat system. reachable raftInit stableStep s \<and> nservers s = 3 \<and>
     {j \<in> {..<3}. role (nodes s j) = Leader \<and> currentTerm (nodes s j) = 1} = {0}"
proof -
  obtain s where run: "run_actions stableStep demoElection (startSystem 3) = Some s"
    and s: "nservers s = 3" "role (nodes s 0) = Leader" "currentTerm (nodes s 0) = 1"
    using demoElection_run by (auto split: option.splits)
  have r: "reachable raftInit stableStep s"
    by (rule reachable_run [OF startSystem_reachable run])
  from election_safety [OF r] s
  have "{j \<in> {..<3}. role (nodes s j) = Leader \<and> currentTerm (nodes s j) = 1} = {0}"
    by auto
  with r s show ?thesis by blast
qed

end
