(* ===== verification/RaftSteps.thy ===== *)
theory RaftSteps
  imports RaftElection
begin

text \<open>
  What one action of the cluster does, in two views the invariants share: the peer that
  moves makes one operation of \<open>raft.go\<close> (\<open>peerOp\<close>), and an AppendEntries request
  enters the network only from a goroutine that has just checked that its peer still
  leads. Facts about a single peer are proved once per operation and hold along every
  execution, also across crashes: the order of applied messages and the shape of the
  leader's arrays are of that kind.
\<close>

inductive peerOp :: "'c AppendEntriesArgs set \<Rightarrow> 'c Raft \<Rightarrow> 'c Raft \<Rightarrow> bool"
  for A :: "'c AppendEntriesArgs set" and rf :: "'c Raft"
where
  op_electionTimer: "peerOp A rf (resetElectionTimer rf)"
| op_heartbeatTimer: "peerOp A rf (resetHeartbeatTimer rf)"
| op_kill: "peerOp A rf (Kill rf)"
| op_begin: "electionBegin rf = (rf', vargs) \<Longrightarrow> peerOp A rf rf'"
| op_stepDown: "peerOp A rf (electionStepDown rf vargs vreply)"
| op_end: "electionEnd rf vargs vg = Inr rf' \<Longrightarrow> peerOp A rf rf'"
| op_vote: "RequestVote rf vargs = (rf', vreply) \<Longrightarrow> peerOp A rf rf'"
| op_append: "args \<in> A \<Longrightarrow> AppendEntries rf args = Inr (rf', reply) \<Longrightarrow> peerOp A rf rf'"
| op_response: "handleAppendEntriesResponse rf reply args j nx tm = Inr (rf', nx', again) \<Longrightarrow>
     peerOp A rf rf'"
| op_start: "Start rf c = Inr (rf', index, tm, isLeader) \<Longrightarrow> peerOp A rf rf'"
| op_apply: "CommitLog rf = Inr rf' \<Longrightarrow> peerOp A rf rf'"

definition arriving :: "nat \<Rightarrow> 'c system \<Rightarrow> 'c AppendEntriesArgs set" where
  "arriving i s = {args. \<exists>cid. AppReq cid i args \<in> set (net s)}"

definition peerMoves :: "'c system \<Rightarrow> 'c system \<Rightarrow> bool" where
  "peerMoves s t \<longleftrightarrow>
     nservers t = nservers s \<and>
     (nodes t = nodes s \<or>
      (\<exists>i rf. nodes t = (nodes s)(i := rf) \<and> peerOp (arriving i s) (nodes s i) rf))"

lemma peerMoves_same: "nservers t = nservers s \<Longrightarrow> nodes t = nodes s \<Longrightarrow> peerMoves s t"
  by (simp add: peerMoves_def)

lemma peerMoves_op:
  "nservers t = nservers s \<Longrightarrow> nodes t = (nodes s)(i := rf) \<Longrightarrow>
     peerOp (arriving i s) (nodes s i) rf \<Longrightarrow> peerMoves s t"
  by (auto simp: peerMoves_def)

lemma runRoutine_moves: "runRoutine g r s = Some t \<Longrightarrow> peerMoves s t"
proof (cases r)
  case (ElectionSpawned i)
  assume run: "runRoutine g r s = Some t"
  obtain rf args where b: "electionBegin (nodes s i) = (rf, args)" by fastforce
  with run ElectionSpawned show ?thesis
    by (auto simp: sys_update_defs intro!: peerMoves_op intro: op_begin)
next
  case (Polling i args p vc vg)
  assume "runRoutine g r s = Some t"
  with Polling show ?thesis
    by (auto simp: sys_update_defs split: if_splits sum.splits
        intro: peerMoves_same peerMoves_op op_end)
next
  case (Beating i j nx tm)
  assume "runRoutine g r s = Some t"
  with Beating show ?thesis
    by (auto simp: sys_update_defs split: if_splits sum.splits intro!: peerMoves_same)
qed auto

lemma voteReturns_moves: "peerMoves s (voteReturns g i args p vc vg reply s)"
  by (rule peerMoves_op [OF _ _ op_stepDown])
    (auto simp: voteReturns_def sys_update_defs Let_def split: prod.splits)

lemma appendReturns_moves: "appendReturns g i j nx tm args reply s = Some t \<Longrightarrow> peerMoves s t"
  by (auto simp: appendReturns_def sys_update_defs split: sum.splits
      intro!: peerMoves_op intro: op_response)

lemma peerOp_mono: "peerOp A rf rf' \<Longrightarrow> A \<subseteq> B \<Longrightarrow> peerOp B rf rf'"
proof (induction rule: peerOp.induct)
  case (op_append args rf' reply)
  then show ?case by (blast intro: peerOp.op_append)
qed (auto intro: peerOp.intros)

lemma peerMoves_takePacket: "peerMoves (takePacket p s) t \<Longrightarrow> peerMoves s t"
proof -
  assume m: "peerMoves (takePacket p s) t"
  have "arriving i (takePacket p s) \<subseteq> arriving i s" for i
    by (auto simp: arriving_def takePacket_def dest: set_remove1_subsetD)
  from peerOp_mono [OF _ this] have
    "peerOp (arriving i (takePacket p s)) rf rf' \<Longrightarrow> peerOp (arriving i s) rf rf'" for i rf rf'
    by blast
  moreover have "nservers (takePacket p s) = nservers s" "nodes (takePacket p s) = nodes s"
    by (simp_all add: takePacket_def)
  ultimately show ?thesis using m unfolding peerMoves_def by metis
qed

lemma returnTo_moves: "returnTo g r p s = Some t \<Longrightarrow> peerMoves s t"
  by (cases r; cases p)
    (auto split: if_splits intro: peerMoves_takePacket voteReturns_moves appendReturns_moves)

lemma failCall_moves: "failCall g r s = Some t \<Longrightarrow> peerMoves s t"
  by (cases r) (auto intro: voteReturns_moves appendReturns_moves)

lemma deliver_moves: "deliver p s = Some t \<Longrightarrow> p \<in> set (net s) \<Longrightarrow> peerMoves s t"
proof (cases p)
  case (AppReq cid d args)
  assume d: "deliver p s = Some t" "p \<in> set (net s)"
  with AppReq obtain rf reply where "AppendEntries (nodes s d) args = Inr (rf, reply)"
    and t: "t = answer p (AppRep cid d args reply) (setNode d rf s)"
    by (auto split: sum.splits)
  moreover from d(2) AppReq have "args \<in> arriving d s" by (auto simp: arriving_def)
  ultimately show ?thesis
    by (intro peerMoves_op [OF _ _ op_append]) (auto simp: sys_update_defs)
qed (auto simp: sys_update_defs split: prod.splits intro!: peerMoves_op intro: op_vote)

lemma sysStep_moves:
  assumes "sysStep a s = Some t"
  shows "peerMoves s t \<or>
    (\<exists>i. a = Restart i \<and> i < nservers s \<and> nservers t = nservers s \<and> net t = net s \<and>
      (\<exists>rf. Make (nservers s) i (persister (nodes s i)) = Inr rf \<and> nodes t = (nodes s)(i := rf)))"
proof (cases a)
  case (ElectionTick i)
  with assms have "t = s \<or>
      t = spawn (ElectionSpawned i) (setNode i (resetElectionTimer (nodes s i)) s)"
    by (auto split: if_splits)
  then have "peerMoves s t"
  proof
    assume "t = s"
    then show ?thesis by (simp add: peerMoves_same)
  next
    assume "t = spawn (ElectionSpawned i) (setNode i (resetElectionTimer (nodes s i)) s)"
    then show ?thesis
      by (intro peerMoves_op [OF _ _ op_electionTimer]) (simp_all add: sys_update_defs)
  qed
  then show ?thesis ..
next
  case (HeartbeatTick i)
  with assms have "t = setNode i (resetHeartbeatTimer (nodes s i)) s" by (auto split: if_splits)
  then have "peerMoves s t"
    by (intro peerMoves_op [OF _ _ op_heartbeatTimer]) (simp_all add: setNode_def)
  then show ?thesis ..
next
  case (KillPeer i)
  with assms have "t = setNode i (Kill (nodes s i)) s" by (auto split: if_splits)
  then have "peerMoves s t"
    by (intro peerMoves_op [OF _ _ op_kill]) (simp_all add: setNode_def)
  then show ?thesis ..
next
  case (Restart i)
  with assms show ?thesis by (auto simp: sys_update_defs split: if_splits sum.splits)
next
  case (ClientStart i c)
  with assms show ?thesis
    by (auto simp: sys_update_defs split: if_splits sum.splits
        intro!: peerMoves_op intro: op_start)
next
  case (Apply i)
  with assms show ?thesis
    by (auto simp: sys_update_defs split: if_splits sum.splits
        intro!: peerMoves_op intro: op_apply)
next
  case (Run g)
  with assms show ?thesis by (auto split: if_splits dest: runRoutine_moves)
next
  case (Deliver p)
  with assms show ?thesis by (auto split: if_splits dest: deliver_moves)
next
  case (Return g p)
  with assms show ?thesis by (auto split: if_splits dest: returnTo_moves)
next
  case (CallFails g)
  with assms show ?thesis by (auto split: if_splits dest: failCall_moves)
qed (use assms in \<open>auto simp: sys_update_defs split: if_splits sum.splits option.splits
  intro: peerMoves_same\<close>)

section \<open>One peer, along every execution\<close>

definition dummyEntry :: "'c LogEntry" where
  "dummyEntry = \<lparr>Command = None, Term = 0\<rparr>"

text \<open>What is on disk: nothing yet, or the three values of \<open>persist\<close>.\<close>

definition store_ok :: "'c gobval list \<Rightarrow> bool" where
  "store_ok d \<longleftrightarrow>
     d = [] \<or> (\<exists>t v l. d = [GobInt t, GobInt v, GobLog l] \<and> l \<noteq> [] \<and> hd l = dummyEntry)"

definition peer_inv :: "nat \<Rightarrow> nat \<Rightarrow> 'c Raft \<Rightarrow> bool" where
  "peer_inv n i rf \<longleftrightarrow>
     peers rf = n \<and> me rf = i \<and> apply_ok rf \<and> 0 \<le> commitIndex rf \<and>
     log rf \<noteq> [] \<and> hd (log rf) = dummyEntry \<and> store_ok (ReadRaftState (persister rf)) \<and>
     (role rf = Leader \<longrightarrow> length (nextIndex rf) = n \<and> length (matchIndex rf) = n)"

text \<open>The part of a peer that only \<open>applyCommits\<close> and the log operations change.\<close>

definition saves :: "'c Raft \<Rightarrow> 'c Raft \<Rightarrow> bool" where
  "saves rf rf' \<longleftrightarrow>
     persister rf' = persister rf \<or> ReadRaftState (persister rf') =
       [GobInt (currentTerm rf'), GobInt (votedFor rf'), GobLog (log rf')]"

definition arrays_kept :: "'c Raft \<Rightarrow> 'c Raft \<Rightarrow> bool" where
  "arrays_kept rf rf' \<longleftrightarrow>
     (role rf' = Leader \<longrightarrow>
        role rf = Leader \<and> length (nextIndex rf') = length (nextIndex rf) \<and>
          length (matchIndex rf') = length (matchIndex rf) \<or>
        length (nextIndex rf') = peers rf \<and> length (matchIndex rf') = peers rf)"

definition quiet :: "'c Raft \<Rightarrow> 'c Raft \<Rightarrow> bool" where
  "quiet rf rf' \<longleftrightarrow>
     peers rf' = peers rf \<and> me rf' = me rf \<and> lastApplied rf' = lastApplied rf \<and>
     applyCh rf' = applyCh rf \<and> log rf' = log rf \<and>
     (0 \<le> commitIndex rf \<longrightarrow> 0 \<le> commitIndex rf') \<and> saves rf rf' \<and> arrays_kept rf rf'"

lemma persist_store [simp]:
  "ReadRaftState (persister (persist rf))
     = [GobInt (currentTerm rf), GobInt (votedFor rf), GobLog (log rf)]"
  by (simp add: persist_def Let_def raft_store.load_save)

lemma quiet_inv:
  assumes "quiet rf rf'" and "peer_inv n i rf"
  shows "peer_inv n i rf'"
proof -
  have "store_ok (ReadRaftState (persister rf'))"
    using assms by (auto simp: quiet_def saves_def peer_inv_def store_ok_def)
  moreover have "role rf' = Leader \<longrightarrow> length (nextIndex rf') = n \<and> length (matchIndex rf') = n"
    using assms by (auto simp: quiet_def arrays_kept_def peer_inv_def)
  ultimately show ?thesis
    using assms by (simp add: quiet_def peer_inv_def apply_ok_def)
qed

lemma quiet_refl: "quiet rf rf"
  by (simp add: quiet_def saves_def arrays_kept_def)

lemma saves_trans: "saves a b \<Longrightarrow> saves b c \<Longrightarrow> currentTerm c = currentTerm b \<Longrightarrow>
    votedFor c = votedFor b \<Longrightarrow> log c = log b \<Longrightarrow> saves a c"
  unfolding saves_def by (elim disjE) simp_all

lemma arrays_kept_trans:
  "arrays_kept a b \<Longrightarrow> arrays_kept b c \<Longrightarrow> peers b = peers a \<Longrightarrow> arrays_kept a c"
  unfolding arrays_kept_def by (cases "role c = Leader") (simp, metis, simp)

lemma quiet_trans: "quiet a b \<Longrightarrow> quiet b c \<Longrightarrow> currentTerm c = currentTerm b \<Longrightarrow>
    votedFor c = votedFor b \<Longrightarrow> quiet a c"
  unfolding quiet_def by (metis saves_trans arrays_kept_trans)

lemma quiet_timers:
  "quiet rf (resetElectionTimer rf)" "quiet rf (resetHeartbeatTimer rf)" "quiet rf (Kill rf)"
  by (simp_all add: quiet_def saves_def arrays_kept_def resetElectionTimer_def resetHeartbeatTimer_def Kill_def)

lemma quiet_election:
  "electionBegin rf = (rf', vargs) \<Longrightarrow> quiet rf rf'"
  "quiet rf (electionStepDown rf vargs vreply)"
  "electionEnd rf vargs vg = Inr rf' \<Longrightarrow> quiet rf rf'"
  "RequestVote rf vargs = (rf', vreply) \<Longrightarrow> quiet rf rf'"
  by (auto simp: quiet_def saves_def arrays_kept_def electionBegin_def electionStepDown_def electionEnd_def RequestVote_def
      resetElectionTimer_def Let_def go_simps split: if_splits sum.splits)

lemma updateCommitIndex_quiet:
  assumes "updateCommitIndex rf = Inr rf'"
  shows "quiet rf rf' \<and> currentTerm rf' = currentTerm rf \<and> votedFor rf' = votedFor rf"
proof -
  from commitFrom_spec [of "commitIndex rf + 1" rf False, OF refl] obtain c where
    "commitFrom rf (commitIndex rf + 1) False = (rf\<lparr>commitIndex := c\<rparr>, commitIndex rf < c)"
      "commitIndex rf \<le> c" by auto
  with assms show ?thesis
    by (auto simp: updateCommitIndex_def sendCommit_def quiet_def saves_def arrays_kept_def split: if_splits)
qed

lemma updateSuccessIndexes_quiet:
  "updateSuccessIndexes rf j nx k = Inr rf' \<Longrightarrow> quiet rf rf'"
  by (auto simp: updateSuccessIndexes_def quiet_def saves_def arrays_kept_def go_simps split: sum.splits)

lemma quiet_response:
  assumes "handleAppendEntriesResponse rf reply args j nx tm = Inr (rf', nx', again)"
  shows "quiet rf rf'"
proof -
  have a: "quiet rf1 rf2 \<and> currentTerm rf2 = currentTerm rf1 \<and> votedFor rf2 = votedFor rf1"
    if "attemptCommitLogs rf1 args = Inr rf2" for rf1 rf2
    using that updateCommitIndex_quiet [of rf1 rf2]
    by (auto simp: attemptCommitLogs_def quiet_refl split: if_splits)
  show ?thesis
    using assms
    by (auto simp: handleAppendEntriesResponse_def quiet_refl split: if_splits sum.splits
        dest!: a updateSuccessIndexes_quiet intro: quiet_trans)
      (simp_all add: quiet_def saves_def arrays_kept_def)
qed

text \<open>AppendEntries, which persists its final state whenever it changes the log.\<close>

definition append_keeps :: "'c Raft \<Rightarrow> 'c Raft \<Rightarrow> bool" where
  "append_keeps rf rf' \<longleftrightarrow>
     lastApplied rf' = lastApplied rf \<and> applyCh rf' = applyCh rf \<and>
     (0 \<le> commitIndex rf \<longrightarrow> 0 \<le> commitIndex rf') \<and> peers rf' = peers rf \<and> me rf' = me rf \<and>
     nextIndex rf' = nextIndex rf \<and> matchIndex rf' = matchIndex rf \<and>
     (role rf' = Leader \<longrightarrow> role rf = Leader)"

lemma append_keeps_trans: "append_keeps a b \<Longrightarrow> append_keeps b c \<Longrightarrow> append_keeps a c"
  by (simp add: append_keeps_def)

lemma appendEntriesIfLogMatches_keeps:
  "appendEntriesIfLogMatches rf args reply = Inr (rf', reply', ok) \<Longrightarrow>
     append_keeps rf rf' \<and> persister rf' = persister rf"
  by (auto simp: appendEntriesIfLogMatches_def Let_def append_keeps_def split: if_splits sum.splits)

lemma updateCommitIndexAndNotify_keeps:
  "updateCommitIndexAndNotify rf args = Inr rf' \<Longrightarrow>
     append_keeps rf rf' \<and> ReadRaftState (persister rf') =
       [GobInt (currentTerm rf'), GobInt (votedFor rf'), GobLog (log rf')]"
  by (auto simp: updateCommitIndexAndNotify_def sendCommit_def Let_def append_keeps_def
      split: if_splits sum.splits)

lemma AppendEntries_keeps:
  assumes "AppendEntries rf args = Inr (rf', reply)"
  shows "append_keeps rf rf' \<and>
    (persister rf' = persister rf \<and> log rf' = log rf \<or> ReadRaftState (persister rf') =
       [GobInt (currentTerm rf'), GobInt (votedFor rf'), GobLog (log rf')])"
proof -
  define rf2 where "rf2 = resetElectionTimer (updateLastLogInfo rf)"
  obtain rf3 reply3 ok where c: "checkTermWithLeader rf2 args
      (snd (initializeAppendEntriesResponse (updateLastLogInfo rf))) = (rf3, reply3, ok)"
    by (metis prod_cases3)
  define rf4 where "rf4 = updateLastLogInfo rf3"
  obtain reply4 cons where l: "lookConsistency rf4 args reply3 = (reply4, cons)"
    by fastforce
  have r3: "append_keeps rf rf3" "persister rf3 = persister rf" "log rf3 = log rf"
    using c by (auto simp: rf2_def append_keeps_def checkTermWithLeader_def becomeFollower_def
        resetElectionTimer_def split: if_splits)
  then have r4: "append_keeps rf rf4" "persister rf4 = persister rf" "log rf4 = log rf"
    by (simp_all add: rf4_def append_keeps_def)
  note eq = assms [unfolded AppendEntries_def initializeAppendEntriesResponse_def Let_def
      prod.case, folded rf2_def]
  show ?thesis
  proof (cases "ok \<and> cons")
    case False
    with eq c l r3 r4 show ?thesis
      by (auto simp: initializeAppendEntriesResponse_def rf4_def split: if_splits)
  next
    case True
    with eq c l obtain rf5 reply5 app where
      a: "appendEntriesIfLogMatches rf4 args reply4 = Inr (rf5, reply5, app)"
      and rest: "(if app then (case updateCommitIndexAndNotify rf5 args of
          Inl e \<Rightarrow> Inl e | Inr rf6 \<Rightarrow> Inr (rf6, reply5)) else Inr (rf5, reply5))
        = (Inr (rf', reply) :: ('a Raft \<times> AppendEntriesReply) go)"
      by (auto simp: initializeAppendEntriesResponse_def rf4_def split: sum.splits)
    from appendEntriesIfLogMatches_keeps [OF a] r4
    have r5: "append_keeps rf rf5" "persister rf5 = persister rf"
      by (auto intro: append_keeps_trans)
    show ?thesis
    proof (cases app)
      case False
      with rest r5 r4 appendEntriesIfLogMatches_cases [OF a] show ?thesis by simp
    next
      case True
      with rest have "updateCommitIndexAndNotify rf5 args = Inr rf'"
        by (auto split: sum.splits)
      from updateCommitIndexAndNotify_keeps [OF this] r5 show ?thesis
        by (auto intro: append_keeps_trans)
    qed
  qed
qed

lemma AppendEntries_head:
  assumes "AppendEntries rf args = Inr (rf', reply)" and "log rf \<noteq> []"
  shows "log rf' \<noteq> [] \<and> hd (log rf') = hd (log rf)"
proof -
  from AppendEntries_cases [OF assms(1)] consider "log rf' = log rf"
    | "0 \<le> PrevLogIndex args" "log rf' = take (nat (PrevLogIndex args + 1)) (log rf) @ Entries args"
    by blast
  then show ?thesis using assms(2)
    by cases (auto simp: hd_append)
qed

lemma peer_inv_append:
  assumes "AppendEntries rf args = Inr (rf', reply)" and "peer_inv n i rf"
  shows "peer_inv n i rf'"
proof -
  from AppendEntries_keeps [OF assms(1)] AppendEntries_head [OF assms(1)] assms(2)
  have "store_ok (ReadRaftState (persister rf'))" "log rf' \<noteq> []" "hd (log rf') = dummyEntry"
    by (auto simp: peer_inv_def store_ok_def)
  then show ?thesis
    using AppendEntries_keeps [OF assms(1)] assms(2)
    by (auto simp: peer_inv_def append_keeps_def apply_ok_def)
qed

lemma peer_inv_start:
  "Start rf c = Inr (rf', index, tm, isLeader) \<Longrightarrow> peer_inv n i rf \<Longrightarrow> peer_inv n i rf'"
  by (auto simp: Start_def Let_def peer_inv_def go_simps store_ok_def apply_ok_def
      split: if_splits sum.splits)

lemma peer_inv_apply:
  assumes "CommitLog rf = Inr rf'" and "peer_inv n i rf"
  shows "peer_inv n i rf'"
proof -
  let ?rf = "rf\<lparr>Commit := Commit rf - 1\<rparr>"
  from assms(1) have a: "applyCommits ?rf = Inr rf'" by (auto simp: CommitLog_def split: if_splits)
  from assms(2) have ok: "apply_ok ?rf" by (simp add: peer_inv_def apply_ok_def)
  from applyCommits_apply_ok [OF ok a] have "apply_ok rf'" by simp
  moreover from a have "persister rf' = persister rf" "role rf' = role rf" "peers rf' = peers rf"
    "me rf' = me rf" "log rf' = log rf" "nextIndex rf' = nextIndex rf"
    "matchIndex rf' = matchIndex rf" "commitIndex rf' = commitIndex rf"
    by (auto simp: applyCommits_def applyMessages_spec split: if_splits sum.splits)
  ultimately show ?thesis using assms(2) by (simp add: peer_inv_def)
qed

lemma peer_inv_op: "peerOp A rf rf' \<Longrightarrow> peer_inv n i rf \<Longrightarrow> peer_inv n i rf'"
proof (induction rule: peerOp.induct)
  case (op_append args rf' reply)
  then show ?case by (blast intro: peer_inv_append)
next
  case (op_response reply args j nx tm rf' nx' again)
  then show ?case by (blast intro: quiet_inv quiet_response)
next
  case (op_start c rf' index tm isLeader)
  then show ?case by (blast intro: peer_inv_start)
next
  case (op_apply rf')
  then show ?case by (blast intro: peer_inv_apply)
qed (auto intro: quiet_inv quiet_timers quiet_election)

text \<open>A restart finds what it can decode.\<close>

lemma Make_store:
  assumes "store_ok (ReadRaftState ps)"
  shows "\<exists>rf. Make n i ps = Inr rf \<and> peer_inv n i rf \<and> applyCh rf = [] \<and>
    (ReadRaftState ps \<noteq> [] \<longrightarrow>
       ReadRaftState ps = [GobInt (currentTerm rf), GobInt (votedFor rf), GobLog (log rf)])"
  using assms
  by (auto simp: Make_def readPersist_def store_ok_def peer_inv_def apply_ok_def dummyEntry_def)

definition peers_inv :: "'c system \<Rightarrow> bool" where
  "peers_inv s \<longleftrightarrow> (\<forall>i < nservers s. peer_inv (nservers s) i (nodes s i))"

lemma peer_inv_fresh: "peer_inv n i (freshNode n i)"
proof -
  have "store_ok (ReadRaftState (MakePersister :: 'a gobval Persister))"
    by (simp add: store_ok_def persister_defs)
  from Make_store [OF this, of n i] obtain rf :: "'a Raft" where
    "Make n i MakePersister = Inr rf" "peer_inv n i rf" by blast
  then show ?thesis by (simp add: freshNode_def)
qed

interpretation peer: invariant raftInit sysStep peers_inv
proof unfold_locales
  show "peers_inv s" if "raftInit s" for s :: "'a system"
    using that peer_inv_fresh
    by (metis peers_inv_def raftInit_def startSystem_def system.select_convs(2))
  show "peers_inv t" if inv: "peers_inv s" and step: "sysStep a s = Some t"
    for s t :: "'a system" and a
    using sysStep_moves [OF step]
  proof
    assume "peerMoves s t"
    then have n: "nservers t = nservers s"
      and "nodes t = nodes s \<or>
        (\<exists>i rf. nodes t = (nodes s)(i := rf) \<and> peerOp (arriving i s) (nodes s i) rf)"
      by (auto simp: peerMoves_def)
    from this(2) show ?thesis
    proof
      assume "nodes t = nodes s"
      with inv n show ?thesis by (simp add: peers_inv_def)
    next
      assume "\<exists>i rf. nodes t = (nodes s)(i := rf) \<and> peerOp (arriving i s) (nodes s i) rf"
      then obtain i rf where "nodes t = (nodes s)(i := rf)" "peerOp (arriving i s) (nodes s i) rf"
        by blast
      with inv n peer_inv_op [OF this(2)] show ?thesis by (simp add: peers_inv_def)
    qed
  next
    assume "\<exists>i. a = Restart i \<and> i < nservers s \<and> nservers t = nservers s \<and> net t = net s \<and>
      (\<exists>rf. Make (nservers s) i (persister (nodes s i)) = Inr rf \<and> nodes t = (nodes s)(i := rf))"
    then obtain i rf where "i < nservers s" "nservers t = nservers s"
      "Make (nservers s) i (persister (nodes s i)) = Inr rf" "nodes t = (nodes s)(i := rf)"
      by blast
    moreover from this inv Make_store [of "persister (nodes s i)" "nservers s" i]
    have "peer_inv (nservers s) i rf" by (auto simp: peers_inv_def peer_inv_def)
    ultimately show ?thesis using inv by (simp add: peers_inv_def)
  qed
qed

section \<open>Where AppendEntries requests come from\<close>

definition sentNow :: "'c system \<Rightarrow> nat \<Rightarrow> 'c AppendEntriesArgs \<Rightarrow> bool" where
  "sentNow s d args \<longleftrightarrow>
     (\<exists>i nx. Beating i d nx (aeTerm args) \<in> set (routines s) \<and> role (nodes s i) = Leader \<and>
        currentTerm (nodes s i) = aeTerm args \<and>
        initiateAppendEntries (nodes s i) nx = Inr args)"

lemma run_net:
  assumes "runRoutine g r s = Some t" and "r \<in> set (routines s)"
    and "AppReq cid d args \<in> set (net t)"
  shows "AppReq cid d args \<in> set (net s) \<or> sentNow s d args \<and> nodes t = nodes s"
proof (cases r)
  case (Beating i j nx tm)
  show ?thesis
  proof (cases "killed (nodes s i) \<or> \<not> heartbeatGo (nodes s i) tm")
    case True
    with assms Beating show ?thesis by (auto simp: sys_update_defs)
  next
    case False
    with assms(1) Beating obtain ar where a: "initiateAppendEntries (nodes s i) nx = Inr ar"
      and t: "t = sendCall (AppReq (calls s) j ar)
                    (setRoutine g (AwaitAppend i j nx tm ar (calls s)) s)"
      by (auto split: sum.splits)
    from False initiateAppendEntries_Inr [OF a]
    have "role (nodes s i) = Leader" "currentTerm (nodes s i) = tm" "aeTerm ar = tm"
      by (auto simp: heartbeatGo_iff)
    with a assms(2,3) Beating t show ?thesis
      by (auto simp: sys_update_defs sentNow_def)
  qed
qed (use assms in \<open>auto simp: sys_update_defs split: if_splits sum.splits prod.splits\<close>)

lemma voteReturns_net [simp]: "net (voteReturns g i args p vc vg reply s) = net s"
  by (simp add: voteReturns_def sys_update_defs Let_def split: prod.splits)

lemma appendReturns_net: "appendReturns g i j nx tm args reply s = Some t \<Longrightarrow> net t = net s"
  by (auto simp: appendReturns_def sys_update_defs split: sum.splits)

lemma returnTo_net: "returnTo g r p s = Some t \<Longrightarrow> set (net t) \<subseteq> set (net s)"
  by (cases r; cases p)
    (auto simp: takePacket_def split: if_splits dest!: appendReturns_net dest: set_remove1_subsetD)

lemma failCall_net: "failCall g r s = Some t \<Longrightarrow> net t = net s"
  by (cases r) (auto dest: appendReturns_net)

lemma deliver_net:
  "deliver p s = Some t \<Longrightarrow> AppReq cid d args \<in> set (net t) \<Longrightarrow> AppReq cid d args \<in> set (net s)"
  by (cases p) (auto simp: sys_update_defs split: prod.splits sum.splits dest: set_remove1_subsetD)

lemma sysStep_net:
  assumes "sysStep a s = Some t" and new: "AppReq cid d args \<in> set (net t)"
  shows "AppReq cid d args \<in> set (net s) \<or> sentNow s d args \<and> nodes t = nodes s"
proof (cases a)
  case (Run g)
  with assms show ?thesis
    by (metis (no_types, lifting) nth_mem option.distinct(1) run_net sysStep.simps(4))
next
  case (Deliver p)
  with assms show ?thesis by (auto split: if_splits dest: deliver_net)
next
  case (Return g p)
  with assms show ?thesis by (auto split: if_splits dest!: returnTo_net)
next
  case (CallFails g)
  with assms show ?thesis by (auto split: if_splits dest: failCall_net)
next
  case (Lose p)
  with assms show ?thesis by (auto simp: takePacket_def split: if_splits dest: set_remove1_subsetD)
qed (use assms in \<open>auto simp: sys_update_defs split: if_splits sum.splits option.splits\<close>)

definition requests_ok :: "'c system \<Rightarrow> bool" where
  "requests_ok s \<longleftrightarrow>
     (\<forall>p \<in> set (net s). case p of AppReq cid d args \<Rightarrow> 0 \<le> PrevLogIndex args | _ \<Rightarrow> True)"

lemma requests_okD: "requests_ok s \<Longrightarrow> AppReq cid d args \<in> set (net s) \<Longrightarrow> 0 \<le> PrevLogIndex args"
  by (auto simp: requests_ok_def)

interpretation requests: invariant raftInit sysStep requests_ok
proof unfold_locales
  show "requests_ok s" if "raftInit s" for s :: "'a system"
  proof -
    from that have "net s = []" by (metis raftInit_def startSystem_def system.select_convs(4))
    then show ?thesis by (simp add: requests_ok_def)
  qed
  show "requests_ok t" if ok: "requests_ok s" and step: "sysStep a s = Some t"
    for s t :: "'a system" and a
  proof -
    have "0 \<le> PrevLogIndex args" if "AppReq cid d args \<in> set (net t)" for cid d args
      using sysStep_net [OF step that] requests_okD [OF ok]
      by (auto simp: sentNow_def dest: initiateAppendEntries_Inr)
    then show ?thesis by (auto simp: requests_ok_def split: packet.splits)
  qed
qed

lemma startSystem_reachable_sys: "reachable raftInit sysStep (startSystem n)"
  by (rule reach_init) (simp add: raftInit_def startSystem_def)

lemma reachable_peer:
  "reachable raftInit sysStep s \<Longrightarrow> i < nservers s \<Longrightarrow> peer_inv (nservers s) i (nodes s i)"
  using peer.reachable_inv by (auto simp: peers_inv_def)

section \<open>Properties of one peer in any execution, crashes included\<close>

text \<open>C8. A peer hands its committed entries to the service in order and without a gap:
  along every execution, crashes included, the indices it has put on \<open>applyCh\<close> since it
  was made are 1, 2, ... up to \<open>lastApplied\<close>.\<close>

theorem applied_in_order:
  assumes "reachable raftInit sysStep s" and "i < nservers s"
  shows "map CommandIndex (applyCh (nodes s i)) = [1..lastApplied (nodes s i)]"
  using reachable_peer [OF assms] by (simp add: peer_inv_def apply_ok_def)


text \<open>\<open>Start\<close> never panics, on any peer in any reachable state. A leader appends the
  command at the index it returns and persists it; any other peer changes nothing.\<close>

theorem start_returns:
  assumes "reachable raftInit sysStep s" and "i < nservers s"
  shows "\<exists>rf. Start (nodes s i) c =
      Inr (rf, slen (log (nodes s i)), currentTerm (nodes s i), role (nodes s i) = Leader) \<and>
    (role (nodes s i) \<noteq> Leader \<longrightarrow> rf = nodes s i) \<and>
    (role (nodes s i) = Leader \<longrightarrow>
       log rf = log (nodes s i) @ [\<lparr>Command = c, Term = currentTerm (nodes s i)\<rparr>] \<and>
       ReadRaftState (persister rf) =
         [GobInt (currentTerm rf), GobInt (votedFor rf), GobLog (log rf)])"
  using reachable_peer [OF assms] assms(2)
  by (auto simp: peer_inv_def Start_def Let_def go_simps go_update_def slen_def split: sum.splits)

text \<open>The handler of AppendEntries never panics on a request that is in the network,
  in any reachable state: it returns, or it waits for room in the \<open>Commit\<close> channel,
  which then holds its 100 signals.\<close>

theorem append_handler_safe:
  assumes "reachable raftInit sysStep s" and "AppReq cid d args \<in> set (net s)"
    and "d < nservers s"
  shows "case AppendEntries (nodes s d) args of
      Inl f \<Rightarrow> f = Blocks \<and> 100 \<le> Commit (nodes s d)
    | Inr (rf, reply) \<Rightarrow> log rf \<noteq> [] \<and> currentTerm (nodes s d) \<le> currentTerm rf"
proof -
  have p: "0 \<le> PrevLogIndex args"
    using requests.reachable_inv [OF assms(1)] assms(2) by (rule requests_okD)
  note inv = reachable_peer [OF assms(1,3)]
  show ?thesis
  proof (cases "AppendEntries (nodes s d) args")
    case (Inl f)
    with AppendEntries_faults_only_blocked [OF Inl] inv p show ?thesis
      by (simp add: peer_inv_def)
  next
    case (Inr r)
    obtain rf reply where r: "r = (rf, reply)" by fastforce
    from AppendEntries_head [OF Inr [unfolded r]] AppendEntries_cases [OF Inr [unfolded r]] inv
    have "log rf \<noteq> []" "currentTerm (nodes s d) \<le> currentTerm rf"
      by (auto simp: peer_inv_def term_step_def)
    with Inr r show ?thesis by simp
  qed
qed

text \<open>
  A run for the witnesses: peer 0, elected in term 1, takes the command 7, replicates it
  to peer 1, commits and applies it; peer 1 has a second request waiting.
\<close>

definition demoEntries :: "nat LogEntry list" where
  "demoEntries = [\<lparr>Command = Some 7, Term = 1\<rparr>]"

definition demoAppend :: "nat AppendEntriesArgs" where
  "demoAppend = \<lparr>aeTerm = 1, LeaderID = 0, PrevLogIndex = 0, PrevLogTerm = 0,
     Entries = demoEntries, LeaderCommit = 0\<rparr>"

definition demoAppendReply :: AppendEntriesReply where
  "demoAppendReply = \<lparr>aerTerm = 1, Success = True, NewTerm = 0, NewIndex = 0\<rparr>"

definition demoAppend2 :: "nat AppendEntriesArgs" where
  "demoAppend2 = \<lparr>aeTerm = 1, LeaderID = 0, PrevLogIndex = 1, PrevLogTerm = 1,
     Entries = [], LeaderCommit = 1\<rparr>"

definition demoReplication :: "nat action list" where
  "demoReplication = demoElection @
     [ClientStart 0 (Some 7), HeartbeatSpawn 0 1, Run 1, Deliver (AppReq 1 1 demoAppend),
      Return 1 (AppRep 1 1 demoAppend demoAppendReply), Apply 0, HeartbeatSpawn 0 1, Run 2]"

lemma demoReplication_run:
  "case run_actions stableStep demoReplication (startSystem 3) of
     None \<Rightarrow> False
   | Some s \<Rightarrow> nservers s = 3 \<and> role (nodes s 0) = Leader \<and> lastApplied (nodes s 0) = 1 \<and>
       slen (log (nodes s 0)) = 2 \<and> currentTerm (nodes s 0) = 1 \<and>
       length (log (nodes s 1)) = 2 \<and> log (nodes s 0) = log (nodes s 1) \<and> 
       Term (log (nodes s 1) ! 1) = 1 \<and> commitIndex (nodes s 0) = 1 \<and>
       AppReq 2 1 demoAppend2 \<in> set (net s)"
  by code_simp

lemma stable_reachable: "reachable raftInit stableStep s \<Longrightarrow> reachable raftInit sysStep s"
  by (induction rule: reachable.induct)
    (auto simp: stableStep_def split: if_splits intro: reach_init reach_step)

lemma demoReplication_state:
  obtains s where "reachable raftInit stableStep s" "reachable raftInit sysStep s"
    "nservers s = 3" "role (nodes s 0) = Leader" "lastApplied (nodes s 0) = 1"
    "slen (log (nodes s 0)) = 2" "currentTerm (nodes s 0) = 1"
    "length (log (nodes s 1)) = 2" "log (nodes s 0) = log (nodes s 1)"
    "Term (log (nodes s 1) ! 1) = 1" "commitIndex (nodes s 0) = 1"
    "AppReq 2 1 demoAppend2 \<in> set (net s)"
proof -
  obtain s where run: "run_actions stableStep demoReplication (startSystem 3) = Some s"
    and s: "nservers s = 3" "role (nodes s 0) = Leader" "lastApplied (nodes s 0) = 1"
    "slen (log (nodes s 0)) = 2" "currentTerm (nodes s 0) = 1"
    "length (log (nodes s 1)) = 2" "log (nodes s 0) = log (nodes s 1)"
    "Term (log (nodes s 1) ! 1) = 1" "commitIndex (nodes s 0) = 1"
    "AppReq 2 1 demoAppend2 \<in> set (net s)"
    using demoReplication_run by (auto split: option.splits)
  from reachable_run [OF startSystem_reachable run] have r: "reachable raftInit stableStep s" .
  show thesis by (rule that [OF r stable_reachable [OF r] s])
qed

theorem applied_in_order_witness:
  "\<exists>s :: nat system. reachable raftInit sysStep s \<and>
     map CommandIndex (applyCh (nodes s 0)) = [1]"
proof -
  obtain s :: "nat system" where s: "reachable raftInit sysStep s" "nservers s = 3" "lastApplied (nodes s 0) = 1"
    by (rule demoReplication_state) blast
  with applied_in_order [OF s(1), of 0] show ?thesis by auto
qed


theorem start_returns_witness:
  "\<exists>(s :: nat system) rf. reachable raftInit sysStep s \<and>
     Start (nodes s 0) (Some 8) = Inr (rf, 2, 1, True)"
proof -
  obtain s :: "nat system" where s: "reachable raftInit sysStep s" "nservers s = 3" "role (nodes s 0) = Leader"
    "slen (log (nodes s 0)) = 2" "currentTerm (nodes s 0) = 1"
    by (rule demoReplication_state) blast
  with start_returns [OF s(1), of 0 "Some 8"] show ?thesis by auto
qed

theorem append_handler_safe_witness:
  "\<exists>s :: nat system. reachable raftInit sysStep s \<and>
     (case AppendEntries (nodes s 1) demoAppend2 of
        Inl f \<Rightarrow> f = Blocks | Inr (rf, reply) \<Rightarrow> log rf \<noteq> [])"
proof -
  obtain s :: "nat system" where s: "reachable raftInit sysStep s" "nservers s = 3"
    "AppReq 2 1 demoAppend2 \<in> set (net s)"
    by (rule demoReplication_state) blast
  with append_handler_safe [OF s(1,3)] have
    "case AppendEntries (nodes s 1) demoAppend2 of
        Inl f \<Rightarrow> f = Blocks | Inr (rf, reply) \<Rightarrow> log rf \<noteq> []"
    by (auto split: sum.splits)
  with s(1) show ?thesis by blast
qed

end
