(* ===== verification/RaftLog.thy ===== *)
theory RaftLog
  imports RaftSteps
begin

text \<open>
  Log Matching of a cluster whose peers do not crash. Every term has at most one leader
  (Election Safety), so there is one log \<open>H t\<close> that the leader of term \<open>t\<close> has built,
  which only grows. A log is \<open>goodlog\<close> when each of its prefixes that ends in an entry of
  term \<open>t\<close> is a prefix of \<open>H t\<close>; a request carries a slice of a good log, so a follower
  that accepts it ends up with that good log.
\<close>

type_synonym 'c history = "int \<Rightarrow> 'c LogEntry list"

definition goodlog :: "'c history \<Rightarrow> 'c LogEntry list \<Rightarrow> bool" where
  "goodlog H L \<longleftrightarrow> (\<forall>k < length L. take (Suc k) L = take (Suc k) (H (Term (L ! k))))"

text \<open>The dummy entry, then terms that never decrease and stay below a bound.\<close>

definition wflog :: "int \<Rightarrow> 'c LogEntry list \<Rightarrow> bool" where
  "wflog T L \<longleftrightarrow>
     L \<noteq> [] \<and> hd L = dummyEntry \<and> sorted (map Term L) \<and> (\<forall>e \<in> set L. Term e \<le> T)"

definition grows :: "'c history \<Rightarrow> 'c history \<Rightarrow> bool" where
  "grows H H' \<longleftrightarrow> (\<forall>t. \<exists>xs. H' t = H t @ xs)"

definition request_ok :: "'c history \<Rightarrow> 'c AppendEntriesArgs \<Rightarrow> bool" where
  "request_ok H args \<longleftrightarrow>
     (\<exists>L. goodlog H L \<and> wflog (aeTerm args) L \<and>
        0 \<le> PrevLogIndex args \<and> PrevLogIndex args < slen L \<and>
        PrevLogTerm args = Term (L ! nat (PrevLogIndex args)) \<and>
        Entries args = drop (nat (PrevLogIndex args + 1)) L)"

definition held :: "ledger \<Rightarrow> 'c history \<Rightarrow> 'c system \<Rightarrow> int \<Rightarrow> bool" where
  "held V H s t \<longleftrightarrow>
     (\<exists>i < nservers s. elected (nservers s) V t i \<and>
        (t < currentTerm (nodes s i) \<or>
         t = currentTerm (nodes s i) \<and> role (nodes s i) = Leader \<and> log (nodes s i) = H t))"

definition log_inv :: "ledger \<Rightarrow> 'c history \<Rightarrow> 'c system \<Rightarrow> bool" where
  "log_inv V H s \<longleftrightarrow>
     (\<forall>i < nservers s. goodlog H (log (nodes s i)) \<and>
        wflog (currentTerm (nodes s i)) (log (nodes s i))) \<and>
     (\<forall>d. \<forall>args \<in> arriving d s. request_ok H args) \<and>
     (\<forall>t. t \<noteq> 0 \<longrightarrow> H t \<noteq> [] \<longrightarrow> held V H s t)"

section \<open>Histories\<close>

lemma grows_refl [simp]: "grows H H"
  by (simp add: grows_def)

lemma goodlog_mono: "goodlog H L \<Longrightarrow> grows H H' \<Longrightarrow> goodlog H' L"
  unfolding goodlog_def
proof (intro allI impI)
  fix k assume g: "\<forall>k<length L. take (Suc k) L = take (Suc k) (H (Term (L ! k)))"
    and "grows H H'" and k: "k < length L"
  then obtain xs where xs: "H' (Term (L ! k)) = H (Term (L ! k)) @ xs"
    by (auto simp: grows_def)
  from g k have eq: "take (Suc k) L = take (Suc k) (H (Term (L ! k)))" by blast
  from take_Suc_eq_imp_nth [OF eq k] have "Suc k \<le> length (H (Term (L ! k)))" by simp
  with eq xs show "take (Suc k) L = take (Suc k) (H' (Term (L ! k)))" by simp
qed

lemma request_ok_mono: "request_ok H args \<Longrightarrow> grows H H' \<Longrightarrow> request_ok H' args"
  unfolding request_ok_def by (blast intro: goodlog_mono)

lemma wflog_mono: "wflog T L \<Longrightarrow> T \<le> T' \<Longrightarrow> wflog T' L"
  by (auto simp: wflog_def)

lemma goodlog_match:
  assumes "goodlog H L" and "goodlog H M" and "k < length L" and "k < length M"
    and "Term (L ! k) = Term (M ! k)"
  shows "take (Suc k) L = take (Suc k) M"
  using assms unfolding goodlog_def by metis

text \<open>A follower that accepts a request ends up with the log it was cut from.\<close>

lemma accept_request:
  assumes "goodlog H lg" and "request_ok H args"
    and "0 \<le> PrevLogIndex args" and "PrevLogIndex args < slen lg"
    and "Term (lg ! nat (PrevLogIndex args)) = PrevLogTerm args"
    and "lg' = take (nat (PrevLogIndex args + 1)) lg @ Entries args"
  shows "goodlog H lg' \<and> wflog (aeTerm args) lg'"
proof -
  from assms(2) obtain L where L: "goodlog H L" "wflog (aeTerm args) L"
      "PrevLogIndex args < slen L" "PrevLogTerm args = Term (L ! nat (PrevLogIndex args))"
      "Entries args = drop (nat (PrevLogIndex args + 1)) L"
    by (auto simp: request_ok_def)
  define k where "k = nat (PrevLogIndex args)"
  have k: "nat (PrevLogIndex args + 1) = Suc k" using assms(3) by (simp add: k_def)
  have "k < length lg" "k < length L"
    using assms(3,4) L(3) by (auto simp: k_def nat_less_length_iff)
  with goodlog_match [OF assms(1) L(1)] assms(5) L(4)
  have "take (Suc k) lg = take (Suc k) L" by (simp add: k_def)
  with assms(6) L(5) k have "lg' = L" by simp
  with L show ?thesis by simp
qed

lemma held_mono: "held V H s t \<Longrightarrow> extends V V' \<Longrightarrow> held V' H s t"
  unfolding held_def by (metis elected_mono)

section \<open>A peer moves without touching its log\<close>

definition log_step :: "'c Raft \<Rightarrow> 'c Raft \<Rightarrow> bool" where
  "log_step rf rf' \<longleftrightarrow>
     currentTerm rf < currentTerm rf' \<or>
     currentTerm rf' = currentTerm rf \<and>
       (role rf = Leader \<longrightarrow> role rf' = Leader \<and> log rf' = log rf)"

lemma log_node:
  assumes "log_inv V H s" and "extends V V'" and "nservers t = nservers s"
    and "nodes t = (nodes s)(i := rf)" and "log_step (nodes s i) rf"
    and "goodlog H (log rf)" and "wflog (currentTerm rf) (log rf)"
    and "\<forall>d. arriving d t \<subseteq> arriving d s"
  shows "log_inv V' H t"
  unfolding log_inv_def
proof (intro conjI allI impI ballI)
  show "goodlog H (log (nodes t j))" "wflog (currentTerm (nodes t j)) (log (nodes t j))"
    if "j < nservers t" for j
    using assms that by (auto simp: log_inv_def)
  show "request_ok H args" if "args \<in> arriving d t" for d args
    using assms(1,8) that unfolding log_inv_def by blast
  show "held V' H t u" if u: "u \<noteq> 0" "H u \<noteq> []" for u
  proof -
    from assms(1) u have "held V H s u" by (simp add: log_inv_def)
    then obtain j where j: "j < nservers s" "elected (nservers s) V u j"
      "u < currentTerm (nodes s j) \<or>
         u = currentTerm (nodes s j) \<and> role (nodes s j) = Leader \<and> log (nodes s j) = H u"
      by (auto simp: held_def)
    have "u < currentTerm (nodes t j) \<or>
         u = currentTerm (nodes t j) \<and> role (nodes t j) = Leader \<and> log (nodes t j) = H u"
    proof (cases "j = i")
      case True
      with j(3) assms(4,5) show ?thesis by (auto simp: log_step_def)
    next
      case False
      with j(3) assms(4) show ?thesis by simp
    qed
    with j assms(2,3) show ?thesis unfolding held_def by (metis elected_mono)
  qed
qed

lemma log_same:
  assumes "log_inv V H s" and "extends V V'" and "nservers t = nservers s"
    and "\<forall>j < nservers s. nodes t j = nodes s j"
    and "\<forall>d. \<forall>args \<in> arriving d t. request_ok H args"
  shows "log_inv V' H t"
proof -
  have "held V' H t u" if "held V H s u" for u
    using held_mono [OF that assms(2)] assms(3,4) unfolding held_def by metis
  with assms(1,3,4,5) show ?thesis by (simp add: log_inv_def)
qed

lemma term_step_log_step: "term_step rf rf' \<Longrightarrow> log rf' = log rf \<Longrightarrow> log_step rf rf'"
  by (auto simp: term_step_def log_step_def)

lemma term_step_le: "term_step rf rf' \<Longrightarrow> currentTerm rf \<le> currentTerm rf'"
  by (auto simp: term_step_def)

text \<open>Every operation but AppendEntries and Start leaves the log alone.\<close>

lemma peerOp_log:
  assumes "peerOp A rf rf'"
  obtains (quiet) "log_step rf rf'" "log rf' = log rf" "currentTerm rf \<le> currentTerm rf'"
  | (append) args reply where "args \<in> A" "AppendEntries rf args = Inr (rf', reply)"
  | (start) c index tm isLeader where "Start rf c = Inr (rf', index, tm, isLeader)"
      "role rf = Leader"
  using assms
proof (cases rule: peerOp.cases)
  case op_electionTimer
  then show ?thesis by (intro quiet) (simp_all add: log_step_def)
next
  case op_heartbeatTimer
  then show ?thesis by (intro quiet) (simp_all add: log_step_def resetHeartbeatTimer_def)
next
  case op_kill
  then show ?thesis by (intro quiet) (simp_all add: log_step_def Kill_def)
next
  case (op_begin vargs)
  from electionBegin_args [OF op_begin] show ?thesis by (intro quiet) (simp_all add: log_step_def)
next
  case (op_stepDown vargs vreply)
  with electionStepDown_term_step show ?thesis
    by (metis electionStepDown_log quiet term_step_le term_step_log_step)
next
  case (op_end vargs vg)
  from op_end show ?thesis
  proof (cases rule: electionEnd_cases)
    case 1
    then show ?thesis by (intro quiet term_step_log_step) (auto dest: term_step_le)
  next
    case 2
    then show ?thesis by (intro quiet) (simp_all add: log_step_def)
  qed
next
  case (op_vote vargs vreply)
  with RequestVote_term_step [of rf vargs] RequestVote_log [of rf vargs] show ?thesis
    by (intro quiet term_step_log_step) (auto dest: term_step_le)
next
  case (op_response reply args j nx tm nx' again)
  from handleAppendEntriesResponse_term_step [OF this] show ?thesis
    by (intro quiet term_step_log_step) (auto dest: term_step_le)
next
  case (op_start c index tm isLeader)
  show ?thesis
  proof (cases "role rf = Leader")
    case False
    with op_start have "rf' = rf" by (auto simp: Start_def Let_def)
    then show ?thesis by (intro quiet) (simp_all add: log_step_def)
  qed (use op_start start in blast)
next
  case op_apply
  from CommitLog_term_step [OF this] show ?thesis
    by (intro quiet term_step_log_step) (auto dest: term_step_le)
qed (use append in blast)

section \<open>Every action keeps the invariant\<close>

lemma sent_request_ok:
  assumes inv: "election_inv V s" and linv: "log_inv V H s" and sent: "sentNow s d args"
  shows "request_ok H args"
proof -
  from sent obtain i nx where i: "Beating i d nx (aeTerm args) \<in> set (routines s)"
    "currentTerm (nodes s i) = aeTerm args" "initiateAppendEntries (nodes s i) nx = Inr args"
    by (auto simp: sentNow_def)
  from inv i(1) have "i < nservers s" by (auto simp: election_inv_def)
  with linv i(2) have "goodlog H (log (nodes s i))" "wflog (aeTerm args) (log (nodes s i))"
    unfolding log_inv_def by (blast, metis)
  with initiateAppendEntries_Inr [OF i(3)] show ?thesis
    unfolding request_ok_def by blast
qed

text \<open>The peer that receives a request of its own term does not lead that term.\<close>

lemma request_not_to_leader:
  assumes inv: "election_inv V s" and d: "d < nservers s" and args: "args \<in> arriving d s"
    and "aeTerm args = currentTerm (nodes s d)"
  shows "role (nodes s d) \<noteq> Leader"
proof
  assume "role (nodes s d) = Leader"
  with leader_elected [OF inv d] assms(4) have l: "elected (nservers s) V (aeTerm args) d" by simp
  from args obtain cid where "AppReq cid d args \<in> set (net s)" by (auto simp: arriving_def)
  from election_inv_packet [OF inv this] obtain i where
    "i \<noteq> d" "elected (nservers s) V (aeTerm args) i" by auto
  with l elected_unique show False by blast
qed

definition extendHistory :: "int \<Rightarrow> 'c LogEntry list \<Rightarrow> 'c history \<Rightarrow> 'c history" where
  "extendHistory t L H = H(t := L)"

lemma start_history:
  assumes good: "goodlog H lg" and own: "H t \<noteq> [] \<longrightarrow> H t = lg"
    and lg'_def: "lg' = lg @ [\<lparr>Command = c, Term = t\<rparr>]"
  shows "grows H (extendHistory t lg' H) \<and> goodlog (extendHistory t lg' H) lg'"
proof
  show g: "grows H (extendHistory t lg' H)"
    using own by (auto simp: grows_def extendHistory_def lg'_def)
  show "goodlog (extendHistory t lg' H) lg'"
    unfolding goodlog_def
  proof (intro allI impI)
    fix k assume "k < length lg'"
    then consider "k < length lg" | "k = length lg" by (auto simp: lg'_def less_Suc_eq)
    then show "take (Suc k) lg' = take (Suc k) (extendHistory t lg' H (Term (lg' ! k)))"
    proof cases
      case 1
      then have n: "lg' ! k = lg ! k" and tk: "take (Suc k) lg' = take (Suc k) lg"
        by (simp_all add: lg'_def nth_append)
      from goodlog_mono [OF good g] 1 n tk show ?thesis by (simp add: goodlog_def)
    next
      case 2
      then show ?thesis by (simp add: lg'_def extendHistory_def)
    qed
  qed
qed

lemma log_step_start:
  assumes inv: "election_inv V s" and linv: "log_inv V H s" and i: "i < nservers s"
    and lead: "role (nodes s i) = Leader"
    and st: "Start (nodes s i) c = Inr (rf, index, tm, isLeader)"
    and ext: "extends V V'" and n: "nservers t = nservers s"
    and nodes: "nodes t = (nodes s)(i := rf)" and arr: "\<forall>d. arriving d t \<subseteq> arriving d s"
  shows "\<exists>H'. grows H H' \<and> log_inv V' H' t"
proof -
  define T where "T = currentTerm (nodes s i)"
  define lg where "lg = log (nodes s i)"
  define lg' where "lg' = lg @ [\<lparr>Command = c, Term = T\<rparr>]"
  define H' where "H' = extendHistory T lg' H"
  from leader_elected [OF inv i lead] have el: "elected (nservers s) V T i" by (simp add: T_def)
  from inv have "0 < T" by (intro elected_term_pos [OF el]) (simp add: election_inv_def)
  from Start_log [OF st] lead have log': "log rf = lg'" by (simp add: lg'_def lg_def T_def)
  from Start_term_step [OF st] st lead have tr: "currentTerm rf = T" "role rf = Leader"
    by (auto simp: Start_def Let_def T_def split: sum.splits)
  have own: "H T \<noteq> [] \<longrightarrow> H T = lg"
  proof
    assume "H T \<noteq> []"
    with linv \<open>0 < T\<close> have "held V H s T" by (simp add: log_inv_def)
    then obtain j where j: "elected (nservers s) V T j"
      "T < currentTerm (nodes s j) \<or> log (nodes s j) = H T"
      by (auto simp: held_def)
    with elected_unique [OF el] have "j = i" by blast
    with j(2) show "H T = lg" by (simp add: T_def lg_def)
  qed
  from linv i have "goodlog H lg" "wflog T lg" by (simp_all add: log_inv_def lg_def T_def)
  with start_history [OF this(1) own lg'_def]
  have g: "grows H H'" "goodlog H' lg'" by (simp_all add: H'_def)
  have wf: "wflog T lg'"
    using \<open>wflog T lg\<close> by (auto simp: wflog_def lg'_def sorted_append)
  have "log_inv V' H' t"
    unfolding log_inv_def
  proof (intro conjI allI impI ballI)
    show "goodlog H' (log (nodes t j))" if "j < nservers t" for j
      using g linv that n nodes log' by (auto simp: log_inv_def intro: goodlog_mono)
    show "wflog (currentTerm (nodes t j)) (log (nodes t j))" if "j < nservers t" for j
      using linv that n nodes log' tr wf by (auto simp: log_inv_def)
    show "request_ok H' args" if "args \<in> arriving d t" for d args
      using that arr linv g(1) unfolding log_inv_def by (blast intro: request_ok_mono)
    show "held V' H' t u" if u: "u \<noteq> 0" "H' u \<noteq> []" for u
    proof (cases "u = T")
      case True
      with el ext i n nodes tr log' show ?thesis
        unfolding held_def by (intro exI [of _ i])
          (simp add: H'_def extendHistory_def elected_mono)
    next
      case False
      with u linv have "held V H s u" by (simp add: log_inv_def H'_def extendHistory_def)
      then obtain j where j: "j < nservers s" "elected (nservers s) V u j"
        "u < currentTerm (nodes s j) \<or>
           u = currentTerm (nodes s j) \<and> role (nodes s j) = Leader \<and> log (nodes s j) = H u"
        by (auto simp: held_def)
      with False tr(1) have "u < currentTerm (nodes t j) \<or>
           u = currentTerm (nodes t j) \<and> role (nodes t j) = Leader \<and> log (nodes t j) = H' u"
        by (auto simp: nodes T_def H'_def extendHistory_def)
      with j n ext show ?thesis unfolding held_def by (metis elected_mono)
    qed
  qed
  with g(1) show ?thesis by blast
qed

lemma log_step_append:
  assumes inv: "election_inv V s" and linv: "log_inv V H s" and i: "i < nservers s"
    and args: "args \<in> arriving i s" and ae: "AppendEntries (nodes s i) args = Inr (rf, reply)"
  shows "log_step (nodes s i) rf \<and> goodlog H (log rf) \<and> wflog (currentTerm rf) (log rf)"
proof -
  from linv i have lg: "goodlog H (log (nodes s i))"
      "wflog (currentTerm (nodes s i)) (log (nodes s i))"
    by (simp_all add: log_inv_def)
  from linv args have rq: "request_ok H args" by (auto simp: log_inv_def)
  from AppendEntries_cases [OF ae] have ts: "term_step (nodes s i) rf" by blast
  from AppendEntries_cases [OF ae] consider (same) "log rf = log (nodes s i)"
    | (new) "currentTerm (nodes s i) \<le> aeTerm args" "currentTerm rf = aeTerm args"
      "0 \<le> PrevLogIndex args" "PrevLogIndex args < slen (log (nodes s i))"
      "Term (log (nodes s i) ! nat (PrevLogIndex args)) = PrevLogTerm args"
      "log rf = take (nat (PrevLogIndex args + 1)) (log (nodes s i)) @ Entries args"
    by blast
  then show ?thesis
  proof cases
    case same
    with lg term_step_log_step [OF ts same] wflog_mono [OF lg(2) term_step_le [OF ts]]
    show ?thesis by simp
  next
    case new
    from accept_request [OF lg(1) rq new(3-6)] new(2) have
      "goodlog H (log rf)" "wflog (currentTerm rf) (log rf)" by simp_all
    moreover have "log_step (nodes s i) rf"
      using new(1,2) request_not_to_leader [OF inv i args] by (auto simp: log_step_def)
    ultimately show ?thesis by simp
  qed
qed

lemma log_inv_step:
  assumes inv: "election_inv V s" and linv: "log_inv V H s" and ext: "extends V V'"
    and step: "stableStep a s = Some t"
  shows "\<exists>H'. grows H H' \<and> log_inv V' H' t"
proof -
  from step have st: "sysStep a s = Some t" and nr: "\<not> isRestart a"
    by (auto simp: stableStep_def split: if_splits)
  from sysStep_moves [OF st] nr have "peerMoves s t" by auto
  then have n: "nservers t = nservers s" by (simp add: peerMoves_def)
  have new: "args \<in> arriving d s \<or> sentNow s d args \<and> nodes t = nodes s"
    if "args \<in> arriving d t" for d args
    using that sysStep_net [OF st] by (auto simp: arriving_def)
  have req: "\<forall>d. \<forall>args \<in> arriving d t. request_ok H args"
    using new sent_request_ok [OF inv linv] linv unfolding log_inv_def by blast
  show ?thesis
  proof (cases "\<forall>j < nservers s. nodes t j = nodes s j")
    case True
    from log_same [OF linv ext n True req] show ?thesis using grows_refl by blast
  next
    case False
    then have "nodes t \<noteq> nodes s" by auto
    with \<open>peerMoves s t\<close> obtain i rf where m: "nodes t = (nodes s)(i := rf)"
      "peerOp (arriving i s) (nodes s i) rf"
      by (auto simp: peerMoves_def)
    with False have i: "i < nservers s" by (metis fun_upd_other)
    have arr: "\<forall>d. arriving d t \<subseteq> arriving d s"
      using new \<open>nodes t \<noteq> nodes s\<close> by blast
    from m(2) show ?thesis
    proof (cases rule: peerOp_log)
      case quiet
      with linv i have "goodlog H (log rf)" "wflog (currentTerm rf) (log rf)"
        by (auto simp: log_inv_def intro: wflog_mono)
      from log_node [OF linv ext n m(1) quiet(1) this arr] show ?thesis
        using grows_refl by blast
    next
      case (append args reply)
      from log_step_append [OF inv linv i append]
      show ?thesis
        using log_node [OF linv ext n m(1) _ _ _ arr] grows_refl by blast
    next
      case (start c index tm isLeader)
      show ?thesis by (rule log_step_start [OF inv linv i start(2,1) ext n m(1) arr])
    qed
  qed
qed

definition initialHistory :: "'c history" where
  "initialHistory t = (if t = 0 then [dummyEntry] else [])"

lemma log_inv_init: "raftInit s \<Longrightarrow> log_inv V initialHistory s"
proof -
  assume "raftInit s"
  then obtain n where s: "s = startSystem n" by (auto simp: raftInit_def)
  show ?thesis
    by (simp add: s log_inv_def startSystem_def goodlog_def wflog_def arriving_def dummyEntry_def
        initialHistory_def)
qed

interpretation raft_log: invariant raftInit stableStep
  "\<lambda>s. \<exists>V H. election_inv V s \<and> log_inv V H s"
proof unfold_locales
  show "\<exists>V H. election_inv V s \<and> log_inv V H s" if "raftInit s" for s :: "'a system"
    using election_init [OF that] log_inv_init [OF that] by blast
  show "\<exists>V H. election_inv V t \<and> log_inv V H t"
    if inv: "\<exists>V H. election_inv V s \<and> log_inv V H s" and st: "stableStep a s = Some t"
    for s t :: "'a system" and a
  proof -
    from inv obtain V H where vh: "election_inv V s" "log_inv V H s" by blast
    from election_step [OF vh(1) st] obtain V' where v: "extends V V'" "election_inv V' t" by blast
    from log_inv_step [OF vh v(1) st] v(2) show ?thesis by blast
  qed
qed



text \<open>While no peer crashes, a log starts with the dummy entry, its terms never
  decrease, and none exceeds the current term of the peer.\<close>

theorem log_terms_sorted:
  assumes "reachable raftInit stableStep s" and "i < nservers s"
  shows "hd (log (nodes s i)) = \<lparr>Command = None, Term = 0\<rparr> \<and>
    sorted (map Term (log (nodes s i))) \<and>
    Term (last (log (nodes s i))) \<le> currentTerm (nodes s i)"
proof -
  from raft_log.reachable_inv [OF assms(1)] obtain V H where "log_inv V H s" by blast
  with assms(2) have "wflog (currentTerm (nodes s i)) (log (nodes s i))"
    by (auto simp: log_inv_def)
  then show ?thesis by (auto simp: wflog_def dummyEntry_def)
qed

theorem log_terms_sorted_witness:
  "\<exists>s :: nat system. reachable raftInit stableStep s \<and> length (log (nodes s 0)) = 2 \<and>
     sorted (map Term (log (nodes s 0)))"
proof -
  obtain s :: "nat system" where s: "reachable raftInit stableStep s" "nservers s = 3"
    "log (nodes s 0) = log (nodes s 1)" "length (log (nodes s 1)) = 2"
    by (rule demoReplication_state) blast
  with log_terms_sorted [OF s(1), of 0] show ?thesis by auto
qed

end
