(* ===== verification/RaftFaults.thy ===== *)
theory RaftFaults
  imports RaftLog
begin

text \<open>
  Executions in which the code loses what Raft promises. Election Safety and Log Matching
  hold while no peer crashes; the agreement of the applied commands does not, because
  \<open>appendEntriesIfLogMatches\<close> truncates the log of a follower at whatever an old, delayed
  heartbeat names. With crashes Election Safety goes too, because \<open>election\<close> does not
  persist the new term and the vote. Each execution is a list of actions that the kernel
  runs.
\<close>

section \<open>A delayed heartbeat\<close>

definition lateHeartbeat :: "nat AppendEntriesArgs" where
  "lateHeartbeat = \<lparr>aeTerm = 1, LeaderID = 0, PrevLogIndex = 0, PrevLogTerm = 0, Entries = [],
     LeaderCommit = 0\<rparr>"

definition voteArgs2 :: RequestVoteArgs where
  "voteArgs2 = \<lparr>rvTerm = 2, CandidateId = 2, LastLogIndex = 0, LastLogTerm = 0\<rparr>"

definition append8 :: "nat AppendEntriesArgs" where
  "append8 = \<lparr>aeTerm = 2, LeaderID = 2, PrevLogIndex = 0, PrevLogTerm = 0,
     Entries = [\<lparr>Command = Some 8, Term = 2\<rparr>], LeaderCommit = 0\<rparr>"

text \<open>Peer 0 leads term 1, sends a heartbeat that is delayed, then commits and applies 7.\<close>

definition commit7 :: "nat action list" where
  "commit7 = demoElection @
     [HeartbeatSpawn 0 1, Run 1, ClientStart 0 (Some 7),
      HeartbeatSpawn 0 1, Run 2, Deliver (AppReq 2 1 demoAppend),
      Return 2 (AppRep 2 1 demoAppend demoAppendReply), Apply 0]"

text \<open>The heartbeat arrives, and peer 2 is elected in term 2, commits and applies 8.\<close>

definition commit8 :: "nat action list" where
  "commit8 = commit7 @
     [Deliver (AppReq 1 1 lateHeartbeat), ElectionTick 2, Run 3, ElectionTick 2, Run 4,
      Run 4, CallFails 4, Run 4, Deliver (VoteReq 4 1 voteArgs2),
      Return 4 (VoteRep 4 1 voteArgs2 \<lparr>rvrTerm = 1, VoteGranted = True\<rparr>), Run 4,
      ClientStart 2 (Some 8), HeartbeatSpawn 2 1, Run 5, Deliver (AppReq 5 1 append8),
      Return 5 (AppRep 5 1 append8 \<lparr>aerTerm = 2, Success = True, NewTerm = 0, NewIndex = 0\<rparr>),
      Apply 2]"

lemma commit8_run:
  "case run_actions stableStep commit8 (startSystem 3) of
     None \<Rightarrow> False
   | Some s \<Rightarrow>
       applyCh (nodes s 0) = [\<lparr>CommandValid = True, MsgCommand = Some 7, CommandIndex = 1\<rparr>] \<and>
       applyCh (nodes s 2) = [\<lparr>CommandValid = True, MsgCommand = Some 8, CommandIndex = 1\<rparr>]"
  by code_simp

text \<open>C7. State Machine Safety does not hold, even while no peer crashes and every message
  is merely delayed: two peers apply different commands at the same index. An old empty
  heartbeat makes a follower drop an entry that was already committed with its vote, and
  the next leader is elected without it.\<close>

theorem state_machine_safety_fails:
  "\<exists>s :: nat system. reachable raftInit stableStep s \<and>
     (\<exists>m \<in> set (applyCh (nodes s 0)). \<exists>m' \<in> set (applyCh (nodes s 2)).
        CommandIndex m = CommandIndex m' \<and> MsgCommand m \<noteq> MsgCommand m')"
proof -
  obtain s where run: "run_actions stableStep commit8 (startSystem 3) = Some s"
    and "applyCh (nodes s 0) = [\<lparr>CommandValid = True, MsgCommand = Some 7, CommandIndex = 1\<rparr>]"
    and "applyCh (nodes s 2) = [\<lparr>CommandValid = True, MsgCommand = Some 8, CommandIndex = 1\<rparr>]"
    using commit8_run by (auto split: option.splits)
  with reachable_run [OF startSystem_reachable run] show ?thesis
    by (intro exI [of _ s]) simp
qed

definition applyPastLog :: "nat action list" where
  "applyPastLog = commit7 @
     [HeartbeatSpawn 0 1, Run 3, Deliver (AppReq 3 1 demoAppend2),
      Deliver (AppReq 1 1 lateHeartbeat)]"

lemma applyPastLog_run:
  "case run_actions stableStep applyPastLog (startSystem 3) of
     None \<Rightarrow> False
   | Some s \<Rightarrow> commitIndex (nodes s 1) = 1 \<and> slen (log (nodes s 1)) = 1 \<and>
       CommitLog (nodes s 1) = Inl IndexOutOfRange"
  by code_simp

text \<open>A peer can crash on its own: a delayed heartbeat can leave the commit index past
  the end of the log, and the goroutine that applies committed entries then indexes the
  log out of range.\<close>

theorem apply_panics:
  "\<exists>s :: nat system. reachable raftInit stableStep s \<and>
     slen (log (nodes s 1)) \<le> commitIndex (nodes s 1) \<and>
     CommitLog (nodes s 1) = Inl IndexOutOfRange"
proof -
  obtain s where run: "run_actions stableStep applyPastLog (startSystem 3) = Some s"
    and "commitIndex (nodes s 1) = 1" "slen (log (nodes s 1)) = 1"
      "CommitLog (nodes s 1) = Inl IndexOutOfRange"
    using applyPastLog_run by (auto split: option.splits)
  with reachable_run [OF startSystem_reachable run] show ?thesis
    by (intro exI [of _ s]) simp
qed

section \<open>A crash between the vote and the disk\<close>

definition voteArgs1 :: RequestVoteArgs where
  "voteArgs1 = \<lparr>rvTerm = 1, CandidateId = 2, LastLogIndex = 0, LastLogTerm = 0\<rparr>"

definition append7from2 :: "nat AppendEntriesArgs" where
  "append7from2 = \<lparr>aeTerm = 1, LeaderID = 2, PrevLogIndex = 0, PrevLogTerm = 0,
     Entries = demoEntries, LeaderCommit = 0\<rparr>"

text \<open>Peer 0 leads term 1 and sends a heartbeat to peer 2.\<close>

definition leader0 :: "nat action list" where
  "leader0 = demoElection @ [HeartbeatSpawn 0 2, Run 1]"

text \<open>Peer 0 restarts with an empty disk and votes for peer 2 in term 1 as well.\<close>

definition leader2 :: "nat action list" where
  "leader2 =
     [Restart 0, ElectionTick 2, Run 2, Run 2, Deliver (VoteReq 2 0 voteArgs1),
      Return 2 (VoteRep 2 0 voteArgs1 \<lparr>rvrTerm = 0, VoteGranted = True\<rparr>), Run 2]"

definition diverge :: "nat action list" where
  "diverge = leader2 @
     [ClientStart 2 (Some 7), HeartbeatSpawn 2 0, Run 3, Deliver (AppReq 3 0 append7from2),
      Deliver (AppReq 1 2 lateHeartbeat), ClientStart 2 (Some 8)]"

lemma leader0_run:
  "case run_actions sysStep leader0 (startSystem 3) of
     None \<Rightarrow> False
   | Some s \<Rightarrow> role (nodes s 0) = Leader \<and> currentTerm (nodes s 0) = 1 \<and>
      (case run_actions sysStep leader2 s of
         None \<Rightarrow> False
       | Some t \<Rightarrow> role (nodes t 2) = Leader \<and> currentTerm (nodes t 2) = 1)"
  by code_simp

lemma diverge_run:
  "case run_actions sysStep (leader0 @ diverge) (startSystem 3) of
     None \<Rightarrow> False
   | Some s \<Rightarrow> log (nodes s 0) = [\<lparr>Command = None, Term = 0\<rparr>, \<lparr>Command = Some 7, Term = 1\<rparr>] \<and>
       log (nodes s 2) = [\<lparr>Command = None, Term = 0\<rparr>, \<lparr>Command = Some 8, Term = 1\<rparr>]"
  by code_simp

text \<open>With crashes, one term can have two leaders, one after the other: \<open>election\<close>
  raises the term and votes for itself without \<open>persist\<close>, so a leader that crashes
  forgets its vote and elects another peer in the same term.\<close>

theorem two_leaders_of_a_term:
  "\<exists>(s :: nat system) as t. reachable raftInit sysStep s \<and> run_actions sysStep as s = Some t \<and>
     role (nodes s 0) = Leader \<and> role (nodes t 2) = Leader \<and>
     currentTerm (nodes s 0) = currentTerm (nodes t 2)"
proof -
  obtain s where run: "run_actions sysStep leader0 (startSystem 3) = Some s"
    and s: "role (nodes s 0) = Leader" "currentTerm (nodes s 0) = 1"
      "case run_actions sysStep leader2 s of None \<Rightarrow> False
       | Some t \<Rightarrow> role (nodes t 2) = Leader \<and> currentTerm (nodes t 2) = 1"
    using leader0_run by (auto split: option.splits)
  then obtain t where t: "run_actions sysStep leader2 s = Some t"
      "role (nodes t 2) = Leader" "currentTerm (nodes t 2) = 1"
    by (auto split: option.splits)
  from reachable_run [OF startSystem_reachable_sys run] have r: "reachable raftInit sysStep s" .
  from s(1,2) t(2,3) have "currentTerm (nodes s 0) = currentTerm (nodes t 2)" by simp
  with r t(1,2) s(1) show ?thesis by blast
qed

text \<open>With crashes, Log Matching fails as well: two logs hold different entries of the
  same term at the same index.\<close>

theorem log_matching_fails_after_crash:
  "\<exists>s :: nat system. reachable raftInit sysStep s \<and>
     length (log (nodes s 0)) = 2 \<and> length (log (nodes s 2)) = 2 \<and>
     Term (log (nodes s 0) ! 1) = Term (log (nodes s 2) ! 1) \<and>
     Command (log (nodes s 0) ! 1) \<noteq> Command (log (nodes s 2) ! 1)"
proof -
  obtain s where run: "run_actions sysStep (leader0 @ diverge) (startSystem 3) = Some s"
    and "log (nodes s 0) = [\<lparr>Command = None, Term = 0\<rparr>, \<lparr>Command = Some 7, Term = 1\<rparr>]"
    and "log (nodes s 2) = [\<lparr>Command = None, Term = 0\<rparr>, \<lparr>Command = Some 8, Term = 1\<rparr>]"
    using diverge_run by (auto split: option.splits)
  with reachable_run [OF startSystem_reachable_sys run] show ?thesis
    by (intro exI [of _ s]) simp
qed

section \<open>Votes that are refused\<close>

text \<open>A follower that has not voted in its current term refuses every candidate of
  that term, although it could vote: the last branch of \<open>RequestVote\<close>'s second case
  falls out of the switch. Only the candidate it already voted for is granted again.\<close>

theorem same_term_vote:
  assumes "rvTerm args = currentTerm rf"
  shows "RequestVote rf args =
    (rf, \<lparr>rvrTerm = currentTerm rf,
          VoteGranted = (role rf \<noteq> Leader \<and> votedFor rf = CandidateId args)\<rparr>)"
  using assms by (auto simp: RequestVote_def Let_def)

theorem same_term_vote_witness:
  "RequestVote (electionStepDown (freshNode 3 1 :: nat Raft) demoVoteArgs
       \<lparr>rvrTerm = 2, VoteGranted = False\<rparr>) voteArgs2
     = (electionStepDown (freshNode 3 1) demoVoteArgs \<lparr>rvrTerm = 2, VoteGranted = False\<rparr>,
        \<lparr>rvrTerm = 2, VoteGranted = False\<rparr>)"
proof -
  let ?rf = "electionStepDown (freshNode 3 1 :: nat Raft) demoVoteArgs
       \<lparr>rvrTerm = 2, VoteGranted = False\<rparr>"
  have "rvTerm voteArgs2 = currentTerm ?rf" "votedFor ?rf = -1"
    by (simp_all add: voteArgs2_def electionStepDown_def demoVoteArgs_def)
  from same_term_vote [OF this(1)] this show ?thesis
    by (simp add: voteArgs2_def)
qed

end
