(* ===== verification/Labrpc.thy ===== *)
theory Labrpc
  imports Prelude "HOL-Library.Word"
begin

text \<open>
  labrpc/labrpc.go: the simulated network under Raft and the lock service. A server is an
  object with an address, since the code compares pointers to find out whether the server a
  call was sent to is still the one under its name. Arguments and replies are values: labgob
  copies them. A \<open>Call\<close> is a record of how far \<open>processReq\<close> has come; delays are steps that
  have not happened yet, and losses are steps that an unreliable network may make. A reply
  is sent some time after the last check of the server, long after it when replies are
  reordered. The
  field \<open>executed\<close> records which calls have run their handler, with the result.
\<close>

section \<open>Data\<close>

record ('e, 'a) reqMsg =
  endname :: 'e
  svcMeth :: string
  args :: 'a

text \<open>
  Names are of type \<open>interface{}\<close>, where an \<open>int\<close> is never equal to an \<open>int64\<close>. The testers name
  servers by both; the type of end names is a parameter.
\<close>

datatype serverName = IntName int | Int64Name int | StrName string

record 'r replyMsg =
  ok :: bool
  reply :: "'r option"

text \<open>
  A receiver is a pointer, and a method runs on the heap, of type \<open>'s\<close>, in which it may fault.
\<close>

type_synonym ('s, 'a, 'r) rpc = "nat \<Rightarrow> 'a \<Rightarrow> 's \<Rightarrow> ('s \<times> 'r) go"

text \<open>What reflection tells about a method of a receiver.\<close>

record ('s, 'a, 'r) reflected =
  Name :: string
  PkgPath :: string
  NumIn :: int
  In2Ptr :: bool
  NumOut :: int
  Func :: "('s, 'a, 'r) rpc"

record ('s, 'a, 'r) Service =
  svcName :: string
  rcvr :: nat
  methods :: "string \<Rightarrow> ('s, 'a, 'r) rpc option"

record ('s, 'a, 'r) Server =
  services :: "string \<Rightarrow> ('s, 'a, 'r) Service option"
  incoming :: int

record ('e, 's, 'a, 'r) Network =
  reliable :: bool
  longDelays :: bool
  longReordering :: bool
  ends :: "'e set"
  enabled :: "'e \<Rightarrow> bool"
  servers :: "serverName \<Rightarrow> nat option"
  connections :: "'e \<Rightarrow> serverName option"
  netClosed :: bool
  serving :: bool
  rpcCount :: "32 word"
  byteCount :: "64 word"
  objects :: "nat \<Rightarrow> ('s, 'a, 'r) Server"

section \<open>Services and servers\<close>

fun suitable :: "('s, 'a, 'r) reflected \<Rightarrow> bool" where
  "suitable m = (\<not> (PkgPath m \<noteq> '''' \<or> NumIn m \<noteq> 3 \<or> \<not> In2Ptr m \<or> NumOut m \<noteq> 0))"

fun addMethods :: "('s, 'a, 'r) reflected list \<Rightarrow> (string \<Rightarrow> ('s, 'a, 'r) rpc option)
  \<Rightarrow> (string \<Rightarrow> ('s, 'a, 'r) rpc option)" where
  "addMethods [] ms = ms"
| "addMethods (m # rest) ms = addMethods rest (if suitable m then ms(Name m \<mapsto> Func m) else ms)"

definition MakeService :: "string \<Rightarrow> nat \<Rightarrow> ('s, 'a, 'r) reflected list \<Rightarrow> ('s, 'a, 'r) Service" where
  "MakeService name obj found = \<lparr>svcName = name, rcvr = obj, methods = addMethods found (\<lambda>n. None)\<rparr>"

definition MakeServer :: "('s, 'a, 'r) Server" where
  "MakeServer = \<lparr>services = (\<lambda>n. None), incoming = 0\<rparr>"

definition AddService :: "('s, 'a, 'r) Service \<Rightarrow> ('s, 'a, 'r) Server \<Rightarrow> ('s, 'a, 'r) Server" where
  "AddService svc rs = rs\<lparr>services := (services rs)(svcName svc \<mapsto> svc)\<rparr>"

definition GetCount :: "('s, 'a, 'r) Server \<Rightarrow> int" where
  "GetCount rs = incoming rs"

text \<open>\<open>strings.LastIndex(s, ".")\<close>.\<close>

fun lastDot :: "string \<Rightarrow> int \<Rightarrow> int \<Rightarrow> int" where
  "lastDot [] i found = found"
| "lastDot (c # s) i found = lastDot s (i + 1) (if c = CHR ''.'' then i else found)"

definition splitMethod :: "string \<Rightarrow> (string \<times> string) go" where
  "splitMethod s =
     (let dot = lastDot s 0 (-1) in
      if dot < 0 then Inl IndexOutOfRange
      else Inr (take (nat dot) s, drop (nat dot + 1) s))"

definition Service_dispatch ::
  "string \<Rightarrow> 'a \<Rightarrow> ('s, 'a, 'r) Service \<Rightarrow> 's \<Rightarrow> ('s \<times> 'r) go" where
  "Service_dispatch methname x svc h =
     (case methods svc methname of
        Some f \<Rightarrow> f (rcvr svc) x h
      | None \<Rightarrow> Inl (Fatal ''unknown method''))"

definition Server_dispatch ::
  "('e, 'a) reqMsg \<Rightarrow> ('s, 'a, 'r) Server \<Rightarrow> 's \<Rightarrow> (('s, 'a, 'r) Server \<times> 's \<times> 'r replyMsg) go" where
  "Server_dispatch req rs0 h =
     (let rs = rs0\<lparr>incoming := incoming rs0 + 1\<rparr> in
      case splitMethod (svcMeth req) of
        Inl e \<Rightarrow> Inl e
      | Inr (serviceName, methodName) \<Rightarrow>
         (case services rs serviceName of
            None \<Rightarrow> Inl (Fatal ''unknown service'')
          | Some svc \<Rightarrow>
             (case Service_dispatch methodName (args req) svc h of
                Inl e \<Rightarrow> Inl e
              | Inr (h', r) \<Rightarrow> Inr (rs, h', \<lparr>ok = True, reply = Some r\<rparr>))))"

section \<open>The network's configuration\<close>

definition MakeNetwork :: "(nat \<Rightarrow> ('s, 'a, 'r) Server) \<Rightarrow> ('e, 's, 'a, 'r) Network" where
  "MakeNetwork objs =
     \<lparr>reliable = True, longDelays = False, longReordering = False, ends = {},
      enabled = (\<lambda>e. False), servers = (\<lambda>n. None), connections = (\<lambda>e. None),
      netClosed = False, serving = True, rpcCount = 0, byteCount = 0, objects = objs\<rparr>"

definition Cleanup :: "('e, 's, 'a, 'r) Network \<Rightarrow> ('e, 's, 'a, 'r) Network go" where
  "Cleanup rn =
     (if netClosed rn then Inl (ExplicitPanic ''close of closed channel'')
      else Inr (rn\<lparr>netClosed := True\<rparr>))"

definition Reliable :: "bool \<Rightarrow> ('e, 's, 'a, 'r) Network \<Rightarrow> ('e, 's, 'a, 'r) Network" where
  "Reliable yes rn = rn\<lparr>reliable := yes\<rparr>"

definition LongReordering :: "bool \<Rightarrow> ('e, 's, 'a, 'r) Network \<Rightarrow> ('e, 's, 'a, 'r) Network" where
  "LongReordering yes rn = rn\<lparr>longReordering := yes\<rparr>"

definition LongDelays :: "bool \<Rightarrow> ('e, 's, 'a, 'r) Network \<Rightarrow> ('e, 's, 'a, 'r) Network" where
  "LongDelays yes rn = rn\<lparr>longDelays := yes\<rparr>"

definition MakeEnd :: "'e \<Rightarrow> ('e, 's, 'a, 'r) Network \<Rightarrow> ('e, 's, 'a, 'r) Network go" where
  "MakeEnd e rn =
     (if e \<in> ends rn then Inl (Fatal ''MakeEnd: already exists'')
      else Inr (rn\<lparr>ends := insert e (ends rn), enabled := (enabled rn)(e := False),
                  connections := (connections rn)(e := None)\<rparr>))"

definition AddServer :: "serverName \<Rightarrow> nat \<Rightarrow> ('e, 's, 'a, 'r) Network \<Rightarrow> ('e, 's, 'a, 'r) Network" where
  "AddServer name addr rn = rn\<lparr>servers := (servers rn)(name := Some addr)\<rparr>"

definition DeleteServer :: "serverName \<Rightarrow> ('e, 's, 'a, 'r) Network \<Rightarrow> ('e, 's, 'a, 'r) Network" where
  "DeleteServer name rn = rn\<lparr>servers := (servers rn)(name := None)\<rparr>"

definition Connect :: "'e \<Rightarrow> serverName \<Rightarrow> ('e, 's, 'a, 'r) Network \<Rightarrow> ('e, 's, 'a, 'r) Network" where
  "Connect e name rn = rn\<lparr>connections := (connections rn)(e := Some name)\<rparr>"

definition Enable :: "'e \<Rightarrow> bool \<Rightarrow> ('e, 's, 'a, 'r) Network \<Rightarrow> ('e, 's, 'a, 'r) Network" where
  "Enable e yes rn = rn\<lparr>enabled := (enabled rn)(e := yes)\<rparr>"

definition NetGetCount :: "serverName \<Rightarrow> ('e, 's, 'a, 'r) Network \<Rightarrow> int go" where
  "NetGetCount name rn =
     (case servers rn name of
        None \<Rightarrow> Inl NilDereference | Some addr \<Rightarrow> Inr (GetCount (objects rn addr)))"

definition GetTotalCount :: "('e, 's, 'a, 'r) Network \<Rightarrow> int" where
  "GetTotalCount rn = sint (rpcCount rn)"

definition GetTotalBytes :: "('e, 's, 'a, 'r) Network \<Rightarrow> int" where
  "GetTotalBytes rn = sint (byteCount rn)"

definition readEndnameInfo ::
  "'e \<Rightarrow> ('e, 's, 'a, 'r) Network \<Rightarrow> bool \<times> serverName option \<times> nat option \<times> bool \<times> bool" where
  "readEndnameInfo e rn =
     (let servername = connections rn e;
          srv = (case servername of None \<Rightarrow> None | Some n \<Rightarrow> servers rn n)
      in (enabled rn e, servername, srv, reliable rn, longReordering rn))"

definition isServerDead :: "'e \<Rightarrow> serverName \<Rightarrow> nat \<Rightarrow> ('e, 's, 'a, 'r) Network \<Rightarrow> bool" where
  "isServerDead e name addr rn =
     (if enabled rn e = False \<or> servers rn name \<noteq> Some addr then True else False)"

section \<open>Calls\<close>

text \<open>
  The states of a call: refused, since the network was closed; received by the goroutine of
  the network; accepted by \<open>processReq\<close> for a server, with the
  flags it has read; its handler done, with the reply in the channel \<open>ech\<close>; the reply
  checked and on its way, perhaps behind a timer; its caller answered while the handler still
  runs; and answered. How long gob's encodings of arguments and replies are, only the
  statistics need: the functions \<open>argLen\<close> and \<open>repLen\<close>.
\<close>

datatype ('e, 'a, 'r) call =
    Refused "('e, 'a) reqMsg"
  | Requested "('e, 'a) reqMsg"
  | Running "('e, 'a) reqMsg" serverName nat bool bool
  | Returned "('e, 'a) reqMsg" serverName nat bool bool "'r replyMsg"
  | Replying "('e, 'a) reqMsg" "'r replyMsg"
  | Orphan "('e, 'a) reqMsg" nat
  | Answered "('e, 'a) reqMsg" "'r replyMsg"

record ('e, 's, 'a, 'r) rpcSystem =
  net :: "('e, 's, 'a, 'r) Network"
  store :: 's
  rpcs :: "('e, 'a, 'r) call list"
  executed :: "(nat \<times> 'r replyMsg) list"

datatype 'e netOp =
    SetReliable bool
  | SetLongReordering bool
  | SetLongDelays bool
  | NewEnd 'e
  | NewServer serverName nat
  | RemoveServer serverName
  | ConnectEnd 'e serverName
  | EnableEnd 'e bool
  | Close

fun configure :: "'e netOp \<Rightarrow> ('e, 's, 'a, 'r) Network \<Rightarrow> ('e, 's, 'a, 'r) Network go" where
  "configure (SetReliable yes) rn = Inr (Reliable yes rn)"
| "configure (SetLongReordering yes) rn = Inr (LongReordering yes rn)"
| "configure (SetLongDelays yes) rn = Inr (LongDelays yes rn)"
| "configure (NewEnd e) rn = MakeEnd e rn"
| "configure (NewServer name addr) rn = Inr (AddServer name addr rn)"
| "configure (RemoveServer name) rn = Inr (DeleteServer name rn)"
| "configure (ConnectEnd e name) rn = Inr (Connect e name rn)"
| "configure (EnableEnd e yes) rn = Inr (Enable e yes rn)"
| "configure Close rn = Cleanup rn"

datatype ('e, 'a) rpcAction =
    SendCall 'e string 'a
  | RefuseCall 'e string 'a
  | StopListening
  | Begin nat
  | DropRequest nat
  | RunHandler nat
  | NoticeDead nat
  | CheckReply nat bool
  | SendReply nat
  | Configure "'e netOp"

definition failed :: "'r replyMsg" where
  "failed = \<lparr>ok = False, reply = None\<rparr>"

definition setCall :: "nat \<Rightarrow> ('e, 'a, 'r) call \<Rightarrow> ('e, 's, 'a, 'r) rpcSystem \<Rightarrow> ('e, 's, 'a, 'r) rpcSystem" where
  "setCall c x s = s\<lparr>rpcs := (rpcs s)[c := x]\<rparr>"

text \<open>The goroutine that runs the handler; what becomes of the call is \<open>after\<close>.\<close>

definition runHandler ::
  "nat \<Rightarrow> ('e, 'a) reqMsg \<Rightarrow> nat \<Rightarrow> ('r replyMsg \<Rightarrow> ('e, 'a, 'r) call) \<Rightarrow> ('e, 's, 'a, 'r) rpcSystem
   \<Rightarrow> ('e, 's, 'a, 'r) rpcSystem option" where
  "runHandler c req addr after s =
     (case Server_dispatch req (objects (net s) addr) (store s) of
        Inl _ \<Rightarrow> None
      | Inr (rs, h, rep) \<Rightarrow>
          Some (setCall c (after rep)
            (s\<lparr>net := (net s)\<lparr>objects := (objects (net s))(addr := rs)\<rparr>, store := h, executed := executed s @ [(c, rep)]\<rparr>)))"

text \<open>The length of a reply: a failure has no bytes.\<close>

definition replyBytes :: "('r \<Rightarrow> nat) \<Rightarrow> 'r replyMsg \<Rightarrow> nat" where
  "replyBytes repLen rep = (case reply rep of None \<Rightarrow> 0 | Some r \<Rightarrow> repLen r)"

text \<open>\<open>processReq\<close>, from one of its waits to the next.\<close>

fun callStep ::
  "('r \<Rightarrow> nat) \<Rightarrow> ('e, 'a) rpcAction \<Rightarrow> nat \<Rightarrow> ('e, 'a, 'r) call \<Rightarrow> ('e, 's, 'a, 'r) rpcSystem \<Rightarrow> ('e, 's, 'a, 'r) rpcSystem option"
where
  "callStep repLen (Begin _) c (Requested req) s =
     (let (en, servername, srv, rel, reordering) = readEndnameInfo (endname req) (net s) in
      Some (setCall c
        (case (en, servername, srv) of
           (True, Some name, Some addr) \<Rightarrow> Running req name addr rel reordering
         | _ \<Rightarrow> Answered req failed) s))"
| "callStep repLen (DropRequest _) c (Running req name addr rel reordering) s =
     (if rel = False then Some (setCall c (Answered req failed) s) else None)"
| "callStep repLen (RunHandler _) c (Running req name addr rel reordering) s =
     runHandler c req addr (Returned req name addr rel reordering) s"
| "callStep repLen (RunHandler _) c (Orphan req addr) s =
     runHandler c req addr (\<lambda>rep. Answered req failed) s"
| "callStep repLen (NoticeDead _) c (Running req name addr rel reordering) s =
     (if isServerDead (endname req) name addr (net s) then Some (setCall c (Orphan req addr) s)
      else None)"
| "callStep repLen (CheckReply _ lose) c (Returned req name addr rel reordering rep) s =
     Some (setCall c
       (if isServerDead (endname req) name addr (net s) then Answered req failed
        else if rel = False \<and> lose then Answered req failed
        else Replying req rep) s)"
| "callStep repLen (SendReply _) c (Replying req rep) s =
     Some (setCall c (Answered req rep)
       (s\<lparr>net := (net s)\<lparr>byteCount := byteCount (net s) + of_nat (replyBytes repLen rep)\<rparr>\<rparr>))"
| "callStep repLen _ c x s = None"

fun callOf :: "('e, 'a) rpcAction \<Rightarrow> nat option" where
  "callOf (Begin c) = Some c"
| "callOf (DropRequest c) = Some c"
| "callOf (RunHandler c) = Some c"
| "callOf (NoticeDead c) = Some c"
| "callOf (CheckReply c d) = Some c"
| "callOf (SendReply c) = Some c"
| "callOf _ = None"

text \<open>
  A caller that finds the network closed while its goroutine still listens can go either way.
\<close>

fun rpcStep ::
  "('a \<Rightarrow> nat) \<Rightarrow> ('r \<Rightarrow> nat) \<Rightarrow> ('e, 'a) rpcAction \<Rightarrow> ('e, 's, 'a, 'r) rpcSystem
   \<Rightarrow> ('e, 's, 'a, 'r) rpcSystem option"
where
  "rpcStep argLen repLen (SendCall e m x) s =
     (let req = \<lparr>endname = e, svcMeth = m, args = x\<rparr> in
      if e \<in> ends (net s) \<and> serving (net s)
      then Some (s\<lparr>net := (net s)\<lparr>rpcCount := rpcCount (net s) + 1,
                                 byteCount := byteCount (net s) + of_nat (argLen x)\<rparr>,
                   rpcs := rpcs s @ [Requested req]\<rparr>)
      else None)"
| "rpcStep argLen repLen (RefuseCall e m x) s =
     (let req = \<lparr>endname = e, svcMeth = m, args = x\<rparr> in
      if e \<in> ends (net s) \<and> netClosed (net s) then Some (s\<lparr>rpcs := rpcs s @ [Refused req]\<rparr>)
      else None)"
| "rpcStep argLen repLen StopListening s =
     (if netClosed (net s) \<and> serving (net s) then Some (s\<lparr>net := (net s)\<lparr>serving := False\<rparr>\<rparr>)
      else None)"
| "rpcStep argLen repLen (Configure conf) s =
     (case configure conf (net s) of Inl _ \<Rightarrow> None | Inr rn \<Rightarrow> Some (s\<lparr>net := rn\<rparr>))"
| "rpcStep argLen repLen a s =
     (case callOf a of
        None \<Rightarrow> None
      | Some c \<Rightarrow> if c < length (rpcs s) then callStep repLen a c (rpcs s ! c) s else None)"

definition startNetwork :: "(nat \<Rightarrow> ('s, 'a, 'r) Server) \<Rightarrow> 's \<Rightarrow> ('e, 's, 'a, 'r) rpcSystem" where
  "startNetwork objs h = \<lparr>net = MakeNetwork objs, store = h, rpcs = [], executed = []\<rparr>"

definition networkInit :: "('e, 's, 'a, 'r) rpcSystem \<Rightarrow> bool" where
  "networkInit s \<longleftrightarrow> s = startNetwork (objects (net s)) (store s)"

section \<open>What a step does to the calls\<close>

text \<open>What a call adds to the statistics.\<close>

fun callCount :: "('e, 'a, 'r) call \<Rightarrow> nat" where
  "callCount (Refused req) = 0"
| "callCount _ = 1"

fun callBytes :: "('a \<Rightarrow> nat) \<Rightarrow> ('r \<Rightarrow> nat) \<Rightarrow> ('e, 'a, 'r) call \<Rightarrow> nat" where
  "callBytes argLen repLen (Refused req) = 0"
| "callBytes argLen repLen (Requested req) = argLen (args req)"
| "callBytes argLen repLen (Running req name addr rel lr) = argLen (args req)"
| "callBytes argLen repLen (Returned req name addr rel lr rep) = argLen (args req)"
| "callBytes argLen repLen (Replying req rep) = argLen (args req)"
| "callBytes argLen repLen (Orphan req addr) = argLen (args req)"
| "callBytes argLen repLen (Answered req rep) = argLen (args req) + replyBytes repLen rep"

text \<open>The moves of one call, with the result its handler gave if it executed.\<close>

inductive callMoves ::
  "('e, 's, 'a, 'r) Network \<Rightarrow> ('e, 'a, 'r) call \<Rightarrow> ('e, 'a, 'r) call \<Rightarrow> 'r replyMsg option \<Rightarrow> bool"
  for rn :: "('e, 's, 'a, 'r) Network"
where
  begin_ok: "readEndnameInfo (endname req) rn = (True, Some name, Some addr, rel, lr) \<Longrightarrow>
     callMoves rn (Requested req) (Running req name addr rel lr) None"
| begin_fails: "readEndnameInfo (endname req) rn = (en, sn, sv, rel, lr) \<Longrightarrow>
     \<not> en \<or> sn = None \<or> sv = None \<Longrightarrow> callMoves rn (Requested req) (Answered req failed) None"
| drop_request: "callMoves rn (Running req name addr False lr) (Answered req failed) None"
| run_handler: "ok rep \<Longrightarrow>
     callMoves rn (Running req name addr rel lr) (Returned req name addr rel lr rep) (Some rep)"
| run_orphan: "ok rep \<Longrightarrow> callMoves rn (Orphan req addr) (Answered req failed) (Some rep)"
| notice_dead: "isServerDead (endname req) name addr rn \<Longrightarrow>
     callMoves rn (Running req name addr rel lr) (Orphan req addr) None"
| reply_dead: "isServerDead (endname req) name addr rn \<Longrightarrow>
     callMoves rn (Returned req name addr rel lr rep) (Answered req failed) None"
| drop_reply: "callMoves rn (Returned req name addr False lr rep) (Answered req failed) None"
| reply_ok: "\<not> isServerDead (endname req) name addr rn \<Longrightarrow>
     callMoves rn (Returned req name addr rel lr rep) (Replying req rep) None"
| send_reply: "callMoves rn (Replying req rep) (Answered req rep) None"

lemma Server_dispatch_ok: "Server_dispatch req rs h = Inr (rs', h', rep) \<Longrightarrow> ok rep"
  by (auto simp: Server_dispatch_def Let_def split: sum.splits option.splits)

lemma runHandler_effect:
  assumes "runHandler c req addr after s = Some t"
  obtains rep objs where "ok rep" "rpcs t = (rpcs s)[c := after rep]"
    "executed t = executed s @ [(c, rep)]" "net t = (net s)\<lparr>objects := objs\<rparr>"
  using assms by (auto simp: runHandler_def setCall_def split: sum.splits dest: Server_dispatch_ok)

lemma replyBytes_failed [simp]: "replyBytes repLen failed = 0"
  by (simp add: replyBytes_def failed_def)

text \<open>A move does not lose what the call has added before.\<close>

lemma callMoves_counts:
  "callMoves rn x y r \<Longrightarrow> callCount y = callCount x \<and> callBytes al rl x \<le> callBytes al rl y"
  by (cases rule: callMoves.cases) auto

lemma callStep_moves:
  assumes "callStep rl a c x s = Some t" and "c < length (rpcs s)" and "rpcs s ! c = x"
  shows "\<exists>y r objs. callMoves (net s) x y r \<and> rpcs t = (rpcs s)[c := y] \<and>
    executed t = executed s @ (case r of None \<Rightarrow> [] | Some rep \<Rightarrow> [(c, rep)]) \<and>
    net t = (net s)\<lparr>byteCount := byteCount (net s) + of_nat (callBytes al rl y - callBytes al rl x),
                    objects := objs\<rparr>"
  using assms(1)
proof (cases "(rl, a, c, x, s)" rule: callStep.cases)
  case (1 _ _ _ req _)
  obtain en sn sv rel lr where r: "readEndnameInfo (endname req) (net s) = (en, sn, sv, rel, lr)"
    by (metis prod_cases5)
  with 1 assms(1) show ?thesis
    by (auto simp: setCall_def split: bool.splits option.splits
        intro: begin_ok begin_fails intro!: exI [of _ None] exI [of _ "objects (net s)"])
next
  case (2 _ _ _ req name addr rel lr _)
  with assms(1) show ?thesis
    by (auto simp: setCall_def split: if_splits intro: drop_request
        intro!: exI [of _ None] exI [of _ "objects (net s)"])
next
  case (3 _ _ _ req name addr rel lr _)
  with assms(1) have "runHandler c req addr (Returned req name addr rel lr) s = Some t" by simp
  then obtain rep objs where "ok rep" "rpcs t = (rpcs s)[c := Returned req name addr rel lr rep]"
    "executed t = executed s @ [(c, rep)]" "net t = (net s)\<lparr>objects := objs\<rparr>"
    by (rule runHandler_effect)
  with 3 show ?thesis
    by (intro exI [of _ "Returned req name addr rel lr rep"] exI [of _ "Some rep"] exI [of _ objs])
      (auto intro: run_handler)
next
  case (4 _ _ _ req addr _)
  with assms(1) have "runHandler c req addr (\<lambda>rep. Answered req failed) s = Some t" by simp
  then obtain rep objs where "ok rep" "rpcs t = (rpcs s)[c := Answered req failed]"
    "executed t = executed s @ [(c, rep)]" "net t = (net s)\<lparr>objects := objs\<rparr>"
    by (rule runHandler_effect)
  with 4 show ?thesis
    by (intro exI [of _ "Answered req failed"] exI [of _ "Some rep"] exI [of _ objs])
      (auto intro: run_orphan)
next
  case (5 _ _ _ req name addr rel lr _)
  with assms(1) show ?thesis
    by (auto simp: setCall_def split: if_splits intro: notice_dead
        intro!: exI [of _ None] exI [of _ "objects (net s)"])
next
  case (6 _ _ lose _ req name addr rel lr rep _)
  with assms(1) show ?thesis
    by (auto simp: setCall_def split: if_splits intro: reply_dead drop_reply reply_ok
        intro!: exI [of _ None] exI [of _ "objects (net s)"])
next
  case (7 _ _ _ req rep _)
  with assms(1) show ?thesis
    by (auto simp: setCall_def intro: send_reply
        intro!: exI [of _ None] exI [of _ "objects (net s)"])
qed auto

text \<open>
  A step sends a call or has it refused, changes the configuration, ends the goroutine of the
  network, or moves one call.
\<close>

lemma rpcStep_cases:
  assumes "rpcStep al rl a s = Some t"
  obtains (send) x where "rpcs t = rpcs s @ [x]" "executed t = executed s"
      "(\<exists>req. x = Requested req) \<or> (\<exists>req. x = Refused req)"
      "net t = (net s)\<lparr>rpcCount := rpcCount (net s) + of_nat (callCount x),
                       byteCount := byteCount (net s) + of_nat (callBytes al rl x)\<rparr>"
  | (stop) "net t = (net s)\<lparr>serving := False\<rparr>" "rpcs t = rpcs s" "executed t = executed s"
  | (conf) cf where "a = Configure cf" "configure cf (net s) = Inr (net t)" "rpcs t = rpcs s"
      "executed t = executed s"
  | (move) c y r objs where "c < length (rpcs s)" "callMoves (net s) (rpcs s ! c) y r"
      "rpcs t = (rpcs s)[c := y]"
      "executed t = executed s @ (case r of None \<Rightarrow> [] | Some rep \<Rightarrow> [(c, rep)])"
      "net t = (net s)\<lparr>byteCount := byteCount (net s) +
                          of_nat (callBytes al rl y - callBytes al rl (rpcs s ! c)),
                       objects := objs\<rparr>"
proof (cases "callOf a")
  case (Some c)
  then have "c < length (rpcs s)" "callStep rl a c (rpcs s ! c) s = Some t"
    using assms by (cases a; auto split: if_splits)+
  from callStep_moves [OF this(2,1) refl, of al] move this(1) show thesis by blast
next
  case None
  show thesis
  proof (cases a)
    case (SendCall e m x)
    with assms show thesis
      by (intro send [of "Requested \<lparr>endname = e, svcMeth = m, args = x\<rparr>"])
        (auto simp: Let_def split: if_splits)
  next
    case (RefuseCall e m x)
    with assms show thesis
      by (intro send [of "Refused \<lparr>endname = e, svcMeth = m, args = x\<rparr>"])
        (auto simp: Let_def split: if_splits)
  next
    case StopListening
    with assms show thesis by (intro stop) (auto split: if_splits)
  next
    case (Configure cf)
    with assms show thesis by (intro conf [of cf]) (auto split: sum.splits)
  qed (use None in auto)
qed

section \<open>At most once\<close>

fun call_ok :: "(nat \<times> 'r replyMsg) list \<Rightarrow> nat \<Rightarrow> ('e, 'a, 'r) call \<Rightarrow> bool" where
  "call_ok ex c (Refused req) = (c \<notin> fst ` set ex)"
| "call_ok ex c (Requested req) = (c \<notin> fst ` set ex)"
| "call_ok ex c (Running req name addr rel lr) = (c \<notin> fst ` set ex)"
| "call_ok ex c (Orphan req addr) = (c \<notin> fst ` set ex)"
| "call_ok ex c (Returned req name addr rel lr rep) = ((c, rep) \<in> set ex \<and> ok rep)"
| "call_ok ex c (Replying req rep) = ((c, rep) \<in> set ex \<and> ok rep)"
| "call_ok ex c (Answered req rep) = (ok rep \<longrightarrow> (c, rep) \<in> set ex)"

definition rpc_inv :: "('e, 's, 'a, 'r) rpcSystem \<Rightarrow> bool" where
  "rpc_inv s \<longleftrightarrow>
     distinct (map fst (executed s)) \<and> (\<forall>c \<in> fst ` set (executed s). c < length (rpcs s)) \<and>
     (\<forall>c < length (rpcs s). call_ok (executed s) c (rpcs s ! c))"

lemma failed_not_ok [simp]: "\<not> ok failed"
  by (simp add: failed_def)

lemma call_ok_other:
  "call_ok ex c x \<Longrightarrow> d \<noteq> c \<Longrightarrow> call_ok (ex @ [(d, rep)]) c x"
  by (cases x) auto

lemma rpc_inv_move:
  assumes inv: "rpc_inv s" and c: "c < length (rpcs s)" and m: "callMoves rn (rpcs s ! c) y r"
    and t: "rpcs t = (rpcs s)[c := y]"
      "executed t = executed s @ (case r of None \<Rightarrow> [] | Some rep \<Rightarrow> [(c, rep)])"
  shows "rpc_inv t"
proof -
  from inv c have ok: "call_ok (executed s) c (rpcs s ! c)" by (simp add: rpc_inv_def)
  have y: "call_ok (executed t) c y" and fresh: "r \<noteq> None \<Longrightarrow> c \<notin> fst ` set (executed s)"
    using m ok by (cases rule: callMoves.cases; auto simp: t(2))+
  have "call_ok (executed t) d (rpcs s ! d)" if "d < length (rpcs s)" "d \<noteq> c" for d
    using inv that call_ok_other [of "executed s" d "rpcs s ! d" c]
    by (cases r) (auto simp: t(2) rpc_inv_def)
  with y c have "\<forall>d < length (rpcs t). call_ok (executed t) d (rpcs t ! d)"
    unfolding t(1) by (metis length_list_update nth_list_update_eq nth_list_update_neq)
  moreover have "distinct (map fst (executed t))"
    using inv fresh by (cases r) (auto simp: t(2) rpc_inv_def)
  moreover have "\<forall>d \<in> fst ` set (executed t). d < length (rpcs t)"
    using inv c by (cases r) (auto simp: t rpc_inv_def)
  ultimately show ?thesis by (simp add: rpc_inv_def)
qed

interpretation rpc: invariant networkInit "rpcStep al rl" rpc_inv for al rl
proof
  fix s assume "networkInit s"
  then have "rpcs s = [] \<and> executed s = []"
    unfolding networkInit_def startNetwork_def by (metis rpcSystem.select_convs(3,4))
  then show "rpc_inv s" by (simp add: rpc_inv_def)
next
  fix s a t assume inv: "rpc_inv s" and "rpcStep al rl a s = Some t"
  from this(2) show "rpc_inv t"
  proof (cases rule: rpcStep_cases)
    case (send x)
    have "length (rpcs s) \<notin> fst ` set (executed s)"
      using inv unfolding rpc_inv_def by blast
    then have "call_ok (executed s) (length (rpcs s)) x" using send(3) by auto
    with inv send(1,2) show ?thesis
      by (auto simp: rpc_inv_def nth_append less_Suc_eq)
  next
    case stop
    with inv show ?thesis by (simp add: rpc_inv_def)
  next
    case (conf cf)
    with inv show ?thesis by (simp add: rpc_inv_def)
  next
    case (move c y r)
    from rpc_inv_move [OF inv move(1-4)] show ?thesis .
  qed
qed

lemma filter_key:
  "distinct (map fst ex) \<Longrightarrow>
     filter (\<lambda>(d, rep). d = c) ex = (case map_of ex c of None \<Rightarrow> [] | Some rep \<Rightarrow> [(c, rep)])"
proof (induction ex)
  case (Cons x ex)
  have "map_of ex (fst x) = None" using Cons.prems by (simp add: map_of_eq_None_iff)
  with Cons show ?case by (auto split: option.splits)
qed simp

text \<open>C26. The promise of labrpc.go: when \<open>Call\<close> returns true, the server has executed the request,
  exactly once, and the reply is the handler's result; and no request is ever executed
  twice, whether its caller got an answer or not.\<close>

theorem call_executed_once:
  assumes "reachable networkInit (rpcStep al rl) s" and "c < length (rpcs s)"
  shows "length (filter (\<lambda>(d, rep). d = c) (executed s)) \<le> 1 \<and>
    (\<forall>req rep. rpcs s ! c = Answered req rep \<and> ok rep \<longrightarrow>
       filter (\<lambda>(d, rep). d = c) (executed s) = [(c, rep)])"
proof -
  from rpc.reachable_inv [OF assms(1)] have inv: "rpc_inv s" .
  have d: "distinct (map fst (executed s))" using inv by (simp add: rpc_inv_def)
  have "map_of (executed s) c = Some rep" if "rpcs s ! c = Answered req rep" "ok rep" for req rep
    using inv assms(2) that d by (fastforce simp: rpc_inv_def)
  with filter_key [OF d] show ?thesis by (auto split: option.splits)
qed

section \<open>Deleted servers and disabled ends\<close>

text \<open>An end that is disabled, and a name from which a server object has been removed, when none
  of the steps \<open>acts\<close> puts them back.\<close>

definition shut :: "('e, 'a) rpcAction set \<Rightarrow> ('e, 's, 'a, 'r) Network \<Rightarrow> 'e \<Rightarrow> bool" where
  "shut acts rn e \<longleftrightarrow> \<not> enabled rn e \<and> Configure (EnableEnd e True) \<notin> acts"

definition gone ::
  "('e, 'a) rpcAction set \<Rightarrow> ('e, 's, 'a, 'r) Network \<Rightarrow> serverName \<Rightarrow> nat \<Rightarrow> bool" where
  "gone acts rn name addr \<longleftrightarrow> servers rn name \<noteq> Some addr \<and> Configure (NewServer name addr) \<notin> acts"

text \<open>The calls that are cut off: their end is shut or their server is gone, and no reply is on
  its way yet; or they have failed.\<close>

fun cutOff :: "('e, 'a) rpcAction set \<Rightarrow> ('e, 's, 'a, 'r) Network \<Rightarrow> ('e, 'a, 'r) call \<Rightarrow> bool" where
  "cutOff acts rn (Requested req) = shut acts rn (endname req)"
| "cutOff acts rn (Running req name addr rel lr) =
     (shut acts rn (endname req) \<or> gone acts rn name addr)"
| "cutOff acts rn (Returned req name addr rel lr rep) =
     (shut acts rn (endname req) \<or> gone acts rn name addr)"
| "cutOff acts rn (Replying req rep) = False"
| "cutOff acts rn (Orphan req addr) = True"
| "cutOff acts rn (Refused req) = True"
| "cutOff acts rn (Answered req rep) = (\<not> ok rep)"

lemma cutOff_move: "callMoves rn x y r \<Longrightarrow> cutOff acts rn x \<Longrightarrow> cutOff acts rn y"
  by (cases rule: callMoves.cases)
    (auto simp: isServerDead_def readEndnameInfo_def shut_def gone_def)

lemma cutOff_mono:
  "cutOff acts rn x \<Longrightarrow> (\<And>e. shut acts rn e \<Longrightarrow> shut acts rn' e) \<Longrightarrow>
     (\<And>n a. gone acts rn n a \<Longrightarrow> gone acts rn' n a) \<Longrightarrow> cutOff acts rn' x"
  by (cases x) auto

lemma cutOff_configure:
  assumes "configure cf rn = Inr rn'" and "Configure cf \<in> acts" and "cutOff acts rn x"
  shows "cutOff acts rn' x"
proof (rule cutOff_mono [OF assms(3)])
  show "shut acts rn e \<Longrightarrow> shut acts rn' e" for e
    using assms(1,2)
    by (cases cf) (auto simp: shut_def Reliable_def LongReordering_def LongDelays_def MakeEnd_def
        AddServer_def DeleteServer_def Connect_def Enable_def Cleanup_def split: if_splits)
  show "gone acts rn n a \<Longrightarrow> gone acts rn' n a" for n a
    using assms(1,2)
    by (cases cf) (auto simp: gone_def Reliable_def LongReordering_def LongDelays_def MakeEnd_def
        AddServer_def DeleteServer_def Connect_def Enable_def Cleanup_def split: if_splits)
qed

lemma cutOff_step:
  assumes "rpcStep al rl a s = Some t" and "a \<in> acts"
    and "c < length (rpcs s)" and "cutOff acts (net s) (rpcs s ! c)"
  shows "c < length (rpcs t) \<and> cutOff acts (net t) (rpcs t ! c)"
  using assms(1)
proof (cases rule: rpcStep_cases)
  case (send x)
  then have "cutOff acts (net t) (rpcs s ! c)"
    by (intro cutOff_mono [OF assms(4)]) (auto simp: shut_def gone_def)
  with send(1) assms(3) show ?thesis by (simp add: nth_append)
next
  case stop
  then have "cutOff acts (net t) (rpcs s ! c)"
    by (intro cutOff_mono [OF assms(4)]) (auto simp: shut_def gone_def)
  with stop(2) assms(3) show ?thesis by simp
next
  case (conf cf)
  with cutOff_configure [OF conf(2) _ assms(4)] assms(2,3) show ?thesis by simp
next
  case (move d y r objs)
  have "cutOff acts (net s) (rpcs t ! c)"
    using move(1-3) assms(4) cutOff_move by (cases "d = c") auto
  then have "cutOff acts (net t) (rpcs t ! c)"
    using move(5) by (elim cutOff_mono) (auto simp: shut_def gone_def)
  with move(3) assms(3) show ?thesis by simp
qed

lemma cutOff_run:
  "run_actions (rpcStep al rl) as s = Some t \<Longrightarrow> set as \<subseteq> acts \<Longrightarrow> c < length (rpcs s) \<Longrightarrow>
     cutOff acts (net s) (rpcs s ! c) \<Longrightarrow> cutOff acts (net t) (rpcs t ! c)"
proof (induction as arbitrary: s)
  case (Cons a as)
  from Cons.prems(1) obtain u where
    u: "rpcStep al rl a s = Some u" "run_actions (rpcStep al rl) as u = Some t"
    by (auto split: option.splits)
  from cutOff_step [OF u(1) _ Cons.prems(3,4)] Cons.IH [OF u(2)] Cons.prems(2) show ?case by simp
qed simp


section \<open>Reliable networks\<close>

text \<open>A call that a reliable network can still serve: its end is enabled and connected to a name
  that some server object has, the one the call is with.\<close>

fun served :: "('e, 's, 'a, 'r) Network \<Rightarrow> ('e, 'a, 'r) call \<Rightarrow> bool" where
  "served rn (Requested req) =
     (enabled rn (endname req) \<and> reliable rn \<and>
      (case connections rn (endname req) of None \<Rightarrow> False | Some n \<Rightarrow> servers rn n \<noteq> None))"
| "served rn (Running req name addr rel lr) =
     (enabled rn (endname req) \<and> servers rn name = Some addr \<and> rel)"
| "served rn (Returned req name addr rel lr rep) =
     (enabled rn (endname req) \<and> servers rn name = Some addr \<and> rel \<and> ok rep)"
| "served rn (Replying req rep) = ok rep"
| "served rn (Orphan req addr) = False"
| "served rn (Refused req) = False"
| "served rn (Answered req rep) = ok rep"

lemma served_move: "callMoves rn x y r \<Longrightarrow> served rn x \<Longrightarrow> served rn y"
  by (cases rule: callMoves.cases)
    (auto simp: readEndnameInfo_def isServerDead_def split: option.splits)

lemma served_cong:
  "served rn x \<Longrightarrow> enabled rn' = enabled rn \<Longrightarrow> reliable rn' = reliable rn \<Longrightarrow>
     connections rn' = connections rn \<Longrightarrow> servers rn' = servers rn \<Longrightarrow> served rn' x"
  by (cases x) (auto split: option.splits)

fun isConfigure :: "('e, 'a) rpcAction \<Rightarrow> bool" where
  "isConfigure (Configure cf) = True"
| "isConfigure _ = False"

lemma served_step:
  assumes "rpcStep al rl a s = Some t" and "\<not> isConfigure a"
    and "c < length (rpcs s)" and "served (net s) (rpcs s ! c)"
  shows "c < length (rpcs t) \<and> served (net t) (rpcs t ! c)"
  using assms(1)
proof (cases rule: rpcStep_cases)
  case (send x)
  from send(4) have "served (net t) (rpcs s ! c)" by (auto intro: served_cong [OF assms(4)])
  with send(1) assms(3) show ?thesis by (simp add: nth_append)
next
  case stop
  then have "served (net t) (rpcs s ! c)" by (auto intro: served_cong [OF assms(4)])
  with stop(2) assms(3) show ?thesis by simp
next
  case (conf cf)
  with assms(2) show ?thesis by simp
next
  case (move d y r)
  have "served (net s) (rpcs t ! c)"
    using move(1-3) assms(4) served_move by (cases "d = c") auto
  then have "served (net t) (rpcs t ! c)" using move(5) by (auto intro: served_cong)
  with move(3) assms(3) show ?thesis by simp
qed


section \<open>Statistics\<close>

text \<open>The counters agree with the calls, up to their width.\<close>

definition stats_inv :: "('a \<Rightarrow> nat) \<Rightarrow> ('r \<Rightarrow> nat) \<Rightarrow> ('e, 's, 'a, 'r) rpcSystem \<Rightarrow> bool" where
  "stats_inv al rl s \<longleftrightarrow>
     rpcCount (net s) = of_nat (sum_list (map callCount (rpcs s))) \<and>
     byteCount (net s) = of_nat (sum_list (map (callBytes al rl) (rpcs s)))"

lemma configure_stats:
  "configure cf rn = Inr rn' \<Longrightarrow> rpcCount rn' = rpcCount rn \<and> byteCount rn' = byteCount rn"
  by (cases cf) (auto simp: Reliable_def LongReordering_def LongDelays_def MakeEnd_def
      AddServer_def DeleteServer_def Connect_def Enable_def Cleanup_def split: if_splits)

lemma sum_list_move:
  fixes f :: "'x \<Rightarrow> nat"
  assumes "c < length xs" and "f (xs ! c) \<le> f y"
  shows "sum_list (map f (xs[c := y])) = sum_list (map f xs) + (f y - f (xs ! c))"
proof -
  have "f (xs ! c) \<le> sum_list (map f xs)"
    using assms(1) by (intro member_le_sum_list) auto
  with assms show ?thesis by (simp add: map_update sum_list_update)
qed

interpretation stats: invariant networkInit "rpcStep al rl"
    "stats_inv al rl :: ('e, 's, 'a, 'r) rpcSystem \<Rightarrow> bool" for al rl
proof
  fix s :: "('e, 's, 'a, 'r) rpcSystem"
  assume "networkInit s"
  then have "rpcs s = [] \<and> rpcCount (net s) = 0 \<and> byteCount (net s) = 0"
    unfolding networkInit_def startNetwork_def MakeNetwork_def
    by (metis rpcSystem.select_convs(1,3) Network.select_convs(10,11))
  then show "stats_inv al rl s" by (simp add: stats_inv_def)
next
  fix s t :: "('e, 's, 'a, 'r) rpcSystem" and a
  assume inv: "stats_inv al rl s" and "rpcStep al rl a s = Some t"
  from this(2) show "stats_inv al rl t"
  proof (cases rule: rpcStep_cases)
    case (conf cf)
    with inv configure_stats [OF conf(2)] show ?thesis by (simp add: stats_inv_def)
  next
    case (move c y r objs)
    note c = callMoves_counts [OF move(2), of al rl]
    then have "sum_list (map callCount (rpcs t)) = sum_list (map callCount (rpcs s))"
      using sum_list_move [OF move(1), of callCount y] by (simp add: move(3))
    moreover have "sum_list (map (callBytes al rl) (rpcs t)) =
        sum_list (map (callBytes al rl) (rpcs s)) + (callBytes al rl y - callBytes al rl (rpcs s ! c))"
      using sum_list_move [OF move(1), of "callBytes al rl" y] c by (simp add: move(3))
    ultimately show ?thesis using inv by (simp add: stats_inv_def move(5))
  qed (use inv in \<open>auto simp: stats_inv_def\<close>)
qed

lemma callCount_le: "sum_list (map callCount xs) \<le> length xs"
proof (induction xs)
  case (Cons x xs)
  then show ?case by (cases x) auto
qed simp

text \<open>C28. The statistics of the network are exact up to the width of their counters:
  \<open>GetTotalCount\<close> is the number of calls that were not refused, and \<open>GetTotalBytes\<close> the length of
  their arguments and of the replies that were sent, wrapped around at 32 and 64 bits. Up to
  2 billion calls the count is the true one, after that it can be negative.\<close>

theorem statistics_exact:
  assumes "reachable networkInit (rpcStep al rl) s"
  shows "GetTotalCount (net s) = signed_take_bit 31 (int (sum_list (map callCount (rpcs s)))) \<and>
    GetTotalBytes (net s) = signed_take_bit 63 (int (sum_list (map (callBytes al rl) (rpcs s)))) \<and>
    (length (rpcs s) < 2 ^ 31 \<longrightarrow> GetTotalCount (net s) = int (sum_list (map callCount (rpcs s))))"
proof -
  from stats.reachable_inv [OF assms]
  have "rpcCount (net s) = word_of_int (int (sum_list (map callCount (rpcs s))))"
    and "byteCount (net s) = word_of_int (int (sum_list (map (callBytes al rl) (rpcs s))))"
    by (simp_all add: stats_inv_def)
  then have n: "GetTotalCount (net s) = signed_take_bit 31 (int (sum_list (map callCount (rpcs s))))"
    and b: "GetTotalBytes (net s) =
      signed_take_bit 63 (int (sum_list (map (callBytes al rl) (rpcs s))))"
    by (simp_all only: GetTotalCount_def GetTotalBytes_def sint_sbintrunc') simp_all
  have "sum_list (map callCount (rpcs s)) \<le> length (rpcs s)" by (rule callCount_le)
  then show ?thesis
    unfolding n b by (auto intro!: signed_take_bit_int_eq_self)
qed

section \<open>A network with one server\<close>

text \<open>The server sums up the numbers it is sent, in a cell of the heap.\<close>

definition demoService :: "(nat \<Rightarrow> nat, nat, nat) Service" where
  "demoService = MakeService ''Counter'' 3
     [\<lparr>Name = ''Add'', PkgPath = '''', NumIn = 3, In2Ptr = True, NumOut = 0,
       Func = (\<lambda>p k h. Inr (h(p := h p + k), h p + k))\<rparr>,
      \<lparr>Name = ''helper'', PkgPath = ''pkg'', NumIn = 1, In2Ptr = False, NumOut = 1,
       Func = (\<lambda>p k h. Inl NilDereference)\<rparr>]"

definition demoObjects :: "nat \<Rightarrow> (nat \<Rightarrow> nat, nat, nat) Server" where
  "demoObjects addr = AddService demoService MakeServer"

abbreviation "demoStart \<equiv> startNetwork demoObjects (\<lambda>p. 0)"

text \<open>Every message has eight bytes.\<close>

abbreviation "demoStep \<equiv> rpcStep (\<lambda>x. 8) (\<lambda>x. 8)"

definition connectSchedule :: "(string, nat) rpcAction list" where
  "connectSchedule =
     [Configure (NewEnd ''e''), Configure (NewServer (StrName ''s'') 7), Configure (ConnectEnd ''e'' (StrName ''s'')),
      Configure (EnableEnd ''e'' True), SendCall ''e'' ''Counter.Add'' 5, Begin 0, RunHandler 0]"

definition demoRequest :: "(string, nat) reqMsg" where
  "demoRequest = \<lparr>endname = ''e'', svcMeth = ''Counter.Add'', args = 5\<rparr>"

lemma connect_run:
  "case run_actions demoStep connectSchedule demoStart of
     None \<Rightarrow> False
   | Some s \<Rightarrow>
       0 < length (rpcs s) \<and> served (net s) (rpcs s ! 0) \<and>
       (case run_actions demoStep [CheckReply 0 True, SendReply 0] s of
          None \<Rightarrow> False
        | Some t \<Rightarrow> 0 < length (rpcs t) \<and> rpcs t ! 0 = Answered demoRequest \<lparr>ok = True, reply = Some 5\<rparr>)"
  by code_simp

lemma delete_run:
  "case run_actions demoStep (connectSchedule @ [Configure (RemoveServer (StrName ''s''))])
          demoStart of
     None \<Rightarrow> False
   | Some u \<Rightarrow> 0 < length (rpcs u) \<and>
       cutOff {Configure (NewServer (StrName ''s'') 8), CheckReply 0 False} (net u) (rpcs u ! 0) \<and>
       (case run_actions demoStep [Configure (NewServer (StrName ''s'') 8), CheckReply 0 False] u of
          None \<Rightarrow> False
        | Some t \<Rightarrow> executed t = [(0, \<lparr>ok = True, reply = Some 5\<rparr>)] \<and>
            (case rpcs t ! 0 of Answered req rep \<Rightarrow> True | _ \<Rightarrow> False))"
  by code_simp

lemma late_run:
  "case run_actions demoStep (connectSchedule @ [CheckReply 0 False]) demoStart of
     None \<Rightarrow> False
   | Some u \<Rightarrow>
       (case run_actions demoStep [Configure (RemoveServer (StrName ''s'')), SendReply 0] u of
          None \<Rightarrow> False
        | Some t \<Rightarrow> servers (net t) (StrName ''s'') = None \<and> 0 < length (rpcs t) \<and>
            rpcs t ! 0 = Answered demoRequest \<lparr>ok = True, reply = Some 5\<rparr>)"
  by code_simp

lemma network_reachable:
  "run_actions demoStep acts (startNetwork objs h) = Some s \<Longrightarrow> reachable networkInit demoStep s"
  by (rule reachable_run [OF reach_init])
    (simp_all add: networkInit_def startNetwork_def MakeNetwork_def)

theorem call_executed_once_witness:
  "\<exists>s :: (string, nat \<Rightarrow> nat, nat, nat) rpcSystem. reachable networkInit demoStep s \<and>
     rpcs s ! 0 = Answered demoRequest \<lparr>ok = True, reply = Some 5\<rparr> \<and>
     filter (\<lambda>(d, rep). d = 0) (executed s) = [(0, \<lparr>ok = True, reply = Some 5\<rparr>)]"
proof -
  have "case run_actions demoStep (connectSchedule @ [CheckReply 0 True, SendReply 0]) demoStart of
     None \<Rightarrow> False
   | Some s \<Rightarrow> 0 < length (rpcs s) \<and>
       rpcs s ! 0 = Answered demoRequest \<lparr>ok = True, reply = Some 5\<rparr>" by code_simp
  then obtain s where
    s: "run_actions demoStep (connectSchedule @ [CheckReply 0 True, SendReply 0]) demoStart = Some s"
      "0 < length (rpcs s)" "rpcs s ! 0 = Answered demoRequest \<lparr>ok = True, reply = Some 5\<rparr>"
    by (auto simp del: run_actions.simps split: option.splits)
  from network_reachable [OF s(1)] have r: "reachable networkInit demoStep s" .
  from call_executed_once [OF r s(2)] r s(3) show ?thesis by auto
qed

theorem statistics_exact_witness:
  "\<exists>s :: (string, nat \<Rightarrow> nat, nat, nat) rpcSystem. reachable networkInit demoStep s \<and>
     length (rpcs s) = 1 \<and> GetTotalCount (net s) = 1 \<and> GetTotalBytes (net s) = 16"
proof -
  have "case run_actions demoStep (connectSchedule @ [CheckReply 0 True, SendReply 0]) demoStart of
     None \<Rightarrow> False
   | Some s \<Rightarrow> rpcs s = [Answered demoRequest \<lparr>ok = True, reply = Some 5\<rparr>]" by code_simp
  then obtain s where
    s: "run_actions demoStep (connectSchedule @ [CheckReply 0 True, SendReply 0]) demoStart = Some s"
      "rpcs s = [Answered demoRequest \<lparr>ok = True, reply = Some 5\<rparr>]"
    by (auto simp del: run_actions.simps split: option.splits)
  from network_reachable [OF s(1)] have r: "reachable networkInit demoStep s" .
  from statistics_exact [OF r] have "GetTotalCount (net s) = 1 \<and> GetTotalBytes (net s) = 16"
    by (simp add: s(2) demoRequest_def replyBytes_def signed_take_bit_int_eq_self)
  with r s(2) show ?thesis by auto
qed



text \<open>
  A reply that has been checked is not checked again when it is sent, up to 2.2 seconds later
  when replies are reordered: a caller may get it after the server has been deleted.
\<close>

lemma late_reply_of_deleted_server:
  "\<exists>(u :: (string, nat \<Rightarrow> nat, nat, nat) rpcSystem) t. reachable networkInit demoStep u \<and>
     run_actions demoStep [Configure (RemoveServer (StrName ''s'')), SendReply 0] u = Some t \<and>
     servers (net t) (StrName ''s'') = None \<and>
     rpcs t ! 0 = Answered demoRequest \<lparr>ok = True, reply = Some 5\<rparr>"
proof -
  from late_run obtain u t :: "(string, nat \<Rightarrow> nat, nat, nat) rpcSystem" where
    u: "run_actions demoStep (connectSchedule @ [CheckReply 0 False]) demoStart = Some u"
    and t: "run_actions demoStep [Configure (RemoveServer (StrName ''s'')), SendReply 0] u = Some t"
      "servers (net t) (StrName ''s'') = None"
      "rpcs t ! 0 = Answered demoRequest \<lparr>ok = True, reply = Some 5\<rparr>"
    by (auto simp del: run_actions.simps split: option.splits)
  from network_reachable [OF u] t show ?thesis by blast
qed

end
