(* ===== verification/TesterNet.thy ===== *)
theory TesterNet
  imports RaftSteps Labrpc
begin

text \<open>
  raft/config.go, the part of the tester that builds, crashes and partitions the cluster:
  \<open>make_config\<close>, \<open>start1\<close>, \<open>crash1\<close>, \<open>connect\<close> and \<open>disconnect\<close>, on the network of labrpc.go.
  Pointers to peers are numbers, \<open>heap\<close> holds the peers; the server object of a peer has the
  peer's number as its address. The names \<open>randstring\<close> gives are an argument: \<open>MakeEnd\<close> ends
  the process when a name is taken, so nothing is assumed of them.
\<close>

record 'c logEntry =
  valid :: bool
  command :: "'c option"

text \<open>
  A nil slice of names is \<open>None\<close>, as are a nil persister and a nil peer; of a stop channel it
  is known whether it has been closed.
\<close>

record ('c, 'a, 'r) config =
  cnet :: "(string, nat \<Rightarrow> 'c Raft, 'a, 'r) Network"
  cn :: nat
  rafts :: "nat option list"
  heap :: "nat \<Rightarrow> 'c Raft"
  connected :: "bool list"
  saved :: "'c gobval Persister option list"
  endnames :: "string list option list"
  logs :: "(int \<Rightarrow> 'c logEntry option) list"
  didRecv :: "bool list"
  expected :: "int list"
  numCommands :: "int list"
  rpcsAt0 :: int
  bytesAt0 :: int
  maxIndex :: int
  maxIndexAt0 :: int
  stopCh :: "bool option list"

definition emptyConfig :: "nat \<Rightarrow> (string, nat \<Rightarrow> 'c Raft, 'a, 'r) Network \<Rightarrow> ('c, 'a, 'r) config" where
  "emptyConfig n rn =
     \<lparr>cnet = rn, cn = n, rafts = replicate n None, heap = (\<lambda>p. undefined),
      connected = replicate n False, saved = replicate n None, endnames = replicate n None,
      logs = replicate n (\<lambda>i. None), didRecv = replicate n False, expected = replicate n 0,
      numCommands = replicate n 0,
      rpcsAt0 = 0, bytesAt0 = 0, maxIndex = 0, maxIndexAt0 = 0, stopCh = replicate n None\<rparr>"

text \<open>\<open>cfg.endnames[i][j]\<close>: indexing a nil slice panics.\<close>

definition endnameAt :: "nat \<Rightarrow> nat \<Rightarrow> ('c, 'a, 'r) config \<Rightarrow> string go" where
  "endnameAt i j cfg =
     (case endnames cfg ! i of None \<Rightarrow> Inl IndexOutOfRange | Some es \<Rightarrow> go_index es (int j))"

definition switchEnd ::
  "bool \<Rightarrow> nat \<Rightarrow> nat \<Rightarrow> ('c, 'a, 'r) config \<Rightarrow> ('c, 'a, 'r) config go" where
  "switchEnd yes i j cfg =
     (case endnameAt i j cfg of
        Inl e \<Rightarrow> Inl e | Inr e \<Rightarrow> Inr (cfg\<lparr>cnet := Enable e yes (cnet cfg)\<rparr>))"

definition connect :: "nat \<Rightarrow> ('c, 'a, 'r) config \<Rightarrow> ('c, 'a, 'r) config go" where
  "connect i cfg0 =
     (if i < length (connected cfg0)
      then let cfg = cfg0\<lparr>connected := (connected cfg0)[i := True]\<rparr> in
        case go_for (\<lambda>j c. if connected c ! j then switchEnd True i j c else Inr c) [0..<cn cfg] cfg of
          Inl e \<Rightarrow> Inl e
        | Inr cfg1 \<Rightarrow>
            go_for (\<lambda>j c. if connected c ! j then switchEnd True j i c else Inr c) [0..<cn cfg] cfg1
      else Inl IndexOutOfRange)"

definition disconnect :: "nat \<Rightarrow> ('c, 'a, 'r) config \<Rightarrow> ('c, 'a, 'r) config go" where
  "disconnect i cfg0 =
     (if i < length (connected cfg0)
      then let cfg = cfg0\<lparr>connected := (connected cfg0)[i := False]\<rparr> in
        case go_for (\<lambda>j c. if endnames c ! i \<noteq> None then switchEnd False i j c else Inr c)
               [0..<cn cfg] cfg of
          Inl e \<Rightarrow> Inl e
        | Inr cfg1 \<Rightarrow>
            go_for (\<lambda>j c. if endnames c ! j \<noteq> None then switchEnd False j i c else Inr c)
              [0..<cn cfg] cfg1
      else Inl IndexOutOfRange)"

text \<open>\<open>close(cfg.stopCh[i])\<close> panics on a nil or closed channel.\<close>

definition closeStop :: "nat \<Rightarrow> ('c, 'a, 'r) config \<Rightarrow> ('c, 'a, 'r) config go" where
  "closeStop i cfg =
     (if stopCh cfg ! i = Some False then Inr (cfg\<lparr>stopCh := (stopCh cfg)[i := Some True]\<rparr>)
      else Inl (ExplicitPanic ''close''))"

text \<open>
  The object \<open>saved[i]\<close> points to is the one a running peer persists to.
\<close>

definition savedAt :: "nat \<Rightarrow> ('c, 'a, 'r) config \<Rightarrow> 'c gobval Persister option" where
  "savedAt i cfg =
     (case (saved cfg ! i, rafts cfg ! i) of
        (Some ps, Some p) \<Rightarrow> Some (persister (heap cfg p)) | (x, _) \<Rightarrow> x)"

definition copySaved :: "nat \<Rightarrow> ('c, 'a, 'r) config \<Rightarrow> ('c, 'a, 'r) config" where
  "copySaved i cfg =
     (case savedAt i cfg of
        None \<Rightarrow> cfg | Some ps \<Rightarrow> cfg\<lparr>saved := (saved cfg)[i := Some (CopyPersister ps)]\<rparr>)"

definition crash1 :: "nat \<Rightarrow> ('c, 'a, 'r) config \<Rightarrow> ('c, 'a, 'r) config go" where
  "crash1 i cfg0 =
     (case disconnect i cfg0 of
        Inl e \<Rightarrow> Inl e
      | Inr cfg1 \<Rightarrow>
         (let cfg2 = copySaved i (cfg1\<lparr>cnet := DeleteServer (IntName (int i)) (cnet cfg1)\<rparr>) in
          case (case rafts cfg2 ! i of
                  None \<Rightarrow> Inr cfg2
                | Some p \<Rightarrow>
                   (case closeStop i cfg2 of
                      Inl e \<Rightarrow> Inl e
                    | Inr c \<Rightarrow> Inr (c\<lparr>heap := (heap c)(p := Kill (heap c p)),
                                    rafts := (rafts c)[i := None]\<rparr>))) of
            Inl e \<Rightarrow> Inl e
          | Inr cfg3 \<Rightarrow>
             (case savedAt i cfg3 of
                None \<Rightarrow> Inr cfg3
              | Some ps \<Rightarrow>
                 (let raftlog = ReadRaftState ps; snap = ReadSnapshot ps;
                      fresh = \<lparr>raftstate = [], snapshot = []\<rparr>
                  in Inr (cfg3\<lparr>saved := (saved cfg3)[i := Some (SaveStateAndSnapshot raftlog snap fresh)]\<rparr>)))))"

text \<open>
  \<open>start1\<close>: new end names, a copy of the saved persister, a new peer and its server. The
  reflected methods of a peer are \<open>methodsOf\<close>.
\<close>

definition makeEnds :: "nat \<Rightarrow> ('c, 'a, 'r) config \<Rightarrow> ('c, 'a, 'r) config go" where
  "makeEnds i cfg0 =
     go_for (\<lambda>j cfg.
         case endnameAt i j cfg of
           Inl e \<Rightarrow> Inl e
         | Inr e \<Rightarrow>
            (case MakeEnd e (cnet cfg) of
               Inl e \<Rightarrow> Inl e
             | Inr rn \<Rightarrow> Inr (cfg\<lparr>cnet := Connect e (IntName (int j)) rn\<rparr>)))
       [0..<cn cfg0] cfg0"

definition freshPersister :: "nat \<Rightarrow> ('c, 'a, 'r) config \<Rightarrow> 'c gobval Persister" where
  "freshPersister i cfg =
     (case savedAt i cfg of Some ps \<Rightarrow> CopyPersister ps | None \<Rightarrow> MakePersister)"

definition start1 ::
  "(nat \<Rightarrow> 'c Raft, 'a, 'r) reflected list \<Rightarrow> nat \<Rightarrow> string list \<Rightarrow> nat \<Rightarrow> ('c, 'a, 'r) config
   \<Rightarrow> ('c, 'a, 'r) config go" where
  "start1 methodsOf i names p cfg0 =
     (case crash1 i cfg0 of
        Inl e \<Rightarrow> Inl e
      | Inr cfg1 \<Rightarrow>
         (case makeEnds i (cfg1\<lparr>endnames := (endnames cfg1)[i := Some (take (cn cfg1) names)]\<rparr>) of
            Inl e \<Rightarrow> Inl e
          | Inr cfg2 \<Rightarrow>
             (let ps = freshPersister i cfg2;
                  cfg3 = cfg2\<lparr>expected := (expected cfg2)[i := 0],
                              saved := (saved cfg2)[i := Some ps],
                              stopCh := (stopCh cfg2)[i := Some False]\<rparr>
              in case Make (cn cfg3) i ps of
                   Inl e \<Rightarrow> Inl e
                 | Inr rf \<Rightarrow>
                     (let rn = cnet cfg3;
                          srv = AddService (MakeService ''Raft'' p methodsOf) MakeServer;
                          rn1 = rn\<lparr>objects := (objects rn)(p := srv)\<rparr>
                      in Inr (cfg3\<lparr>heap := (heap cfg3)(p := rf), rafts := (rafts cfg3)[i := Some p],
                                   didRecv := (didRecv cfg3)[i := False],
                                   cnet := AddServer (IntName (int i)) p rn1\<rparr>)))))"

definition make_config ::
  "(nat \<Rightarrow> 'c Raft, 'a, 'r) reflected list \<Rightarrow> nat \<Rightarrow> bool \<Rightarrow> (nat \<Rightarrow> string list) \<Rightarrow> (nat \<Rightarrow> nat)
   \<Rightarrow> (nat \<Rightarrow> (nat \<Rightarrow> 'c Raft, 'a, 'r) Server) \<Rightarrow> ('c, 'a, 'r) config go" where
  "make_config methodsOf n unreliable names ptr objs =
     (case go_for (\<lambda>i. start1 methodsOf i (names i) (ptr i)) [0..<n]
             (emptyConfig n (LongDelays False (Reliable (\<not> unreliable) (MakeNetwork objs)))) of
        Inl e \<Rightarrow> Inl e
      | Inr cfg \<Rightarrow> go_for connect [0..<n] cfg)"

text \<open>
  A test may take two minutes; \<open>elapsed\<close> are the nanoseconds since its start and \<open>hasFailed\<close>
  tells whether it has failed already.
\<close>

definition checkTimeout :: "bool \<Rightarrow> int \<Rightarrow> unit go" where
  "checkTimeout hasFailed elapsed =
     (if \<not> hasFailed \<and> elapsed > 120 * 1000000000
      then Inl (Fatal ''test took longer than 120 seconds'') else Inr ())"

definition cleanup :: "bool \<Rightarrow> int \<Rightarrow> ('c, 'a, 'r) config \<Rightarrow> ('c, 'a, 'r) config go" where
  "cleanup hasFailed elapsed cfg =
     (let killOne = (\<lambda>r h. case r of None \<Rightarrow> h | Some p \<Rightarrow> h(p := Kill (h p)))
      in case Cleanup (cnet cfg) of
           Inl e \<Rightarrow> Inl e
         | Inr rn \<Rightarrow>
            (case checkTimeout hasFailed elapsed of
               Inl e \<Rightarrow> Inl e
             | Inr _ \<Rightarrow> Inr (cfg\<lparr>heap := fold killOne (rafts cfg) (heap cfg), cnet := rn\<rparr>)))"

definition setunreliable :: "bool \<Rightarrow> ('c, 'a, 'r) config \<Rightarrow> ('c, 'a, 'r) config" where
  "setunreliable unrel cfg = cfg\<lparr>cnet := Reliable (\<not> unrel) (cnet cfg)\<rparr>"

definition setlongreordering :: "bool \<Rightarrow> ('c, 'a, 'r) config \<Rightarrow> ('c, 'a, 'r) config" where
  "setlongreordering longrel cfg = cfg\<lparr>cnet := LongReordering longrel (cnet cfg)\<rparr>"

text \<open>Maximum log size across all servers; a nil persister panics.\<close>

definition LogSize :: "('c, 'a, 'r) config \<Rightarrow> int go" where
  "LogSize cfg =
     go_for (\<lambda>i logsize. case savedAt i cfg of
         None \<Rightarrow> Inl NilDereference
       | Some ps \<Rightarrow> (let n = RaftStateSize ps in Inr (if n > logsize then n else logsize)))
       [0..<cn cfg] 0"

section \<open>The tester's operations as steps\<close>

text \<open>Between them the peers run, which changes the heap in any way.\<close>

datatype 'c testAction =
    ConnectPeer nat
  | DisconnectPeer nat
  | CrashPeer nat
  | StartPeer nat "string list" nat
  | SetUnreliable bool
  | SetReordering bool
  | PeersRun "nat \<Rightarrow> 'c Raft"

fun testOp ::
  "(nat \<Rightarrow> 'c Raft, 'a, 'r) reflected list \<Rightarrow> 'c testAction \<Rightarrow> ('c, 'a, 'r) config \<Rightarrow> ('c, 'a, 'r) config go"
where
  "testOp ms (ConnectPeer i) cfg = connect i cfg"
| "testOp ms (DisconnectPeer i) cfg = disconnect i cfg"
| "testOp ms (CrashPeer i) cfg = crash1 i cfg"
| "testOp ms (StartPeer i names p) cfg = start1 ms i names p cfg"
| "testOp ms (SetUnreliable b) cfg = Inr (setunreliable b cfg)"
| "testOp ms (SetReordering b) cfg = Inr (setlongreordering b cfg)"
| "testOp ms (PeersRun h) cfg = Inr (cfg\<lparr>heap := h\<rparr>)"

definition testStep ::
  "(nat \<Rightarrow> 'c Raft, 'a, 'r) reflected list \<Rightarrow> 'c testAction \<Rightarrow> ('c, 'a, 'r) config
   \<Rightarrow> ('c, 'a, 'r) config option" where
  "testStep ms a cfg = (case testOp ms a cfg of Inl e \<Rightarrow> None | Inr t \<Rightarrow> Some t)"

definition newNetwork :: "bool \<Rightarrow> (nat \<Rightarrow> (nat \<Rightarrow> 'c Raft, 'a, 'r) Server) \<Rightarrow> (string, nat \<Rightarrow> 'c Raft, 'a, 'r) Network" where
  "newNetwork unreliable objs = LongDelays False (Reliable (\<not> unreliable) (MakeNetwork objs))"

definition testInit :: "('c, 'a, 'r) config \<Rightarrow> bool" where
  "testInit cfg \<longleftrightarrow> (\<exists>n unreliable objs. cfg = emptyConfig n (newNetwork unreliable objs))"

section \<open>Which ends are enabled\<close>

definition nameOf :: "('c, 'a, 'r) config \<Rightarrow> nat \<Rightarrow> nat \<Rightarrow> string option" where
  "nameOf cfg i j =
     (if i < cn cfg \<and> j < cn cfg then
        (case endnames cfg ! i of
           None \<Rightarrow> None | Some es \<Rightarrow> if j < length es then Some (es ! j) else None)
      else None)"

lemma nameOf_cong:
  "endnames c = endnames d \<Longrightarrow> cn c = cn d \<Longrightarrow> nameOf c = nameOf d"
  by (simp add: nameOf_def fun_eq_iff)

lemma endnameAt_name:
  "endnameAt i j cfg = Inr e \<Longrightarrow> i < cn cfg \<Longrightarrow> j < cn cfg \<Longrightarrow> nameOf cfg i j = Some e"
  by (auto simp: endnameAt_def nameOf_def go_index_Inr slen_def split: option.splits)

definition net_inv :: "('c, 'a, 'r) config \<Rightarrow> bool" where
  "net_inv cfg \<longleftrightarrow>
     length (connected cfg) = cn cfg \<and> length (endnames cfg) = cn cfg \<and>
     (\<forall>i < cn cfg. connected cfg ! i \<longrightarrow> endnames cfg ! i \<noteq> None) \<and>
     (\<forall>i < cn cfg. endnames cfg ! i \<noteq> None \<longrightarrow> (\<forall>j < cn cfg. nameOf cfg i j \<noteq> None)) \<and>
     (\<forall>i j i' j' e. nameOf cfg i j = Some e \<and> nameOf cfg i' j' = Some e \<longrightarrow> i = i' \<and> j = j') \<and>
     (\<forall>i j e. nameOf cfg i j = Some e \<longrightarrow>
        e \<in> ends (cnet cfg) \<and> connections (cnet cfg) e = Some (IntName (int j))) \<and>
     (\<forall>e. enabled (cnet cfg) e \<longleftrightarrow>
        (\<exists>i j. nameOf cfg i j = Some e \<and> connected cfg ! i \<and> connected cfg ! j))"

text \<open>A loop of \<open>Enable\<close>s sets the ends it names and nothing else.\<close>

lemma switch_loop:
  assumes "go_for (\<lambda>j c. if Q j c then switchEnd yes (f j) (g j) c else Inr c) js cfg = Inr t"
    and "\<And>j c rn. Q j (c\<lparr>cnet := rn\<rparr>) = Q j c"
    and "\<And>j. j \<in> set js \<Longrightarrow> f j < cn cfg \<and> g j < cn cfg"
  shows "t = cfg\<lparr>cnet := (cnet cfg)\<lparr>enabled := (\<lambda>e.
    if \<exists>j \<in> set js. Q j cfg \<and> nameOf cfg (f j) (g j) = Some e then yes
    else enabled (cnet cfg) e)\<rparr>\<rparr>"
  using assms(1,3)
proof (induction js arbitrary: cfg)
  case Nil
  then show ?case by simp
next
  case (Cons j js)
  show ?case
  proof (cases "Q j cfg")
    case False
    with Cons.prems have "go_for (\<lambda>j c. if Q j c then switchEnd yes (f j) (g j) c else Inr c) js cfg
        = Inr t" by simp
    from Cons.IH [OF this] Cons.prems(2) False show ?thesis by simp
  next
    case True
    with Cons.prems(1) obtain c where c: "switchEnd yes (f j) (g j) cfg = Inr c"
      "go_for (\<lambda>j c. if Q j c then switchEnd yes (f j) (g j) c else Inr c) js c = Inr t"
      by (auto split: sum.splits)
    then obtain e where e: "endnameAt (f j) (g j) cfg = Inr e"
      and c': "c = cfg\<lparr>cnet := Enable e yes (cnet cfg)\<rparr>"
      by (auto simp: switchEnd_def split: sum.splits)
    have n: "nameOf cfg (f j) (g j) = Some e"
      using endnameAt_name [OF e] Cons.prems(2) by simp
    have same: "nameOf c = nameOf cfg" by (rule nameOf_cong) (simp_all add: c')
    from Cons.IH [OF c(2)] Cons.prems(2) have t: "t = c\<lparr>cnet := (cnet c)\<lparr>enabled := (\<lambda>e.
        if \<exists>j \<in> set js. Q j c \<and> nameOf c (f j) (g j) = Some e then yes
        else enabled (cnet c) e)\<rparr>\<rparr>" by (simp add: c')
    show ?thesis unfolding t same using True n
      by (auto simp: c' assms(2) Enable_def fun_eq_iff intro!: config.equality Network.equality)
  qed
qed

lemma connect_effect:
  assumes "connect i cfg = Inr t" and "i < cn cfg"
  shows "t = cfg\<lparr>connected := (connected cfg)[i := True],
    cnet := (cnet cfg)\<lparr>enabled := (\<lambda>e. (\<exists>j < cn cfg. (connected cfg)[i := True] ! j \<and>
      (nameOf cfg i j = Some e \<or> nameOf cfg j i = Some e)) \<or> enabled (cnet cfg) e)\<rparr>\<rparr>"
proof -
  let ?c = "cfg\<lparr>connected := (connected cfg)[i := True]\<rparr>"
  from assms obtain u where
    u: "go_for (\<lambda>j c. if connected c ! j then switchEnd True i j c else Inr c) [0..<cn cfg] ?c = Inr u"
       "go_for (\<lambda>j c. if connected c ! j then switchEnd True j i c else Inr c) [0..<cn cfg] u = Inr t"
    by (auto simp: connect_def Let_def split: if_splits sum.splits)
  have n: "nameOf ?c = nameOf cfg" by (rule nameOf_cong) simp_all
  note u1 = switch_loop [OF u(1)]
  from u1 assms(2) have u1: "u = ?c\<lparr>cnet := (cnet cfg)\<lparr>enabled := (\<lambda>e.
      if \<exists>j \<in> set [0..<cn cfg]. connected ?c ! j \<and> nameOf cfg i j = Some e then True
      else enabled (cnet cfg) e)\<rparr>\<rparr>" by (simp add: n)
  have n2: "nameOf u = nameOf cfg" by (rule nameOf_cong) (simp_all add: u1)
  from switch_loop [OF u(2)] assms(2) have "t = u\<lparr>cnet := (cnet u)\<lparr>enabled := (\<lambda>e.
      if \<exists>j \<in> set [0..<cn cfg]. connected u ! j \<and> nameOf u j i = Some e then True
      else enabled (cnet u) e)\<rparr>\<rparr>" by (simp add: u1)
  then have "t = ?c\<lparr>cnet := (cnet cfg)\<lparr>enabled := (\<lambda>e.
      if \<exists>j \<in> set [0..<cn cfg]. (connected cfg)[i := True] ! j \<and> nameOf cfg j i = Some e then True
      else if \<exists>j \<in> set [0..<cn cfg]. (connected cfg)[i := True] ! j \<and> nameOf cfg i j = Some e then True
      else enabled (cnet cfg) e)\<rparr>\<rparr>" unfolding n2 by (simp add: u1)
  moreover have "(\<lambda>e.
      if \<exists>j \<in> set [0..<cn cfg]. (connected cfg)[i := True] ! j \<and> nameOf cfg j i = Some e then True
      else if \<exists>j \<in> set [0..<cn cfg]. (connected cfg)[i := True] ! j \<and> nameOf cfg i j = Some e then True
      else enabled (cnet cfg) e) = (\<lambda>e. (\<exists>j < cn cfg. (connected cfg)[i := True] ! j \<and>
      (nameOf cfg i j = Some e \<or> nameOf cfg j i = Some e)) \<or> enabled (cnet cfg) e)"
    by (intro ext) auto
  ultimately show ?thesis by simp
qed

lemma disconnect_effect:
  assumes "disconnect i cfg = Inr t" and "i < cn cfg"
  shows "t = cfg\<lparr>connected := (connected cfg)[i := False],
    cnet := (cnet cfg)\<lparr>enabled := (\<lambda>e. enabled (cnet cfg) e \<and>
      \<not> (\<exists>j. nameOf cfg i j = Some e \<or> nameOf cfg j i = Some e))\<rparr>\<rparr>"
proof -
  let ?c = "cfg\<lparr>connected := (connected cfg)[i := False]\<rparr>"
  from assms obtain u where
    u: "go_for (\<lambda>j c. if endnames c ! i \<noteq> None then switchEnd False i j c else Inr c) [0..<cn cfg] ?c = Inr u"
       "go_for (\<lambda>j c. if endnames c ! j \<noteq> None then switchEnd False j i c else Inr c) [0..<cn cfg] u = Inr t"
    by (auto simp: disconnect_def Let_def split: if_splits sum.splits)
  have n: "nameOf ?c = nameOf cfg" by (rule nameOf_cong) simp_all
  from switch_loop [OF u(1)] assms(2) have u1: "u = ?c\<lparr>cnet := (cnet cfg)\<lparr>enabled := (\<lambda>e.
      if \<exists>j \<in> set [0..<cn cfg]. endnames cfg ! i \<noteq> None \<and> nameOf cfg i j = Some e then False
      else enabled (cnet cfg) e)\<rparr>\<rparr>" by (simp add: n)
  have n2: "nameOf u = nameOf cfg" by (rule nameOf_cong) (simp_all add: u1)
  have some: "nameOf cfg j k = Some e \<Longrightarrow> endnames cfg ! j \<noteq> None \<and> j < cn cfg \<and> k < cn cfg" for j k e
    by (auto simp: nameOf_def split: if_splits option.splits)
  from switch_loop [OF u(2)] assms(2) have "t = u\<lparr>cnet := (cnet u)\<lparr>enabled := (\<lambda>e.
      if \<exists>j \<in> set [0..<cn cfg]. endnames u ! j \<noteq> None \<and> nameOf u j i = Some e then False
      else enabled (cnet u) e)\<rparr>\<rparr>" by (simp add: u1)
  then have "t = ?c\<lparr>cnet := (cnet cfg)\<lparr>enabled := (\<lambda>e.
      if \<exists>j \<in> set [0..<cn cfg]. endnames cfg ! j \<noteq> None \<and> nameOf cfg j i = Some e then False
      else if \<exists>j \<in> set [0..<cn cfg]. endnames cfg ! i \<noteq> None \<and> nameOf cfg i j = Some e then False
      else enabled (cnet cfg) e)\<rparr>\<rparr>" unfolding n2 by (simp add: u1)
  moreover have "(\<lambda>e.
      if \<exists>j \<in> set [0..<cn cfg]. endnames cfg ! j \<noteq> None \<and> nameOf cfg j i = Some e then False
      else if \<exists>j \<in> set [0..<cn cfg]. endnames cfg ! i \<noteq> None \<and> nameOf cfg i j = Some e then False
      else enabled (cnet cfg) e) = (\<lambda>e. enabled (cnet cfg) e \<and>
      \<not> (\<exists>j. nameOf cfg i j = Some e \<or> nameOf cfg j i = Some e))"
  proof -
    have "(\<exists>j \<in> set [0..<cn cfg]. endnames cfg ! j \<noteq> None \<and> nameOf cfg j i = Some e) \<longleftrightarrow>
        (\<exists>j. nameOf cfg j i = Some e)" for e
      using some by (metis atLeastLessThan_iff set_upt zero_le)
    moreover have "(\<exists>j \<in> set [0..<cn cfg]. endnames cfg ! i \<noteq> None \<and> nameOf cfg i j = Some e) \<longleftrightarrow>
        (\<exists>j. nameOf cfg i j = Some e)" for e
      using some by (metis atLeastLessThan_iff set_upt zero_le)
    ultimately show ?thesis by (intro ext) (simp only: if_bool_eq_conj, blast)
  qed
  ultimately show ?thesis by simp
qed

lemma crash1_effect:
  assumes "crash1 i cfg = Inr t"
  obtains u where "disconnect i cfg = Inr u" "connected t = connected u"
    "endnames t = endnames u" "cn t = cn u"
    "cnet t = DeleteServer (IntName (int i)) (cnet u)"
proof -
  from assms obtain u where u: "disconnect i cfg = Inr u"
    by (auto simp: crash1_def split: sum.splits)
  have "connected t = connected u \<and> endnames t = endnames u \<and> cn t = cn u \<and> cnet t = DeleteServer (IntName (int i)) (cnet u)"
    using assms u
    by (auto simp: crash1_def Let_def copySaved_def closeStop_def
        split: sum.splits option.splits if_splits)
  with u show thesis by (blast intro: that)
qed

text \<open>New ends are disabled, connected to the server of their index, and their names are new.\<close>

definition ends_made :: "string list \<Rightarrow> nat list \<Rightarrow> (string, 's, 'a, 'r) Network \<Rightarrow> (string, 's, 'a, 'r) Network \<Rightarrow> bool" where
  "ends_made es js rn rn' \<longleftrightarrow>
     inj_on ((!) es) (set js) \<and> (!) es ` set js \<inter> ends rn = {} \<and>
     ends rn' = ends rn \<union> (!) es ` set js \<and>
     (\<forall>e. enabled rn' e \<longleftrightarrow> enabled rn e \<and> e \<notin> (!) es ` set js) \<and>
     (\<forall>j \<in> set js. j < length es \<and> connections rn' (es ! j) = Some (IntName (int j))) \<and>
     (\<forall>e. e \<notin> (!) es ` set js \<longrightarrow> connections rn' e = connections rn e)"

lemma makeEnds_loop:
  assumes "go_for (\<lambda>j cfg.
         case endnameAt i j cfg of
           Inl e \<Rightarrow> Inl e
         | Inr e \<Rightarrow>
            (case MakeEnd e (cnet cfg) of
               Inl e \<Rightarrow> Inl e
             | Inr rn \<Rightarrow> Inr (cfg\<lparr>cnet := Connect e (IntName (int j)) rn\<rparr>))) js cfg = Inr t"
    and "endnames cfg ! i = Some es" and "distinct js"
  shows "\<exists>rn. t = cfg\<lparr>cnet := rn\<rparr> \<and> ends_made es js (cnet cfg) rn"
  using assms
proof (induction js arbitrary: cfg)
  case Nil
  then show ?case by (intro exI [of _ "cnet cfg"]) (simp add: ends_made_def)
next
  case (Cons j js)
  let ?e = "es ! j"
  from Cons.prems(1,2) obtain rn where j: "j < length es" and new: "?e \<notin> ends (cnet cfg)"
    and rn: "MakeEnd ?e (cnet cfg) = Inr rn"
    and rest: "go_for (\<lambda>j cfg.
         case endnameAt i j cfg of
           Inl e \<Rightarrow> Inl e
         | Inr e \<Rightarrow>
            (case MakeEnd e (cnet cfg) of
               Inl e \<Rightarrow> Inl e
             | Inr rn \<Rightarrow> Inr (cfg\<lparr>cnet := Connect e (IntName (int j)) rn\<rparr>))) js
        (cfg\<lparr>cnet := Connect ?e (IntName (int j)) rn\<rparr>) = Inr t"
    by (auto simp: endnameAt_def go_index_def MakeEnd_def slen_def split: sum.splits if_splits)
  from Cons.IH [OF rest] Cons.prems(2,3) obtain rn' where
    t: "t = cfg\<lparr>cnet := rn'\<rparr>" and m: "ends_made es js (Connect ?e (IntName (int j)) rn) rn'" by auto
  have nj: "j \<notin> set js" using Cons.prems(3) by simp
  from rn new have r: "ends rn = insert ?e (ends (cnet cfg))" "enabled rn = (enabled (cnet cfg))(?e := False)"
    "connections rn = (connections (cnet cfg))(?e := None)" by (auto simp: MakeEnd_def)
  from m r have fresh: "?e \<notin> (!) es ` set js" by (auto simp: ends_made_def Connect_def)
  with m r new j nj have "ends_made es (j # js) (cnet cfg) rn'"
    unfolding ends_made_def by (auto simp: Connect_def)
  with t show ?case by blast
qed

section \<open>The invariant\<close>

lemma nameOf_some: "nameOf cfg i j = Some e \<Longrightarrow> i < cn cfg \<and> j < cn cfg"
  by (simp add: nameOf_def split: if_splits)

lemma net_inv_connect:
  assumes inv: "net_inv cfg" and t: "connect i cfg = Inr t" and i: "i < cn cfg"
    and known: "endnames cfg ! i \<noteq> None"
  shows "net_inv t"
proof -
  note e = connect_effect [OF t i]
  have n: "nameOf t = nameOf cfg" by (rule nameOf_cong) (simp_all add: e)
  have len: "length (connected cfg) = cn cfg" using inv by (simp add: net_inv_def)
  have "enabled (cnet t) x \<longleftrightarrow>
      (\<exists>k j. nameOf cfg k j = Some x \<and> connected t ! k \<and> connected t ! j)" for x
  proof -
    have "enabled (cnet cfg) x \<longleftrightarrow> (\<exists>k j. nameOf cfg k j = Some x \<and> connected cfg ! k \<and> connected cfg ! j)"
      using inv by (simp add: net_inv_def)
    then show ?thesis using i len nameOf_some [of cfg]
      by (auto simp: e nth_list_update split: if_splits; metis)
  qed
  with inv known i len show ?thesis unfolding net_inv_def n
    by (auto simp: e nth_list_update)
qed

lemma net_inv_disconnect:
  assumes inv: "net_inv cfg" and t: "disconnect i cfg = Inr t" and i: "i < cn cfg"
  shows "net_inv t"
proof -
  note e = disconnect_effect [OF t i]
  have n: "nameOf t = nameOf cfg" by (rule nameOf_cong) (simp_all add: e)
  have len: "length (connected cfg) = cn cfg" using inv by (simp add: net_inv_def)
  have inj: "nameOf cfg a b = Some x \<Longrightarrow> nameOf cfg a' b' = Some x \<Longrightarrow> a = a' \<and> b = b'" for a b a' b' x
    using inv unfolding net_inv_def by blast
  have "enabled (cnet t) x \<longleftrightarrow>
      (\<exists>k j. nameOf cfg k j = Some x \<and> connected t ! k \<and> connected t ! j)" for x
  proof -
    have "enabled (cnet cfg) x \<longleftrightarrow> (\<exists>k j. nameOf cfg k j = Some x \<and> connected cfg ! k \<and> connected cfg ! j)"
      using inv by (simp add: net_inv_def)
    then show ?thesis using i len nameOf_some [of cfg] inj
      by (auto simp: e nth_list_update split: if_splits; metis)
  qed
  with inv i len show ?thesis unfolding net_inv_def n
    by (auto simp: e nth_list_update)
qed

lemma connect_known:
  assumes "connect i cfg = Inr t" and "i < cn cfg" and "length (connected cfg) = cn cfg"
  shows "endnames cfg ! i \<noteq> None"
proof
  assume none: "endnames cfg ! i = None"
  have "i \<notin> set js" if "go_for (\<lambda>j c. if connected c ! j then switchEnd True i j c else Inr c) js c = Inr u"
    "endnames c ! i = None" "connected c ! i" for js c u
    using that by (induction js arbitrary: c)
      (auto simp: switchEnd_def endnameAt_def split: sum.splits if_splits)
  moreover from assms obtain u where
    "go_for (\<lambda>j c. if connected c ! j then switchEnd True i j c else Inr c) [0..<cn cfg]
       (cfg\<lparr>connected := (connected cfg)[i := True]\<rparr>) = Inr u"
    by (auto simp: connect_def Let_def split: if_splits sum.splits)
  ultimately have "i \<notin> set [0..<cn cfg]" using none assms(2,3) by fastforce
  with assms(2) show False by simp
qed

lemma net_inv_crash:
  assumes inv: "net_inv cfg" and t: "crash1 i cfg = Inr t" and i: "i < cn cfg"
  shows "net_inv t \<and> \<not> connected t ! i \<and> cn t = cn cfg"
proof -
  from t obtain u where u: "disconnect i cfg = Inr u" and c: "connected t = connected u"
    "endnames t = endnames u" "cn t = cn u" "cnet t = DeleteServer (IntName (int i)) (cnet u)"
    by (rule crash1_effect)
  have "net_inv u" by (rule net_inv_disconnect [OF inv u i])
  moreover have "nameOf t = nameOf u" by (rule nameOf_cong) (simp_all add: c)
  ultimately have "net_inv t" by (simp add: net_inv_def c DeleteServer_def)
  moreover have "length (connected cfg) = cn cfg" using inv by (simp add: net_inv_def)
  ultimately show ?thesis using disconnect_effect [OF u i] i c by simp
qed

lemma start1_effect:
  assumes "start1 ms i names p cfg = Inr t"
  obtains u rn where "crash1 i cfg = Inr u"
    "makeEnds i (u\<lparr>endnames := (endnames u)[i := Some (take (cn u) names)]\<rparr>) = Inr rn"
    "connected t = connected rn" "endnames t = endnames rn" "cn t = cn rn"
    "enabled (cnet t) = enabled (cnet rn)" "ends (cnet t) = ends (cnet rn)"
    "connections (cnet t) = connections (cnet rn)"
  using assms
  by (auto simp: start1_def Let_def AddServer_def split: sum.splits)

lemma net_inv_start:
  assumes inv: "net_inv cfg" and t: "start1 ms i names p cfg = Inr t" and i: "i < cn cfg"
  shows "net_inv t"
proof -
  from t obtain u v where u: "crash1 i cfg = Inr u"
    and v: "makeEnds i (u\<lparr>endnames := (endnames u)[i := Some (take (cn u) names)]\<rparr>) = Inr v"
    and tv: "connected t = connected v" "endnames t = endnames v" "cn t = cn v"
    "enabled (cnet t) = enabled (cnet v)" "ends (cnet t) = ends (cnet v)"
    "connections (cnet t) = connections (cnet v)" by (rule start1_effect)
  let ?es = "take (cn u) names"
  let ?c = "u\<lparr>endnames := (endnames u)[i := Some ?es]\<rparr>"
  from net_inv_crash [OF inv u i] have iu: "net_inv u" "\<not> connected u ! i" and n: "cn u = cn cfg" by auto
  then have len: "length (endnames u) = cn u" "length (connected u) = cn u" by (auto simp: net_inv_def)
  have "endnames ?c ! i = Some ?es" using len n i by simp
  from makeEnds_loop [OF v [unfolded makeEnds_def] this] obtain rn where
    v': "v = ?c\<lparr>cnet := rn\<rparr>" and m: "ends_made ?es [0..<cn u] (cnet u) rn" by auto
  have all: "j < length ?es" if "j < cn u" for j using m that by (simp add: ends_made_def)
  have nm: "nameOf t a b = (if a = i \<and> b < cn u then Some (?es ! b) else nameOf u a b)" for a b
    using len n i all [of b] by (auto simp: nameOf_def tv v')
  have old: "nameOf u a b = Some x \<Longrightarrow> x \<in> ends (cnet u) \<and> x \<notin> (!) ?es ` {0..<cn u}" for a b x
    using iu(1) m by (auto simp: net_inv_def ends_made_def)
  have inj: "nameOf u a b = Some x \<Longrightarrow> nameOf u a' b' = Some x \<Longrightarrow> a = a' \<and> b = b'" for a b a' b' x
    using iu(1) unfolding net_inv_def by blast
  have conn: "connected t = connected u" by (simp add: tv v')
  have new: "?es ! b \<notin> ends (cnet u)" if "b < cn u" for b
  proof -
    from m have "(!) ?es ` set [0..<cn u] \<inter> ends (cnet u) = {}" unfolding ends_made_def by blast
    with that show ?thesis by (metis IntI atLeastLessThan_iff empty_iff imageI set_upt zero_le)
  qed
  have en: "enabled (cnet u) x \<longleftrightarrow> (\<exists>a b. nameOf u a b = Some x \<and> connected u ! a \<and> connected u ! b)" for x
    using iu(1) by (simp add: net_inv_def)
  have "enabled (cnet t) x \<longleftrightarrow> (\<exists>a b. nameOf t a b = Some x \<and> connected t ! a \<and> connected t ! b)" for x
  proof -
    have "enabled (cnet t) x \<longleftrightarrow> enabled (cnet u) x"
      using m en [of x] old by (auto simp: tv v' ends_made_def)
    also have "\<dots> \<longleftrightarrow> (\<exists>a b. nameOf t a b = Some x \<and> connected t ! a \<and> connected t ! b)"
      unfolding en conn nm using iu(2) by auto
    finally show ?thesis .
  qed
  moreover have "a = a' \<and> b = b'" if "nameOf t a b = Some x" "nameOf t a' b' = Some x" for a b a' b' x
  proof -
    have ie: "?es ! b = ?es ! b' \<Longrightarrow> b < cn u \<Longrightarrow> b' < cn u \<Longrightarrow> b = b'"
      using m by (auto simp: ends_made_def inj_on_def)
    from that nameOf_some [OF that(1)] nameOf_some [OF that(2)] show ?thesis
      unfolding nm using inj [of a b x a' b'] ie new [of b] new [of b'] old
      by (auto split: if_splits; blast)
  qed
  moreover have "x \<in> ends (cnet t) \<and> connections (cnet t) x = Some (IntName (int b))"
    if "nameOf t a b = Some x" for a b x
    using that iu(1) m old [of a b x]
    by (auto simp: nm tv v' ends_made_def net_inv_def split: if_splits)
  moreover have "\<forall>a < cn t. endnames t ! a \<noteq> None \<longrightarrow> (\<forall>j < cn t. nameOf t a j \<noteq> None)"
    using iu(1) len by (auto simp: nm tv v' net_inv_def nth_list_update split: if_splits)
  moreover have "\<forall>a < cn t. connected t ! a \<longrightarrow> endnames t ! a \<noteq> None"
  proof (intro allI impI)
    fix a assume "a < cn t" "connected t ! a"
    with iu(1) have "endnames u ! a \<noteq> None" by (simp add: tv v' net_inv_def)
    with \<open>a < cn t\<close> len show "endnames t ! a \<noteq> None" by (cases "a = i") (simp_all add: tv v')
  qed
  ultimately show ?thesis using len unfolding net_inv_def by (simp add: tv v') metis
qed

lemma testStep_index:
  assumes "net_inv cfg" and "connect i cfg = Inr t \<or> disconnect i cfg = Inr t"
  shows "i < cn cfg"
  using assms by (auto simp: net_inv_def connect_def disconnect_def split: if_splits)

lemma net_inv_step:
  assumes inv: "net_inv cfg" and step: "testStep ms a cfg = Some t"
  shows "net_inv t"
proof (cases a)
  case (ConnectPeer i)
  with step have t: "connect i cfg = Inr t" by (simp add: testStep_def split: sum.splits)
  with testStep_index [OF inv] have i: "i < cn cfg" by blast
  from inv have "length (connected cfg) = cn cfg" by (simp add: net_inv_def)
  from net_inv_connect [OF inv t i connect_known [OF t i this]] show ?thesis .
next
  case (DisconnectPeer i)
  with step have t: "disconnect i cfg = Inr t" by (simp add: testStep_def split: sum.splits)
  with testStep_index [OF inv] have i: "i < cn cfg" by blast
  from net_inv_disconnect [OF inv t i] show ?thesis .
next
  case (CrashPeer i)
  with step have t: "crash1 i cfg = Inr t" by (simp add: testStep_def split: sum.splits)
  then obtain u where "disconnect i cfg = Inr u" by (rule crash1_effect)
  with testStep_index [OF inv] have i: "i < cn cfg" by blast
  from net_inv_crash [OF inv t i] show ?thesis ..
next
  case (StartPeer i names p)
  with step have t: "start1 ms i names p cfg = Inr t" by (simp add: testStep_def split: sum.splits)
  then obtain u where "crash1 i cfg = Inr u" by (rule start1_effect)
  then obtain v where "disconnect i cfg = Inr v" by (rule crash1_effect)
  with testStep_index [OF inv] have i: "i < cn cfg" by blast
  from net_inv_start [OF inv t i] show ?thesis .
next
  case (SetUnreliable b)
  with step have t: "t = setunreliable b cfg" by (simp add: testStep_def)
  have "nameOf t = nameOf cfg" by (rule nameOf_cong) (simp_all add: t setunreliable_def)
  with inv show ?thesis by (simp add: net_inv_def t setunreliable_def Reliable_def)
next
  case (SetReordering b)
  with step have t: "t = setlongreordering b cfg" by (simp add: testStep_def)
  have "nameOf t = nameOf cfg" by (rule nameOf_cong) (simp_all add: t setlongreordering_def)
  with inv show ?thesis by (simp add: net_inv_def t setlongreordering_def LongReordering_def)
next
  case (PeersRun h)
  with step have t: "t = cfg\<lparr>heap := h\<rparr>" by (simp add: testStep_def)
  have "nameOf t = nameOf cfg" by (rule nameOf_cong) (simp_all add: t)
  with inv show ?thesis by (simp add: net_inv_def t)
qed

interpretation tester: invariant testInit "testStep ms" net_inv
proof
  fix cfg assume "testInit cfg"
  then show "net_inv cfg"
    by (auto simp: testInit_def net_inv_def emptyConfig_def nameOf_def newNetwork_def
        LongDelays_def Reliable_def MakeNetwork_def)
next
  fix s a t assume "net_inv s" "testStep ms a s = Some t"
  then show "net_inv t" by (rule net_inv_step)
qed

text \<open>C30. The tester's partitions are exact. Whatever was crashed, restarted, connected and
  disconnected before, an end of the network lets calls through if and only if it is the current
  end of a connected peer to a connected peer, and then it leads to that peer: no end of a
  crashed incarnation is enabled, and no two connected peers are cut off from each other.\<close>

theorem partitions_exact:
  assumes "reachable testInit (testStep ms) cfg"
  shows "(enabled (cnet cfg) e \<longleftrightarrow>
      (\<exists>i j. nameOf cfg i j = Some e \<and> connected cfg ! i \<and> connected cfg ! j)) \<and>
    (\<forall>i j. nameOf cfg i j = Some e \<longrightarrow> connections (cnet cfg) e = Some (IntName (int j)))"
  using tester.reachable_inv [OF assms] by (simp add: net_inv_def)

section \<open>Crashes on the network\<close>

text \<open>The calls over an end, and those to a server object, whose reply is not on its way yet.\<close>

fun pendingOver :: "string \<Rightarrow> (string, 'a, 'r) call \<Rightarrow> bool" where
  "pendingOver e (Requested req) = (endname req = e)"
| "pendingOver e (Running req name addr rel lr) = (endname req = e)"
| "pendingOver e (Returned req name addr rel lr rep) = (endname req = e)"
| "pendingOver e _ = False"

fun pendingAt :: "serverName \<Rightarrow> nat \<Rightarrow> (string, 'a, 'r) call \<Rightarrow> bool" where
  "pendingAt name addr (Running req n a rel lr) = (n = name \<and> a = addr)"
| "pendingAt name addr (Returned req n a rel lr rep) = (n = name \<and> a = addr)"
| "pendingAt name addr _ = False"

lemma pendingOver_cutOff: "pendingOver e x \<Longrightarrow> shut acts rn e \<Longrightarrow> cutOff acts rn x"
  by (cases x) auto

lemma pendingAt_cutOff: "pendingAt name addr x \<Longrightarrow> gone acts rn name addr \<Longrightarrow> cutOff acts rn x"
  by (cases x) auto

lemma crash_cuts:
  assumes "crash1 i cfg = Inr cfg'" and "i < cn cfg"
  shows "servers (cnet cfg') (IntName (int i)) = None"
    and "nameOf cfg i j = Some e \<or> nameOf cfg j i = Some e \<Longrightarrow> \<not> enabled (cnet cfg') e"
proof -
  from assms(1) obtain u where u: "disconnect i cfg = Inr u"
    "cnet cfg' = DeleteServer (IntName (int i)) (cnet u)" by (rule crash1_effect)
  show "servers (cnet cfg') (IntName (int i)) = None" by (simp add: u(2) DeleteServer_def)
  show "\<not> enabled (cnet cfg') e" if "nameOf cfg i j = Some e \<or> nameOf cfg j i = Some e"
    using that unfolding u(2) disconnect_effect [OF u(1) assms(2)] by (auto simp: DeleteServer_def)
qed

text \<open>A crash isolates the peer, on the network as it is: after \<open>crash1\<close> no call that the peer
  has sent or that was sent to it, over the ends it had then, and no call to its server object
  is answered with success, unless the reply was on its way already. What the network does
  meanwhile is arbitrary, a restart of the peer under the same name included, as long as
  the old ends stay disabled and the old object is not added again.\<close>

theorem crash_isolates:
  assumes "crash1 i cfg = Inr cfg'" and "i < cn cfg" and "net s = cnet cfg'"
    and "run_actions (rpcStep al rl) acts s = Some t" and "c < length (rpcs s)"
    and "(\<exists>e j. pendingOver e (rpcs s ! c) \<and> (nameOf cfg i j = Some e \<or> nameOf cfg j i = Some e) \<and>
         Configure (EnableEnd e True) \<notin> set acts) \<or>
       (\<exists>p. pendingAt (IntName (int i)) p (rpcs s ! c) \<and>
         Configure (NewServer (IntName (int i)) p) \<notin> set acts)"
    and "rpcs t ! c = Answered req rep"
  shows "\<not> ok rep"
proof -
  have "cutOff (set acts) (net s) (rpcs s ! c)"
    using assms(6)
  proof (elim disjE exE conjE)
    fix p assume p: "pendingAt (IntName (int i)) p (rpcs s ! c)"
      "Configure (NewServer (IntName (int i)) p) \<notin> set acts"
    from crash_cuts(1) [OF assms(1,2)] p(2) have "gone (set acts) (net s) (IntName (int i)) p"
      by (simp add: gone_def assms(3))
    with p(1) show ?thesis by (rule pendingAt_cutOff)
  next
    fix e j assume "pendingOver e (rpcs s ! c)" "nameOf cfg i j = Some e"
      "Configure (EnableEnd e True) \<notin> set acts"
    with crash_cuts(2) [OF assms(1,2), of j e] show ?thesis
      by (auto intro!: pendingOver_cutOff simp: shut_def assms(3))
  next
    fix e j assume "pendingOver e (rpcs s ! c)" "nameOf cfg j i = Some e"
      "Configure (EnableEnd e True) \<notin> set acts"
    with crash_cuts(2) [OF assms(1,2), of j e] show ?thesis
      by (auto intro!: pendingOver_cutOff simp: shut_def assms(3))
  qed
  from cutOff_run [OF assms(4) order_refl assms(5) this] assms(7) show ?thesis by simp
qed

text \<open>Three peers; peer 2 is crashed and restarted, and peers 0 and 1 are cut off from each other.\<close>

definition testSchedule :: "nat testAction list" where
  "testSchedule =
     [StartPeer 0 [''a'', ''b'', ''c''] 10, StartPeer 1 [''d'', ''e'', ''f''] 11,
      StartPeer 2 [''g'', ''h'', ''i''] 12, ConnectPeer 0, ConnectPeer 1, ConnectPeer 2,
      CrashPeer 2, StartPeer 2 [''j'', ''k'', ''l''] 13, ConnectPeer 2, DisconnectPeer 1]"

lemma test_run:
  "case run_actions (testStep []) testSchedule
          (emptyConfig 3 (newNetwork False (\<lambda>p. MakeServer)) :: (nat, nat, nat) config) of
     None \<Rightarrow> False
   | Some s \<Rightarrow> nameOf s 0 2 = Some ''c'' \<and> connected s ! 0 \<and> connected s ! 2 \<and>
       connections (cnet s) ''c'' = Some (IntName 2) \<and> servers (cnet s) (IntName 2) = Some 13"
  by code_simp

theorem partitions_exact_witness:
  "\<exists>cfg :: (nat, nat, nat) config. reachable testInit (testStep []) cfg \<and>
     nameOf cfg 0 2 = Some ''c'' \<and> enabled (cnet cfg) ''c'' \<and>
     servers (cnet cfg) (IntName 2) = Some 13"
proof -
  from test_run obtain s :: "(nat, nat, nat) config" where
    s: "run_actions (testStep []) testSchedule (emptyConfig 3 (newNetwork False (\<lambda>p. MakeServer))) = Some s"
    "nameOf s 0 2 = Some ''c''" "connected s ! 0" "connected s ! 2" "servers (cnet s) (IntName 2) = Some 13"
    by (auto simp del: run_actions.simps split: option.splits)
  have r: "reachable testInit (testStep []) s"
    by (rule reachable_run [OF reach_init s(1)]) (auto simp: testInit_def)
  from partitions_exact [OF r, of "''c''"] r s show ?thesis by blast
qed

text \<open>Peer 0 sends a number to peer 2, whose handler returns it before the peer crashes.\<close>

definition echo :: "(nat \<Rightarrow> nat Raft, nat, nat) reflected list" where
  "echo = [\<lparr>Name = ''Echo'', PkgPath = '''', NumIn = 3, In2Ptr = True, NumOut = 0,
            Func = (\<lambda>p k h. Inr (h, k))\<rparr>]"

lemma crash_run:
  "case run_actions (testStep echo) testSchedule
          (emptyConfig 3 (newNetwork False (\<lambda>p. MakeServer)) :: (nat, nat, nat) config) of
     None \<Rightarrow> False
   | Some cfg \<Rightarrow>
      (case run_actions demoStep [SendCall ''c'' ''Raft.Echo'' 5, Begin 0, RunHandler 0]
              \<lparr>net = cnet cfg, store = heap cfg, rpcs = [], executed = []\<rparr> of
         None \<Rightarrow> False
       | Some s \<Rightarrow>
          (case crash1 2 (cfg\<lparr>cnet := net s\<rparr>) of
             Inl _ \<Rightarrow> False
           | Inr cfg' \<Rightarrow> cn cfg = 3 \<and> length (rpcs s) = 1 \<and>
              pendingAt (IntName 2) 13 (rpcs s ! 0) \<and>
              (case run_actions demoStep [Configure (NewServer (IntName 2) 14), CheckReply 0 False]
                      (s\<lparr>net := cnet cfg'\<rparr>) of
                 None \<Rightarrow> False
               | Some t \<Rightarrow> executed t = [(0, \<lparr>ok = True, reply = Some 5\<rparr>)] \<and>
                   rpcs t ! 0 = Answered \<lparr>endname = ''c'', svcMeth = ''Raft.Echo'', args = 5\<rparr> failed)))"
  by code_simp

theorem crash_isolates_witness:
  "\<exists>(cfg :: (nat, nat, nat) config) cfg' s t req rep. 2 < cn cfg \<and>
     crash1 2 cfg = Inr cfg' \<and> net s = cnet cfg' \<and> pendingAt (IntName 2) 13 (rpcs s ! 0) \<and>
     run_actions demoStep [Configure (NewServer (IntName 2) 14), CheckReply 0 False] s = Some t \<and>
     executed t = [(0, \<lparr>ok = True, reply = Some 5\<rparr>)] \<and> rpcs t ! 0 = Answered req rep \<and> \<not> ok rep"
proof -
  from crash_run obtain cfg cfg' :: "(nat, nat, nat) config"
    and s t :: "(string, nat \<Rightarrow> nat Raft, nat, nat) rpcSystem" and req rep where
    c: "crash1 2 (cfg\<lparr>cnet := net s\<rparr>) = Inr cfg'" "cn cfg = 3" "length (rpcs s) = 1"
      "pendingAt (IntName 2) 13 (rpcs s ! 0)"
      "run_actions demoStep [Configure (NewServer (IntName 2) 14), CheckReply 0 False]
         (s\<lparr>net := cnet cfg'\<rparr>) = Some t"
      "executed t = [(0, \<lparr>ok = True, reply = Some 5\<rparr>)]" "rpcs t ! 0 = Answered req rep"
    by (auto simp del: run_actions.simps split: option.splits sum.splits)
  have "\<not> ok rep"
    using c by (intro crash_isolates [OF c(1) _ _ c(5) _ _ c(7)]) auto
  with c show ?thesis
    by (intro exI [of _ "cfg\<lparr>cnet := net s\<rparr>"] exI [of _ cfg'] exI [of _ "s\<lparr>net := cnet cfg'\<rparr>"]
        exI [of _ t] exI [of _ req] exI [of _ rep]) simp
qed

text \<open>What \<open>make_config\<close> builds is reached by the same steps.\<close>

lemma make_config_reachable:
  assumes "make_config ms n unreliable names ptr objs = Inr cfg"
  shows "reachable testInit (testStep ms) cfg"
proof -
  let ?start = "\<lambda>i. start1 ms i (names i) (ptr i)"
  from assms obtain c where
    c: "go_for ?start [0..<n] (emptyConfig n (newNetwork unreliable objs)) = Inr c"
    and cfg: "go_for connect [0..<n] c = Inr cfg"
    by (auto simp: make_config_def newNetwork_def split: sum.splits)
  have st: "testStep ms (StartPeer i (names i) (ptr i)) s = Some t" if "?start i s = Inr t" for i s t
    using that by (simp add: testStep_def)
  have co: "testStep ms (ConnectPeer i) s = Some t" if "connect i s = Inr t" for i s t
    using that by (simp add: testStep_def)
  have "reachable testInit (testStep ms) (emptyConfig n (newNetwork unreliable objs))"
    by (rule reach_init) (auto simp: testInit_def)
  then have "reachable testInit (testStep ms) c"
    by (rule go_for_inv [OF _ _ c, rotated]) (rule reach_step [where step = "testStep ms", OF _ st])
  then show ?thesis
    by (rule go_for_inv [OF _ _ cfg, rotated]) (rule reach_step [where step = "testStep ms", OF _ co])
qed

end
