(* ===== verification/RaftCluster.thy ===== *)
theory RaftCluster
  imports TesterNet
begin

text \<open>
  The whole of a Raft test: peers (raft/raft.go) that call each other over the network of
  labrpc/labrpc.go, in a cluster that raft/config.go starts, crashes and partitions. RaftSystem
  has a network of its own, packets that may be lost; here a request is a \<open>Call\<close> of Labrpc,
  which runs a handler on the object it finds, and a crashed peer's goroutines go on with the
  old object. Every step is local to one peer object, to one call, or to the tester.
\<close>

section \<open>The RPC interface of a peer\<close>

datatype 'c raftArgs = VoteArgs RequestVoteArgs | AppArgs "'c AppendEntriesArgs"

datatype raftReply = VoteReply RequestVoteReply | AppReply AppendEntriesReply

text \<open>Reflection panics when a method is called with arguments of another type.\<close>

fun voteMethod :: "(nat \<Rightarrow> 'c Raft, 'c raftArgs, raftReply) rpc" where
  "voteMethod p (VoteArgs a) h =
     (let (rf, r) = RequestVote (h p) a in Inr (h(p := rf), VoteReply r))"
| "voteMethod p (AppArgs a) h = Inl (ExplicitPanic ''reflect.Value.Call'')"

fun appendMethod :: "(nat \<Rightarrow> 'c Raft, 'c raftArgs, raftReply) rpc" where
  "appendMethod p (AppArgs a) h =
     (case AppendEntries (h p) a of
        Inl e \<Rightarrow> Inl e | Inr (rf, r) \<Rightarrow> Inr (h(p := rf), AppReply r))"
| "appendMethod p (VoteArgs a) h = Inl (ExplicitPanic ''reflect.Value.Call'')"

text \<open>The exported methods of \<open>*Raft\<close>; only two look like handlers.\<close>

definition notAHandler :: "(nat \<Rightarrow> 'c Raft, 'c raftArgs, raftReply) rpc" where
  "notAHandler p a h = Inl (ExplicitPanic ''reflect.Value.Call'')"

definition raftMethods :: "(nat \<Rightarrow> 'c Raft, 'c raftArgs, raftReply) reflected list" where
  "raftMethods =
     [\<lparr>Name = ''AppendEntries'', PkgPath = '''', NumIn = 3, In2Ptr = True, NumOut = 0,
       Func = appendMethod\<rparr>,
      \<lparr>Name = ''CommitLog'', PkgPath = '''', NumIn = 1, In2Ptr = False, NumOut = 0,
       Func = notAHandler\<rparr>,
      \<lparr>Name = ''GetState'', PkgPath = '''', NumIn = 1, In2Ptr = False, NumOut = 2,
       Func = notAHandler\<rparr>,
      \<lparr>Name = ''Kill'', PkgPath = '''', NumIn = 1, In2Ptr = False, NumOut = 0,
       Func = notAHandler\<rparr>,
      \<lparr>Name = ''RequestVote'', PkgPath = '''', NumIn = 3, In2Ptr = True, NumOut = 0,
       Func = voteMethod\<rparr>,
      \<lparr>Name = ''Start'', PkgPath = '''', NumIn = 2, In2Ptr = False, NumOut = 3,
       Func = notAHandler\<rparr>]"

fun methodName :: "'c raftArgs \<Rightarrow> string" where
  "methodName (VoteArgs a) = ''Raft.RequestVote''"
| "methodName (AppArgs a) = ''Raft.AppendEntries''"

section \<open>Steps of one peer\<close>

text \<open>
  What RaftSystem says of a peer, without the system around it. A tick, a client's command or a
  round of the apply loop gives the new peer and the goroutines it starts.
\<close>

fun localAct :: "nat \<Rightarrow> 'c action \<Rightarrow> 'c Raft \<Rightarrow> ('c Raft \<times> 'c routine list) option" where
  "localAct n (ElectionTick i) rf =
     (if killed rf then None
      else if shouldStartElection rf then Some (resetElectionTimer rf, [ElectionSpawned i])
      else Some (rf, []))"
| "localAct n (HeartbeatTick i) rf =
     (if killed rf then None else Some (resetHeartbeatTimer rf, []))"
| "localAct n (HeartbeatSpawn i j) rf =
     (if j < n then
        (case requestHeartbeat rf j of
           Inl _ \<Rightarrow> None
         | Inr None \<Rightarrow> Some (rf, [])
         | Inr (Some (k, next, term)) \<Rightarrow> Some (rf, [Beating i k next term]))
      else None)"
| "localAct n (ClientStart i c) rf =
     (case Start rf c of Inl _ \<Rightarrow> None | Inr (rf', _, _, _) \<Rightarrow> Some (rf', []))"
| "localAct n (Apply i) rf = (case CommitLog rf of Inl _ \<Rightarrow> None | Inr rf' \<Rightarrow> Some (rf', []))"
| "localAct n _ rf = None"

fun actor :: "'c action \<Rightarrow> nat option" where
  "actor (ElectionTick i) = Some i"
| "actor (HeartbeatTick i) = Some i"
| "actor (HeartbeatSpawn i j) = Some i"
| "actor (ClientStart i c) = Some i"
| "actor (Apply i) = Some i"
| "actor _ = None"

text \<open>
  A goroutine runs to its next call, if it has one: the peer asked and the arguments. What it
  is then depends on the number the call gets.
\<close>

fun localRun :: "nat \<Rightarrow> 'c Raft \<Rightarrow> 'c routine
  \<Rightarrow> ('c Raft \<times> (nat \<Rightarrow> 'c routine) \<times> (nat \<times> 'c raftArgs) option) option" where
  "localRun n rf (ElectionSpawned i) =
     (let (rf', a) = electionBegin rf in Some (rf', \<lambda>c. Polling i a 0 1 1, None))"
| "localRun n rf (Polling i a p vc vg) =
     (if p < n
      then if p \<noteq> i then Some (rf, AwaitVote i a p vc vg, Some (p, VoteArgs a))
           else Some (rf, \<lambda>c. Polling i a (Suc p) vc vg, None)
      else (case electionEnd rf a vg of
              Inl _ \<Rightarrow> None | Inr rf' \<Rightarrow> Some (rf', \<lambda>c. Ended, None)))"
| "localRun n rf (Beating i j next term) =
     (if killed rf \<or> \<not> heartbeatGo rf term then Some (rf, \<lambda>c. Ended, None)
      else (case initiateAppendEntries rf next of
              Inl _ \<Rightarrow> None
            | Inr a \<Rightarrow> Some (rf, AwaitAppend i j next term a, Some (j, AppArgs a))))"
| "localRun n rf _ = None"

text \<open>Its call returns, with a reply or without one.\<close>

definition voteBack :: "nat \<Rightarrow> 'c Raft \<Rightarrow> nat \<Rightarrow> RequestVoteArgs \<Rightarrow> nat \<Rightarrow> int \<Rightarrow> int \<Rightarrow> RequestVoteReply
  \<Rightarrow> 'c Raft \<times> 'c routine" where
  "voteBack n rf i a p vc vg r =
     (let (vc', vg', stop) = electionTally n r vc vg
      in (electionStepDown rf a r, Polling i a (if stop then n else Suc p) vc' vg'))"

definition appendBack :: "'c Raft \<Rightarrow> nat \<Rightarrow> nat \<Rightarrow> int \<Rightarrow> int \<Rightarrow> 'c AppendEntriesArgs \<Rightarrow> AppendEntriesReply
  \<Rightarrow> ('c Raft \<times> 'c routine) option" where
  "appendBack rf i j next term a r =
     (case handleAppendEntriesResponse rf r a j next term of
        Inl _ \<Rightarrow> None
      | Inr (rf', next', again) \<Rightarrow> Some (rf', if again then Beating i j next' term else Ended))"

fun localReturn :: "nat \<Rightarrow> 'c Raft \<Rightarrow> 'c routine \<Rightarrow> raftReply option \<Rightarrow> ('c Raft \<times> 'c routine) option" where
  "localReturn n rf (AwaitVote i a p vc vg c) None =
     Some (voteBack n rf i a p vc vg zeroVoteReply)"
| "localReturn n rf (AwaitVote i a p vc vg c) (Some (VoteReply r)) =
     Some (voteBack n rf i a p vc vg r)"
| "localReturn n rf (AwaitAppend i j next term a c) None =
     appendBack rf i j next term a zeroAppendReply"
| "localReturn n rf (AwaitAppend i j next term a c) (Some (AppReply r)) =
     appendBack rf i j next term a r"
| "localReturn n rf _ _ = None"

fun awaits :: "'c routine \<Rightarrow> nat option" where
  "awaits (AwaitVote i a p vc vg c) = Some c"
| "awaits (AwaitAppend i j next term a c) = Some c"
| "awaits _ = None"

section \<open>The cluster\<close>

text \<open>
  The tester's configuration, the calls on its network, and the goroutines with the peer
  objects they belong to. \<open>dials p\<close> are the ends that \<open>start1\<close> gave the peer at \<open>p\<close>, its
  \<open>rf.peers\<close>; \<open>allocated\<close> are the addresses in use, so that a new peer gets a new one.
\<close>

record 'c cluster =
  cfg :: "('c, 'c raftArgs, raftReply) config"
  crpcs :: "(string, 'c raftArgs, raftReply) call list"
  cexec :: "(nat \<times> raftReply replyMsg) list"
  threads :: "(nat \<times> 'c routine) list"
  dials :: "nat \<Rightarrow> string list"
  allocated :: "nat set"

definition rpcView :: "'c cluster \<Rightarrow> (string, nat \<Rightarrow> 'c Raft, 'c raftArgs, raftReply) rpcSystem" where
  "rpcView cl = \<lparr>rpcSystem.net = cnet (cfg cl), store = heap (cfg cl), rpcs = crpcs cl,
                 executed = cexec cl\<rparr>"

definition fromRpc ::
  "(string, nat \<Rightarrow> 'c Raft, 'c raftArgs, raftReply) rpcSystem \<Rightarrow> 'c cluster \<Rightarrow> 'c cluster" where
  "fromRpc s cl = cl\<lparr>cfg := (cfg cl)\<lparr>cnet := rpcSystem.net s, heap := store s\<rparr>,
                     crpcs := rpcs s, cexec := executed s\<rparr>"

definition setPeer :: "nat \<Rightarrow> 'c Raft \<Rightarrow> 'c cluster \<Rightarrow> 'c cluster" where
  "setPeer p rf cl = cl\<lparr>cfg := (cfg cl)\<lparr>heap := (heap (cfg cl))(p := rf)\<rparr>\<rparr>"

text \<open>The actions of the network itself; its calls are sent by goroutines.\<close>

fun byNetwork :: "(string, 'c raftArgs) rpcAction \<Rightarrow> bool" where
  "byNetwork (Begin c) = True"
| "byNetwork (DropRequest c) = True"
| "byNetwork (RunHandler c) = True"
| "byNetwork (NoticeDead c) = True"
| "byNetwork (CheckReply c lose) = True"
| "byNetwork (SendReply c) = True"
| "byNetwork _ = False"

text \<open>The tester connects only peers that run, and a new peer is a new object.\<close>

fun byTester :: "'c cluster \<Rightarrow> 'c testAction \<Rightarrow> bool" where
  "byTester cl (ConnectPeer i) = (i < cn (cfg cl) \<and> rafts (cfg cl) ! i \<noteq> None)"
| "byTester cl (StartPeer i names p) = (p \<notin> allocated cl)"
| "byTester cl (PeersRun h) = False"
| "byTester cl _ = True"

fun afterTest :: "'c testAction \<Rightarrow> 'c cluster \<Rightarrow> 'c cluster" where
  "afterTest (StartPeer i names p) cl =
     cl\<lparr>allocated := insert p (allocated cl), dials := (dials cl)(p := take (cn (cfg cl)) names)\<rparr>"
| "afterTest _ cl = cl"

datatype 'c clusterAction =
    PeerActs nat "'c action"
  | ThreadRuns nat
  | ThreadReturns nat
  | NetworkActs "(string, 'c raftArgs) rpcAction"
  | TesterActs "'c testAction"

text \<open>
  What \<open>Call\<close> returned: nothing as long as it has not, else the reply if there is one. The
  caller of an orphan has its answer already.
\<close>

fun callOutcome :: "(string, 'c raftArgs, raftReply) call \<Rightarrow> raftReply option option" where
  "callOutcome (Answered req rep) = Some (if ok rep then reply rep else None)"
| "callOutcome (Refused req) = Some None"
| "callOutcome (Orphan req addr) = Some None"
| "callOutcome _ = None"

fun clusterStep :: "('c raftArgs \<Rightarrow> nat) \<Rightarrow> (raftReply \<Rightarrow> nat) \<Rightarrow> 'c clusterAction \<Rightarrow> 'c cluster
  \<Rightarrow> 'c cluster option" where
  "clusterStep al rl (PeerActs p a) cl =
     (let rf = heap (cfg cl) p in
      if p \<in> allocated cl \<and> actor a = Some (me rf) then
        (case localAct (cn (cfg cl)) a rf of
           None \<Rightarrow> None
         | Some (rf', rs) \<Rightarrow>
             Some ((setPeer p rf' cl)\<lparr>threads := threads cl @ map (Pair p) rs\<rparr>))
      else None)"
| "clusterStep al rl (ThreadRuns g) cl =
     (if g < length (threads cl) then
        let (p, r) = threads cl ! g in
        (case localRun (cn (cfg cl)) (heap (cfg cl) p) r of
           None \<Rightarrow> None
         | Some (rf, next, send) \<Rightarrow>
            let cl' = (setPeer p rf cl)\<lparr>threads := (threads cl)[g := (p, next (length (crpcs cl)))]\<rparr> in
            (case send of
               None \<Rightarrow> Some cl'
             | Some (q, a) \<Rightarrow>
                map_option (\<lambda>s. fromRpc s cl')
                  (rpcStep al rl (SendCall (dials cl p ! q) (methodName a) a) (rpcView cl'))))
      else None)"
| "clusterStep al rl (ThreadReturns g) cl =
     (if g < length (threads cl) then
        let (p, r) = threads cl ! g in
        (case awaits r of
           None \<Rightarrow> None
         | Some c \<Rightarrow>
            (case callOutcome (crpcs cl ! c) of
               None \<Rightarrow> None
             | Some x \<Rightarrow>
                (case localReturn (cn (cfg cl)) (heap (cfg cl) p) r x of
                   None \<Rightarrow> None
                 | Some (rf, r') \<Rightarrow>
                     Some ((setPeer p rf cl)\<lparr>threads := (threads cl)[g := (p, r')]\<rparr>))))
      else None)"
| "clusterStep al rl (NetworkActs a) cl =
     (if byNetwork a then map_option (\<lambda>s. fromRpc s cl) (rpcStep al rl a (rpcView cl)) else None)"
| "clusterStep al rl (TesterActs a) cl =
     (if byTester cl a
      then map_option (\<lambda>c. (afterTest a cl)\<lparr>cfg := c\<rparr>) (testStep raftMethods a (cfg cl))
      else None)"

definition emptyCluster :: "nat \<Rightarrow> bool \<Rightarrow> 'c cluster" where
  "emptyCluster n unreliable =
     \<lparr>cfg = emptyConfig n (newNetwork unreliable (\<lambda>p. MakeServer)), crpcs = [], cexec = [],
      threads = [], dials = (\<lambda>p. []), allocated = {}\<rparr>"

definition clusterInit :: "'c cluster \<Rightarrow> bool" where
  "clusterInit cl \<longleftrightarrow> (\<exists>n unreliable. cl = emptyCluster n unreliable)"

section \<open>Agreement with the steps of RaftSystem\<close>

fun actsFor :: "'c routine \<Rightarrow> nat option" where
  "actsFor (ElectionSpawned i) = Some i"
| "actsFor (Polling i a p vc vg) = Some i"
| "actsFor (AwaitVote i a p vc vg c) = Some i"
| "actsFor (Beating i j next term) = Some i"
| "actsFor (AwaitAppend i j next term a c) = Some i"
| "actsFor Ended = None"

fun requestPacket :: "nat \<Rightarrow> nat \<Rightarrow> 'c raftArgs \<Rightarrow> 'c packet" where
  "requestPacket c q (VoteArgs a) = VoteReq c q a"
| "requestPacket c q (AppArgs a) = AppReq c q a"

fun replyPacket :: "nat \<Rightarrow> nat \<Rightarrow> 'c raftArgs \<Rightarrow> raftReply \<Rightarrow> 'c packet" where
  "replyPacket c q (VoteArgs a) (VoteReply r) = VoteRep c q a r"
| "replyPacket c q (AppArgs a) (AppReply r) = AppRep c q a r"
| "replyPacket c q a r = requestPacket c q a"

lemma setNode_same [simp]: "setNode i (nodes s i) s = s"
  by (simp add: setNode_def)

lemma sysStep_localAct:
  assumes "actor a = Some i" and "i < nservers s"
  shows "sysStep a s = map_option (\<lambda>(rf, rs). (setNode i rf s)\<lparr>routines := routines s @ rs\<rparr>)
    (localAct (nservers s) a (nodes s i))"
  using assms
  by (cases a) (auto simp: spawn_def setNode_def split: sum.splits option.splits)

text \<open>A goroutine that is about to run, before its next call.\<close>

lemma runRoutine_localRun:
  assumes "actsFor r = Some i"
  shows "runRoutine g r s = map_option (\<lambda>(rf, next, send). case send of
       None \<Rightarrow> setRoutine g (next (calls s)) (setNode i rf s)
     | Some (q, a) \<Rightarrow> sendCall (requestPacket (calls s) q a)
                       (setRoutine g (next (calls s)) (setNode i rf s)))
    (localRun (nservers s) (nodes s i) r)"
  using assms by (cases r) (auto split: sum.splits prod.splits)

lemma failCall_localReturn:
  assumes "actsFor r = Some i"
  shows "failCall g r s =
    map_option (\<lambda>(rf, r'). setRoutine g r' (setNode i rf s)) (localReturn (nservers s) (nodes s i) r None)"
  using assms
  by (cases r) (auto simp: voteReturns_def voteBack_def appendReturns_def appendBack_def
      split: sum.splits prod.splits)

lemma returnTo_localReturn:
  assumes "actsFor r = Some i" and "awaits r = Some c"
    and "replyPacket c q a x \<in> set (system.net s)"
    and "localReturn (nservers s) (nodes s i) r (Some x) = Some (rf, r')"
    and "(\<exists>v vc vg. a = VoteArgs v \<and> r = AwaitVote i v q vc vg c) \<or>
         (\<exists>e nx tm. a = AppArgs e \<and> r = AwaitAppend i q nx tm e c)"
  shows "returnTo g r (replyPacket c q a x) s =
    Some (setRoutine g r' (setNode i rf (takePacket (replyPacket c q a x) s)))"
  using assms
  by (cases x) (auto simp: voteReturns_def voteBack_def appendReturns_def appendBack_def takePacket_def
      split: sum.splits prod.splits)

section \<open>The index of a peer never changes\<close>

lemma quiet_me: "quiet rf rf' \<Longrightarrow> me rf' = me rf"
  by (simp add: quiet_def)

lemma peerOp_me: "peerOp A rf rf' \<Longrightarrow> me rf' = me rf"
proof (induction rule: peerOp.induct)
  case (op_append a rf' r)
  then show ?case using AppendEntries_keeps [of rf a rf' r] by (simp add: append_keeps_def)
next
  case (op_start c rf' index tm isLeader)
  then show ?case by (auto simp: Start_def Let_def split: if_splits sum.splits)
next
  case (op_apply rf')
  then show ?case
    by (auto simp: CommitLog_def applyCommits_def applyMessages_spec split: if_splits sum.splits)
qed (auto intro: quiet_me quiet_timers quiet_election quiet_response)

lemma RequestVote_me: "RequestVote rf a = (rf', r) \<Longrightarrow> me rf' = me rf"
  by (rule peerOp_me [OF op_vote])

lemma AppendEntries_me: "AppendEntries rf a = Inr (rf', r) \<Longrightarrow> me rf' = me rf"
  by (rule peerOp_me [OF op_append [OF UNIV_I]])

text \<open>The target of a goroutine's next call is a peer.\<close>

fun targets :: "nat \<Rightarrow> 'c routine \<Rightarrow> bool" where
  "targets n (AwaitVote i a p vc vg c) = (p < n)"
| "targets n (Beating i j next term) = (j < n)"
| "targets n (AwaitAppend i j next term a c) = (j < n)"
| "targets n _ = True"

text \<open>What a waiting goroutine has asked whom.\<close>

fun asked :: "'c routine \<Rightarrow> (nat \<times> 'c raftArgs) option" where
  "asked (AwaitVote i a p vc vg c) = Some (p, VoteArgs a)"
| "asked (AwaitAppend i j next term a c) = Some (j, AppArgs a)"
| "asked _ = None"

definition follows :: "nat \<Rightarrow> nat \<Rightarrow> 'c routine \<Rightarrow> bool" where
  "follows n i r \<longleftrightarrow> actsFor r \<in> {Some i, None} \<and> targets n r"

lemma localAct_spec:
  assumes "localAct n a rf = Some (rf', rs)" and "actor a = Some i"
  shows "me rf' = me rf \<and> (\<forall>r \<in> set rs. follows n i r \<and> awaits r = None)"
  using assms
  by (cases a) (auto simp: follows_def split: if_splits sum.splits option.splits
      intro: peerOp_me [where A = UNIV] op_electionTimer op_heartbeatTimer op_start op_apply
      dest!: requestHeartbeat_Some)

lemma localRun_spec:
  assumes "localRun n rf r = Some (rf', nxt, send)" and "follows n i r"
  shows "me rf' = me rf \<and> actsFor r = Some i \<and> awaits r = None \<and> follows n i (nxt c) \<and>
    (case send of None \<Rightarrow> awaits (nxt c) = None
     | Some (q, a) \<Rightarrow> q < n \<and> awaits (nxt c) = Some c \<and> asked (nxt c) = Some (q, a))"
  using assms
  by (cases r) (auto simp: follows_def split: if_splits sum.splits prod.splits
      intro: peerOp_me [where A = UNIV] op_begin op_end)

lemma localReturn_spec:
  assumes "localReturn n rf r x = Some (rf', r')" and "follows n i r"
  shows "me rf' = me rf \<and> actsFor r = Some i \<and> follows n i r' \<and> awaits r' = None"
proof (cases "(n, rf, r, x)" rule: localReturn.cases)
  case (1 n' rf0 i' a p vc vg c)
  with assms show ?thesis
    by (auto simp: voteBack_def follows_def split: prod.splits intro: peerOp_me [OF op_stepDown])
next
  case (2 n' rf0 i' a p vc vg c y)
  with assms show ?thesis
    by (auto simp: voteBack_def follows_def split: prod.splits intro: peerOp_me [OF op_stepDown])
qed (use assms in \<open>auto simp: appendBack_def follows_def split: sum.splits if_splits
  intro: peerOp_me [OF op_response [where A = UNIV]]\<close>)

end
