(* ===== verification/RaftWiring.thy ===== *)
theory RaftWiring
  imports RaftCluster
begin

text \<open>
  How the cluster of RaftCluster is wired: which object a server name stands for, where an end
  of a peer leads, and that the ends of an object that no longer runs are dead. All of it is a
  fact about the tester's configuration, kept by every operation of the tester and not touched
  by peers and calls.
\<close>

section \<open>What the tester's operations do to peers\<close>

lemma Persister_copy [simp]: "CopyPersister ps = ps"
  by (simp add: persister_defs)

lemma Persister_copy_out [simp]:
  "SaveStateAndSnapshot (ReadRaftState ps) (ReadSnapshot ps) \<lparr>raftstate = [], snapshot = []\<rparr> = ps"
  by (simp add: persister_defs)

definition runs :: "('c, 'a, 'r) config \<Rightarrow> nat \<Rightarrow> nat \<Rightarrow> bool" where
  "runs c i p \<longleftrightarrow> i < cn c \<and> rafts c ! i = Some p"

definition isLive :: "('c, 'a, 'r) config \<Rightarrow> nat \<Rightarrow> bool" where
  "isLive c p \<longleftrightarrow> (\<exists>i. runs c i p)"

lemma update_same [simp]: "xs ! i = x \<Longrightarrow> xs[i := x] = xs"
  by auto

lemma runs_update [simp]:
  "runs (c\<lparr>connected := cs\<rparr>) = runs c" "runs (c\<lparr>cnet := rn\<rparr>) = runs c"
  by (simp_all add: runs_def fun_eq_iff)

text \<open>The persisted state of a peer that runs is the peer's; that of one that is down, the copy.\<close>

lemma crash1_peers:
  assumes t: "crash1 i c = Inr t" and i: "i < cn c" and len: "length (rafts c) = cn c" "length (saved c) = cn c"
  shows "rafts t = (rafts c)[i := None] \<and> saved t = (saved c)[i := savedAt i c] \<and>
    heap t = (case rafts c ! i of None \<Rightarrow> heap c | Some p \<Rightarrow> (heap c)(p := Kill (heap c p))) \<and>
    (\<exists>es. cnet t = DeleteServer (IntName (int i)) ((cnet c)\<lparr>enabled := es\<rparr>)) \<and>
    connected t = (connected c)[i := False] \<and> endnames t = endnames c \<and> cn t = cn c"
proof -
  from t obtain u where u: "disconnect i c = Inr u" by (rule crash1_effect)
  note e = disconnect_effect [OF u i]
  have same: "rafts u = rafts c" "saved u = saved c" "heap u = heap c" "endnames u = endnames c"
    "cn u = cn c" "connected u = (connected c)[i := False]" by (simp_all add: e)
  show ?thesis
  proof (cases "rafts c ! i")
    case None
    with t u len i have "t = (copySaved i (u\<lparr>cnet := DeleteServer (IntName (int i)) (cnet u)\<rparr>))"
      by (auto simp: crash1_def Let_def copySaved_def savedAt_def same
          split: sum.splits option.splits)
    with None len i show ?thesis
      by (auto simp: copySaved_def savedAt_def same e DeleteServer_def
          split: option.splits)
  next
    case (Some p)
    with t u len i show ?thesis
      by (auto simp: crash1_def Let_def copySaved_def savedAt_def closeStop_def same e
          DeleteServer_def split: sum.splits option.splits if_splits)
  qed
qed

lemma makeEnds_keeps:
  assumes "makeEnds i c = Inr t"
  shows "servers (cnet t) = servers (cnet c) \<and> objects (cnet t) = objects (cnet c)"
  using assms unfolding makeEnds_def
  by (rule go_for_inv [rotated 2, where P = "\<lambda>t. servers (cnet t) = servers (cnet c) \<and>
        objects (cnet t) = objects (cnet c)"])
    (auto simp: MakeEnd_def Connect_def split: sum.splits if_splits)

definition raftServer :: "nat \<Rightarrow> (nat \<Rightarrow> 'c Raft, 'c raftArgs, raftReply) Server" where
  "raftServer p = AddService (MakeService ''Raft'' p raftMethods) MakeServer"

definition savedCopy :: "nat \<Rightarrow> ('c, 'a, 'r) config \<Rightarrow> 'c gobval Persister" where
  "savedCopy i c = (case saved c ! i of None \<Rightarrow> MakePersister | Some ps \<Rightarrow> ps)"

lemma start1_peers:
  assumes t: "start1 raftMethods i names p c = Inr t" and i: "i < cn c"
    and len: "length (rafts c) = cn c" "length (saved c) = cn c" "length (endnames c) = cn c"
  obtains u rf rn where "crash1 i c = Inr u" "Make (cn c) i (savedCopy i u) = Inr rf"
    "ends_made (take (cn c) names) [0..<cn c] (cnet u) rn"
    "servers rn = servers (cnet u)" "objects rn = objects (cnet u)"
    "rafts t = (rafts u)[i := Some p]" "saved t = (saved u)[i := Some (savedCopy i u)]"
    "heap t = (heap u)(p := rf)" "endnames t = (endnames u)[i := Some (take (cn c) names)]"
    "connected t = connected u" "cn t = cn c"
    "cnet t = AddServer (IntName (int i)) p (rn\<lparr>objects := (objects rn)(p := raftServer p)\<rparr>)"
proof -
  from t obtain u v rf where u: "crash1 i c = Inr u"
    and v: "makeEnds i (u\<lparr>endnames := (endnames u)[i := Some (take (cn u) names)]\<rparr>) = Inr v"
    and rf: "Make (cn v) i (freshPersister i v) = Inr rf"
    and t': "rafts t = (rafts v)[i := Some p]" "saved t = (saved v)[i := Some (freshPersister i v)]"
      "heap t = (heap v)(p := rf)" "endnames t = endnames v" "connected t = connected v" "cn t = cn v"
      "cnet t = AddServer (IntName (int i)) p ((cnet v)\<lparr>objects := (objects (cnet v))(p := raftServer p)\<rparr>)"
    by (auto simp: start1_def Let_def raftServer_def split: sum.splits)
  note e = crash1_peers [OF u i len(1,2)]
  let ?c = "u\<lparr>endnames := (endnames u)[i := Some (take (cn u) names)]\<rparr>"
  have "endnames ?c ! i = Some (take (cn u) names)" using e i len by simp
  from makeEnds_loop [OF v [unfolded makeEnds_def] this] obtain rn where
    rn: "v = ?c\<lparr>cnet := rn\<rparr>" "ends_made (take (cn u) names) [0..<cn u] (cnet u) rn" by auto
  from makeEnds_keeps [OF v] have "servers rn = servers (cnet u)" "objects rn = objects (cnet u)"
    by (simp_all add: rn)
  moreover have "freshPersister i v = savedCopy i u"
    using e i len by (simp add: freshPersister_def savedCopy_def savedAt_def rn split: option.splits)
  ultimately show thesis
    using e rn u rf t' by (intro that [of u rf rn]) simp_all
qed

section \<open>The wiring\<close>

text \<open>
  \<open>A\<close> are the addresses of the peer objects, \<open>D\<close> the names of their ends. A server name stands
  for the object that runs, and an end of any object leads to the server of its index.
\<close>

definition running_ok :: "nat set \<Rightarrow> (nat \<Rightarrow> string list) \<Rightarrow> ('c, 'a, 'r) config \<Rightarrow> bool" where
  "running_ok A D c \<longleftrightarrow> length (rafts c) = cn c \<and> length (saved c) = cn c \<and>
     (\<forall>i p. runs c i p \<longrightarrow> p \<in> A \<and> me (heap c p) = i \<and> endnames c ! i = Some (D p) \<and> saved c ! i \<noteq> None) \<and>
     (\<forall>i < cn c. connected c ! i \<longrightarrow> rafts c ! i \<noteq> None)"

definition servers_ok :: "('c, 'a, 'r) config \<Rightarrow> bool" where
  "servers_ok c \<longleftrightarrow>
     (\<forall>nm p. servers (cnet c) nm = Some p \<longleftrightarrow> (\<exists>i. nm = IntName (int i) \<and> runs c i p))"

definition object_ok ::
  "(nat \<Rightarrow> string list) \<Rightarrow> ('c, 'c raftArgs, raftReply) config \<Rightarrow> nat \<Rightarrow> bool" where
  "object_ok D c p \<longleftrightarrow> me (heap c p) < cn c \<and> length (D p) = cn c \<and>
     services (objects (cnet c) p) = services (raftServer p) \<and>
     (\<forall>q < cn c. D p ! q \<in> ends (cnet c) \<and> connections (cnet c) (D p ! q) = Some (IntName (int q)))"

definition ends_apart :: "nat set \<Rightarrow> (nat \<Rightarrow> string list) \<Rightarrow> nat \<Rightarrow> bool" where
  "ends_apart A D n \<longleftrightarrow>
     (\<forall>p \<in> A. \<forall>p' \<in> A. \<forall>q < n. \<forall>q' < n. D p ! q = D p' ! q' \<longrightarrow> p = p' \<and> q = q')"

definition wiring_ok ::
  "nat set \<Rightarrow> (nat \<Rightarrow> string list) \<Rightarrow> ('c, 'c raftArgs, raftReply) config \<Rightarrow> bool" where
  "wiring_ok A D c \<longleftrightarrow> net_inv c \<and> running_ok A D c \<and> servers_ok c \<and>
     (\<forall>p \<in> A. object_ok D c p) \<and> ends_apart A D (cn c)"

lemma wiring_lengths:
  "wiring_ok A D c \<Longrightarrow> length (rafts c) = cn c \<and> length (saved c) = cn c \<and>
     length (endnames c) = cn c \<and> length (connected c) = cn c"
  by (simp add: wiring_ok_def running_ok_def net_inv_def)

lemma runs_unique: "wiring_ok A D c \<Longrightarrow> runs c i p \<Longrightarrow> runs c j p \<Longrightarrow> i = j"
  unfolding wiring_ok_def running_ok_def by metis

lemma runs_me: "wiring_ok A D c \<Longrightarrow> runs c i p \<Longrightarrow> me (heap c p) = i \<and> p \<in> A \<and> i < cn c"
  by (simp add: wiring_ok_def running_ok_def runs_def)

text \<open>Only the ends of peers that run are enabled.\<close>

lemma enabled_live:
  assumes ok: "wiring_ok A D c" and p: "p \<in> A" and q: "q < cn c" and e: "enabled (cnet c) (D p ! q)"
  shows "isLive c p"
proof -
  from ok e obtain i j where n: "nameOf c i j = Some (D p ! q)" and i: "connected c ! i"
    by (auto simp: wiring_ok_def net_inv_def)
  from nameOf_some [OF n] have ij: "i < cn c" "j < cn c" by auto
  with ok i obtain p' where r: "runs c i p'" by (auto simp: wiring_ok_def running_ok_def runs_def)
  with ok have "endnames c ! i = Some (D p')" and p': "p' \<in> A"
    by (auto simp: wiring_ok_def running_ok_def)
  with n ij have "D p' ! j = D p ! q" by (auto simp: nameOf_def split: if_splits)
  with ok p p' q ij have "p' = p" by (auto simp: wiring_ok_def ends_apart_def)
  with r show ?thesis by (auto simp: isLive_def)
qed

lemma server_live:
  "wiring_ok A D c \<Longrightarrow> servers (cnet c) nm = Some p \<Longrightarrow> nm = IntName (int (me (heap c p))) \<and> isLive c p \<and> p \<in> A"
  using runs_me by (fastforce simp: wiring_ok_def servers_ok_def isLive_def)

text \<open>Peers and calls do not touch the wiring.\<close>

lemma wiring_frame:
  assumes ok: "wiring_ok A D c"
    and same: "cn t = cn c" "rafts t = rafts c" "connected t = connected c" "saved t = saved c"
      "endnames t = endnames c" "servers (cnet t) = servers (cnet c)" "ends (cnet t) = ends (cnet c)"
      "enabled (cnet t) = enabled (cnet c)" "connections (cnet t) = connections (cnet c)"
    and obj: "\<And>p. services (objects (cnet t) p) = services (objects (cnet c) p)"
    and me: "\<And>p. me (heap t p) = me (heap c p)"
  shows "wiring_ok A D t"
proof -
  have r: "runs t = runs c" by (simp add: runs_def same fun_eq_iff)
  have n: "nameOf t = nameOf c" by (rule nameOf_cong) (simp_all add: same)
  have "net_inv t" using ok by (simp add: wiring_ok_def net_inv_def n same)
  moreover have "running_ok A D t" using ok by (simp add: wiring_ok_def running_ok_def r same me)
  moreover have "servers_ok t" using ok by (simp add: wiring_ok_def servers_ok_def r same)
  moreover have "\<forall>p \<in> A. object_ok D t p" using ok by (simp add: wiring_ok_def object_ok_def same me obj)
  ultimately show ?thesis using ok by (simp add: wiring_ok_def same)
qed

section \<open>The tester keeps the wiring\<close>

lemma wiring_switch:
  assumes ok: "wiring_ok A D c" and inv: "net_inv t"
    and t: "t = c\<lparr>connected := cs, cnet := (cnet c)\<lparr>enabled := es\<rparr>\<rparr>"
    and up: "\<And>i. i < cn c \<Longrightarrow> cs ! i \<Longrightarrow> rafts c ! i \<noteq> None"
  shows "wiring_ok A D t"
proof -
  have "running_ok A D t" using ok up by (simp add: wiring_ok_def running_ok_def t)
  moreover have "servers_ok t" using ok by (simp add: wiring_ok_def servers_ok_def t)
  moreover have "\<forall>p \<in> A. object_ok D t p" using ok by (simp add: wiring_ok_def object_ok_def t)
  ultimately show ?thesis using ok inv by (simp add: wiring_ok_def t)
qed

lemma wiring_connect:
  assumes ok: "wiring_ok A D c" and t: "connect i c = Inr t" and i: "i < cn c" and up: "rafts c ! i \<noteq> None"
  shows "wiring_ok A D t"
proof -
  have len: "length (connected c) = cn c" using wiring_lengths [OF ok] by simp
  have inv: "net_inv c" using ok by (simp add: wiring_ok_def)
  have "net_inv t"
    by (rule net_inv_connect [OF inv t i]) (rule connect_known [OF t i len])
  then show ?thesis
    by (rule wiring_switch [OF ok _ connect_effect [OF t i]])
      (use ok up len i in \<open>auto simp: nth_list_update wiring_ok_def running_ok_def split: if_splits\<close>)
qed

lemma wiring_disconnect:
  assumes ok: "wiring_ok A D c" and t: "disconnect i c = Inr t" and i: "i < cn c"
  shows "wiring_ok A D t"
proof -
  have inv: "net_inv c" using ok by (simp add: wiring_ok_def)
  have len: "length (connected c) = cn c" using wiring_lengths [OF ok] by simp
  from net_inv_disconnect [OF inv t i] show ?thesis
    by (rule wiring_switch [OF ok _ disconnect_effect [OF t i]])
      (use ok i len in \<open>auto simp: nth_list_update wiring_ok_def running_ok_def split: if_splits\<close>)
qed

lemma runs_crash:
  assumes ok: "wiring_ok A D c" and t: "crash1 i c = Inr t" and i: "i < cn c"
  shows "runs t j p \<longleftrightarrow> runs c j p \<and> j \<noteq> i"
  using crash1_peers [OF t i] wiring_lengths [OF ok] i
  by (auto simp: runs_def nth_list_update)

lemma me_crash:
  assumes ok: "wiring_ok A D c" and t: "crash1 i c = Inr t" and i: "i < cn c"
  shows "me (heap t p) = me (heap c p)"
  using crash1_peers [OF t i] wiring_lengths [OF ok] by (simp add: Kill_def split: option.splits)

lemma wiring_crash:
  assumes ok: "wiring_ok A D c" and t: "crash1 i c = Inr t" and i: "i < cn c"
  shows "wiring_ok A D t"
proof -
  note len = wiring_lengths [OF ok]
  have e: "rafts t = (rafts c)[i := None]" "saved t = (saved c)[i := savedAt i c]"
    "connected t = (connected c)[i := False]" "endnames t = endnames c" "cn t = cn c"
    "servers (cnet t) = (servers (cnet c))(IntName (int i) := None)" "ends (cnet t) = ends (cnet c)"
    "connections (cnet t) = connections (cnet c)" "objects (cnet t) = objects (cnet c)"
    using crash1_peers [OF t i] len by (auto simp: DeleteServer_def)
  note r = runs_crash [OF ok t i] and m = me_crash [OF ok t i]
  have "net_inv t" using net_inv_crash [OF _ t i] ok by (simp add: wiring_ok_def)
  moreover have "running_ok A D t"
    using ok len i by (auto simp: wiring_ok_def running_ok_def r e m nth_list_update split: if_splits)
  moreover have "servers_ok t"
    using ok by (auto simp: wiring_ok_def servers_ok_def r e)
  moreover have "\<forall>p \<in> A. object_ok D t p" using ok by (simp add: wiring_ok_def object_ok_def e m)
  ultimately show ?thesis using ok by (simp add: wiring_ok_def e)
qed

text \<open>A new object: what its start does to a cluster in which its peer is down.\<close>

definition startsAt ::
  "nat \<Rightarrow> string list \<Rightarrow> nat \<Rightarrow> ('c, 'c raftArgs, raftReply) config \<Rightarrow> ('c, 'c raftArgs, raftReply) config
   \<Rightarrow> bool" where
  "startsAt i es p u t \<longleftrightarrow> (\<exists>rf rn. Make (cn u) i (savedCopy i u) = Inr rf \<and>
     ends_made es [0..<cn u] (cnet u) rn \<and> servers rn = servers (cnet u) \<and> objects rn = objects (cnet u) \<and>
     rafts t = (rafts u)[i := Some p] \<and> saved t = (saved u)[i := Some (savedCopy i u)] \<and>
     heap t = (heap u)(p := rf) \<and> endnames t = (endnames u)[i := Some es] \<and>
     connected t = connected u \<and> cn t = cn u \<and> length es = cn u \<and>
     cnet t = AddServer (IntName (int i)) p (rn\<lparr>objects := (objects rn)(p := raftServer p)\<rparr>))"

lemma start1_startsAt:
  assumes ok: "wiring_ok A D c" and t: "start1 raftMethods i names p c = Inr t" and i: "i < cn c"
  obtains u where "crash1 i c = Inr u" "wiring_ok A D u" "startsAt i (take (cn c) names) p u t"
    "cn u = cn c" "rafts u ! i = None"
proof -
  note len = wiring_lengths [OF ok]
  from start1_peers [OF t i] len obtain u rf rn where
    u: "crash1 i c = Inr u" and e: "Make (cn c) i (savedCopy i u) = Inr rf"
    "ends_made (take (cn c) names) [0..<cn c] (cnet u) rn"
    "servers rn = servers (cnet u)" "objects rn = objects (cnet u)"
    "rafts t = (rafts u)[i := Some p]" "saved t = (saved u)[i := Some (savedCopy i u)]"
    "heap t = (heap u)(p := rf)" "endnames t = (endnames u)[i := Some (take (cn c) names)]"
    "connected t = connected u" "cn t = cn c"
    "cnet t = AddServer (IntName (int i)) p (rn\<lparr>objects := (objects rn)(p := raftServer p)\<rparr>)"
    by metis
  from crash1_peers [OF u i] len have n: "cn u = cn c" "rafts u ! i = None" using i by auto
  have "length (take (cn c) names) = cn c"
    using e(2) i unfolding ends_made_def by (cases "cn c") auto
  with e n have "startsAt i (take (cn c) names) p u t" unfolding startsAt_def by auto
  from that [OF u wiring_crash [OF ok u i] this n] show thesis .
qed

lemma Make_me: "Make n i ps = Inr rf \<Longrightarrow> me rf = i"
  by (auto simp: Make_def readPersist_def updateLastLogInfo_def Let_def
      split: if_splits option.splits)

lemma runs_start:
  assumes "startsAt i es p u t" and "i < cn u" and "length (rafts u) = cn u" and "rafts u ! i = None"
  shows "runs t j p' \<longleftrightarrow> (if j = i then p' = p else runs u j p')"
  using assms by (auto simp: startsAt_def runs_def nth_list_update)

lemma wiring_start:
  assumes ok: "wiring_ok A D u" and st: "startsAt i es p u t" and inv: "net_inv t"
    and i: "i < cn u" and down: "rafts u ! i = None" and new: "p \<notin> A"
  shows "wiring_ok (insert p A) (D(p := es)) t"
proof -
  note len = wiring_lengths [OF ok]
  from st obtain rf rn where e: "Make (cn u) i (savedCopy i u) = Inr rf"
    "ends_made es [0..<cn u] (cnet u) rn" "servers rn = servers (cnet u)" "objects rn = objects (cnet u)"
    "rafts t = (rafts u)[i := Some p]" "saved t = (saved u)[i := Some (savedCopy i u)]"
    "heap t = (heap u)(p := rf)" "endnames t = (endnames u)[i := Some es]"
    "connected t = connected u" "cn t = cn u" "length es = cn u"
    "cnet t = AddServer (IntName (int i)) p (rn\<lparr>objects := (objects rn)(p := raftServer p)\<rparr>)"
    unfolding startsAt_def by blast
  note r = runs_start [OF st i _ down]
  have rl: "length (rafts u) = cn u" using len by simp
  have me: "me rf = i" by (rule Make_me [OF e(1)])
  have nr: "\<not> runs u i x" for x by (simp add: runs_def down)
  have "running_ok (insert p A) (D(p := es)) t"
    using ok len i new me
    by (auto simp: wiring_ok_def running_ok_def r rl e nth_list_update split: if_splits)
  moreover have "servers_ok t"
    using ok i nr by (auto simp: wiring_ok_def servers_ok_def r rl e AddServer_def)
  moreover have old: "x \<notin> (!) es ` set [0..<cn u]" if "x \<in> ends (cnet u)" for x
    using e(2) that unfolding ends_made_def by blast
  have "object_ok (D(p := es)) t x" if "x \<in> insert p A" for x
  proof (cases "x = p")
    case True
    then show ?thesis using e(2,11) i me
      by (auto simp: object_ok_def e AddServer_def ends_made_def)
  next
    case False
    with that have "object_ok D u x" using ok by (simp add: wiring_ok_def)
    with False e(2) old show ?thesis
      by (auto simp: object_ok_def e AddServer_def ends_made_def)
  qed
  moreover have "ends_apart (insert p A) (D(p := es)) (cn t)"
  proof -
    have apart: "D x ! q \<noteq> es ! q'" if "x \<in> A" "q < cn u" "q' < cn u" for x q q'
    proof -
      have "D x ! q \<in> ends (cnet u)" using ok that by (simp add: wiring_ok_def object_ok_def)
      from old [OF this] that(3) show ?thesis by (metis atLeastLessThan_iff imageI set_upt zero_le)
    qed
    have inj: "es ! q = es ! q' \<Longrightarrow> q = q'" if "q < cn u" "q' < cn u" for q q'
      using e(2) that by (auto simp: ends_made_def inj_on_def)
    have both: "D x ! q = D x' ! q' \<Longrightarrow> x = x' \<and> q = q'" if "x \<in> A" "x' \<in> A" "q < cn u" "q' < cn u" for x x' q q'
      using ok that unfolding wiring_ok_def ends_apart_def by blast
    show ?thesis
      unfolding ends_apart_def e
    proof (intro ballI allI impI)
      fix x x' q q'
      assume x: "x \<in> insert p A" "x' \<in> insert p A" and q: "q < cn u" "q' < cn u"
        and eq: "(D(p := es)) x ! q = (D(p := es)) x' ! q'"
      show "x = x' \<and> q = q'"
        using x eq apart [OF _ q] apart [OF _ q(2,1)] inj [OF q] both [OF _ _ q]
        by (cases "x = p"; cases "x' = p") (simp_all, metis+)
    qed
  qed
  ultimately show ?thesis using inv by (simp add: wiring_ok_def)
qed

text \<open>The operations of the tester.\<close>

lemma wiring_test:
  assumes ok: "wiring_ok (allocated cl) (dials cl) (cfg cl)" and b: "byTester cl a"
    and step: "testStep raftMethods a (cfg cl) = Some t"
  shows "wiring_ok (allocated (afterTest a cl)) (dials (afterTest a cl)) t"
proof -
  have inv: "net_inv t" using net_inv_step [OF _ step] ok by (simp add: wiring_ok_def)
  have idx: "i < cn (cfg cl)" if "connect i (cfg cl) = Inr u \<or> disconnect i (cfg cl) = Inr u" for i u
    using testStep_index [OF _ that] ok by (simp add: wiring_ok_def)
  show ?thesis
  proof (cases a)
    case (ConnectPeer i)
    with step have "connect i (cfg cl) = Inr t" by (simp add: testStep_def split: sum.splits)
    from wiring_connect [OF ok this] b ConnectPeer show ?thesis by simp
  next
    case (DisconnectPeer i)
    with step have "disconnect i (cfg cl) = Inr t" by (simp add: testStep_def split: sum.splits)
    from wiring_disconnect [OF ok this idx [OF disjI2, OF this]] DisconnectPeer show ?thesis by simp
  next
    case (CrashPeer i)
    with step have c: "crash1 i (cfg cl) = Inr t" by (simp add: testStep_def split: sum.splits)
    then obtain u where "disconnect i (cfg cl) = Inr u" by (rule crash1_effect)
    from wiring_crash [OF ok c idx [OF disjI2, OF this]] CrashPeer show ?thesis by simp
  next
    case (StartPeer i names p)
    with step have s: "start1 raftMethods i names p (cfg cl) = Inr t"
      by (simp add: testStep_def split: sum.splits)
    then obtain u v where "crash1 i (cfg cl) = Inr u" "disconnect i (cfg cl) = Inr v"
      by (metis start1_effect crash1_effect)
    from idx [OF disjI2, OF this(2)] have i: "i < cn (cfg cl)" .
    from start1_startsAt [OF ok s i] obtain u where
      "wiring_ok (allocated cl) (dials cl) u" "startsAt i (take (cn (cfg cl)) names) p u t"
      "cn u = cn (cfg cl)" "rafts u ! i = None" by metis
    from wiring_start [OF this(1,2) inv _ this(4)] this(3) i b StartPeer show ?thesis by simp
  next
    case (SetUnreliable x)
    with step have "t = setunreliable x (cfg cl)" by (simp add: testStep_def)
    with ok SetUnreliable show ?thesis
      by (auto intro!: wiring_frame [OF ok] simp: setunreliable_def Reliable_def)
  next
    case (SetReordering x)
    with step have "t = setlongreordering x (cfg cl)" by (simp add: testStep_def)
    with ok SetReordering show ?thesis
      by (auto intro!: wiring_frame [OF ok] simp: setlongreordering_def LongReordering_def)
  qed (use b in simp)
qed

end
