(* ===== verification/RaftCalls.thy ===== *)
theory RaftCalls
  imports RaftWiring
begin

text \<open>
  Calls and goroutines of the cluster of RaftCluster are well-formed: a call carries arguments
  of its method's type over an end of a peer object, it is at the object its end leads to, and a
  goroutine waits for a call of its own. Every step keeps it, and so reflection and labgob never
  meet values of a wrong type.
\<close>

section \<open>Calls and goroutines are well-formed\<close>

fun reqOf :: "('e, 'a, 'r) call \<Rightarrow> ('e, 'a) reqMsg" where
  "reqOf (Refused req) = req"
| "reqOf (Requested req) = req"
| "reqOf (Running req name addr rel lr) = req"
| "reqOf (Returned req name addr rel lr rep) = req"
| "reqOf (Replying req rep) = req"
| "reqOf (Orphan req addr) = req"
| "reqOf (Answered req rep) = req"

lemma callMoves_req: "callMoves rn x y r \<Longrightarrow> reqOf y = reqOf x"
  by (cases rule: callMoves.cases) auto

definition theRequest :: "string \<Rightarrow> 'c raftArgs \<Rightarrow> (string, 'c raftArgs) reqMsg" where
  "theRequest e a = \<lparr>endname = e, svcMeth = methodName a, args = a\<rparr>"

fun answers :: "'c raftArgs \<Rightarrow> raftReply \<Rightarrow> bool" where
  "answers (VoteArgs a) (VoteReply r) = True"
| "answers (AppArgs a) (AppReply r) = True"
| "answers _ _ = False"

text \<open>A reply has the type of the request's method.\<close>

definition typed :: "(string, 'c raftArgs) reqMsg \<Rightarrow> raftReply replyMsg \<Rightarrow> bool" where
  "typed req rep \<longleftrightarrow> ok rep \<and> (\<exists>y. reply rep = Some y \<and> answers (args req) y)"

definition leadsTo ::
  "nat set \<Rightarrow> ('c, 'c raftArgs, raftReply) config \<Rightarrow> (string, 'c raftArgs) reqMsg \<Rightarrow> nat \<Rightarrow> bool" where
  "leadsTo A c req addr \<longleftrightarrow> addr \<in> A \<and>
     connections (cnet c) (endname req) = Some (IntName (int (me (heap c addr))))"

fun placed ::
  "nat set \<Rightarrow> ('c, 'c raftArgs, raftReply) config \<Rightarrow> (string, 'c raftArgs, raftReply) call \<Rightarrow> bool" where
  "placed A c (Running req name addr rel lr) =
     (leadsTo A c req addr \<and> name = IntName (int (me (heap c addr))))"
| "placed A c (Returned req name addr rel lr rep) =
     (leadsTo A c req addr \<and> name = IntName (int (me (heap c addr))) \<and> typed req rep)"
| "placed A c (Orphan req addr) = leadsTo A c req addr"
| "placed A c (Replying req rep) = typed req rep"
| "placed A c (Answered req rep) = (ok rep \<longrightarrow> typed req rep)"
| "placed A c _ = True"

definition rpc_ok ::
  "nat set \<Rightarrow> (nat \<Rightarrow> string list) \<Rightarrow> ('c, 'c raftArgs, raftReply) config
   \<Rightarrow> (string, 'c raftArgs, raftReply) call \<Rightarrow> bool" where
  "rpc_ok A D c x \<longleftrightarrow> placed A c x \<and>
     (\<exists>p \<in> A. \<exists>q < cn c. \<exists>a. reqOf x = theRequest (D p ! q) a)"

definition thread_ok ::
  "nat set \<Rightarrow> (nat \<Rightarrow> string list) \<Rightarrow> ('c, 'c raftArgs, raftReply) config
   \<Rightarrow> (string, 'c raftArgs, raftReply) call list \<Rightarrow> nat \<times> 'c routine \<Rightarrow> bool" where
  "thread_ok A D c cs = (\<lambda>(p, r). p \<in> A \<and> follows (cn c) (me (heap c p)) r \<and>
     (\<forall>k. awaits r = Some k \<longrightarrow> k < length cs \<and>
        (\<exists>q a. asked r = Some (q, a) \<and> reqOf (cs ! k) = theRequest (D p ! q) a)))"

definition awaits_apart :: "(nat \<times> 'c routine) list \<Rightarrow> bool" where
  "awaits_apart ts \<longleftrightarrow> (\<forall>g < length ts. \<forall>h < length ts. \<forall>k.
     awaits (snd (ts ! g)) = Some k \<longrightarrow> awaits (snd (ts ! h)) = Some k \<longrightarrow> g = h)"

definition cluster_ok :: "'c cluster \<Rightarrow> bool" where
  "cluster_ok cl \<longleftrightarrow> wiring_ok (allocated cl) (dials cl) (cfg cl) \<and>
     (\<forall>x \<in> set (crpcs cl). rpc_ok (allocated cl) (dials cl) (cfg cl) x) \<and>
     (\<forall>t \<in> set (threads cl). thread_ok (allocated cl) (dials cl) (cfg cl) (crpcs cl) t) \<and>
     awaits_apart (threads cl)"

lemma placed_mono:
  assumes "placed A c x" and "A \<subseteq> B" and "\<And>p. p \<in> A \<Longrightarrow> me (heap t p) = me (heap c p)"
    and "connections (cnet t) (endname (reqOf x)) = connections (cnet c) (endname (reqOf x))"
  shows "placed B t x"
  using assms by (cases x) (auto simp: leadsTo_def)

lemma rpc_ok_mono:
  assumes "rpc_ok A D c x" and "A \<subseteq> B" and "\<And>p. p \<in> A \<Longrightarrow> me (heap t p) = me (heap c p)"
    and "\<And>p. p \<in> A \<Longrightarrow> E p = D p" and "cn t = cn c"
    and "\<And>p q. p \<in> A \<Longrightarrow> q < cn c \<Longrightarrow>
      connections (cnet t) (D p ! q) = connections (cnet c) (D p ! q)"
  shows "rpc_ok B E t x"
proof -
  from assms(1) obtain p q a where p: "p \<in> A" "q < cn c" "reqOf x = theRequest (D p ! q) a"
    by (auto simp: rpc_ok_def)
  then have "endname (reqOf x) = D p ! q" by (simp add: theRequest_def)
  with assms(1-3) assms(6) [OF p(1,2)] have "placed B t x"
    by (intro placed_mono [of A c x B t]) (auto simp: rpc_ok_def)
  with p assms(2,4,5) show ?thesis unfolding rpc_ok_def by (metis subsetD)
qed

lemma thread_ok_mono:
  assumes "thread_ok A D c cs x" and "A \<subseteq> B" and "\<And>p. p \<in> A \<Longrightarrow> me (heap t p) = me (heap c p)"
    and "\<And>p. p \<in> A \<Longrightarrow> E p = D p" and "cn t = cn c"
    and "length cs \<le> length ds" and "\<And>k. k < length cs \<Longrightarrow> reqOf (ds ! k) = reqOf (cs ! k)"
  shows "thread_ok B E t ds x"
  using assms unfolding thread_ok_def
  by (cases x) (fastforce dest: subsetD)

section \<open>Handlers\<close>

text \<open>What a request does to the peer that gets it, by labrpc's dispatch and by RaftSystem.\<close>

fun handlerOf :: "'c raftArgs \<Rightarrow> 'c Raft \<Rightarrow> ('c Raft \<times> raftReply) go" where
  "handlerOf (VoteArgs a) rf = (let (rf', r) = RequestVote rf a in Inr (rf', VoteReply r))"
| "handlerOf (AppArgs a) rf =
     (case AppendEntries rf a of Inl e \<Rightarrow> Inl e | Inr (rf', r) \<Rightarrow> Inr (rf', AppReply r))"

lemma handlerOf_spec: "handlerOf a rf = Inr (rf', y) \<Longrightarrow> me rf' = me rf \<and> answers a y"
  by (cases a) (auto split: prod.splits sum.splits dest: RequestVote_me AppendEntries_me)

lemma splitMethod_raft:
  "splitMethod ''Raft.RequestVote'' = Inr (''Raft'', ''RequestVote'')"
  "splitMethod ''Raft.AppendEntries'' = Inr (''Raft'', ''AppendEntries'')"
  by (simp_all add: splitMethod_def)

lemma MakeService_simps:
  "rcvr (MakeService n p ms) = p" "svcName (MakeService n p ms) = n"
  "methods (MakeService n p raftMethods) ''RequestVote'' = Some voteMethod"
  "methods (MakeService n p raftMethods) ''AppendEntries'' = Some appendMethod"
  by (simp_all add: MakeService_def raftMethods_def)

lemma raft_dispatch:
  assumes "services rs = services (raftServer p)"
  shows "Server_dispatch (theRequest e a) rs h =
    (case handlerOf a (h p) of
       Inl f \<Rightarrow> Inl f
     | Inr (rf, y) \<Rightarrow> Inr (rs\<lparr>incoming := incoming rs + 1\<rparr>, h(p := rf), \<lparr>ok = True, reply = Some y\<rparr>))"
proof -
  have "services rs ''Raft'' = Some (MakeService ''Raft'' p raftMethods)"
    by (simp add: assms raftServer_def AddService_def MakeService_simps)
  then show ?thesis
    by (cases a) (auto simp: Server_dispatch_def theRequest_def splitMethod_raft Service_dispatch_def
        MakeService_simps Let_def split: sum.splits prod.splits)
qed

lemma deliver_handlerOf:
  "deliver (requestPacket k q a) s = (case handlerOf a (nodes s q) of
     Inl e \<Rightarrow> None
   | Inr (rf, y) \<Rightarrow> Some (answer (requestPacket k q a) (replyPacket k q a y) (setNode q rf s)))"
  by (cases a) (auto split: sum.splits prod.splits)

text \<open>A step of a call runs a handler or leaves all objects as they are.\<close>

inductive handles ::
  "(string, 'a, 'r) call \<Rightarrow> nat \<Rightarrow> 'r replyMsg \<Rightarrow> (string, 'a, 'r) call \<Rightarrow> bool"
where
  "handles (Running req name addr rel lr) addr rep (Returned req name addr rel lr rep)"
| "handles (Orphan req addr) addr rep (Answered req failed)"

lemma callStep_objects:
  assumes "callStep rl a c x s = Some t" and "c < length (rpcs s)" and "rpcs s ! c = x"
  shows "(store t = store s \<and> objects (rpcSystem.net t) = objects (rpcSystem.net s) \<and>
      (\<exists>y. callMoves (rpcSystem.net s) x y None \<and> rpcs t = (rpcs s)[c := y])) \<or>
    (\<exists>addr rs h rep y. handles x addr rep y \<and>
      Server_dispatch (reqOf x) (objects (rpcSystem.net s) addr) (store s) = Inr (rs, h, rep) \<and>
      store t = h \<and> objects (rpcSystem.net t) = (objects (rpcSystem.net s))(addr := rs) \<and>
      rpcs t = (rpcs s)[c := y])"
proof (cases "(rl, a, c, x, s)" rule: callStep.cases)
  case (3 _ _ _ req name addr rel lr _)
  with assms(1) show ?thesis
    by (intro disjI2) (auto simp: runHandler_def setCall_def split: sum.splits intro!: exI handles.intros)
next
  case (4 _ _ _ req addr _)
  with assms(1) show ?thesis
    by (intro disjI2) (auto simp: runHandler_def setCall_def split: sum.splits intro!: exI handles.intros)
next
  case (1 _ _ _ req _)
  obtain en sn sv rel lr where "readEndnameInfo (endname req) (rpcSystem.net s) = (en, sn, sv, rel, lr)"
    by (metis prod_cases5)
  with 1 assms(1) show ?thesis
    by (intro disjI1) (auto simp: setCall_def split: bool.splits option.splits
        intro: begin_ok begin_fails)
next
  case (2 _ _ _ req name addr rel lr _)
  with assms(1) show ?thesis
    by (intro disjI1) (auto simp: setCall_def split: if_splits intro: callMoves.intros)
next
  case (5 _ _ _ req name addr rel lr _)
  with assms(1) show ?thesis
    by (intro disjI1) (auto simp: setCall_def split: if_splits intro: callMoves.intros)
next
  case (6 _ _ lose _ req name addr rel lr rep _)
  with assms(1) show ?thesis
    by (intro disjI1) (auto simp: setCall_def split: if_splits intro: callMoves.intros)
next
  case (7 _ _ _ req rep _)
  with assms(1) show ?thesis
    by (intro disjI1) (auto simp: setCall_def intro: callMoves.intros)
qed (use assms(1) in auto)

section \<open>The steps in normal form\<close>

text \<open>What peers and calls leave as it is: everything but the peers' states and the counters.\<close>

definition calm :: "('c, 'c raftArgs, raftReply) config \<Rightarrow> ('c, 'c raftArgs, raftReply) config \<Rightarrow> bool" where
  "calm c t \<longleftrightarrow> cn t = cn c \<and> rafts t = rafts c \<and> connected t = connected c \<and> saved t = saved c \<and>
     endnames t = endnames c \<and> servers (cnet t) = servers (cnet c) \<and> ends (cnet t) = ends (cnet c) \<and>
     enabled (cnet t) = enabled (cnet c) \<and> connections (cnet t) = connections (cnet c) \<and>
     (\<forall>p. services (objects (cnet t) p) = services (objects (cnet c) p)) \<and>
     (\<forall>p. me (heap t p) = me (heap c p))"

lemma calm_wiring: "calm c t \<Longrightarrow> wiring_ok A D c \<Longrightarrow> wiring_ok A D t"
  by (erule wiring_frame) (simp_all add: calm_def)

lemma calm_runs: "calm c t \<Longrightarrow> runs t = runs c"
  by (simp add: calm_def runs_def fun_eq_iff)

lemma calm_rpc: "calm c t \<Longrightarrow> rpc_ok A D c x \<Longrightarrow> rpc_ok A D t x"
  by (erule rpc_ok_mono) (auto simp: calm_def)

lemma calm_thread:
  "calm c t \<Longrightarrow> thread_ok A D c cs x \<Longrightarrow> length cs \<le> length ds \<Longrightarrow>
     (\<And>k. k < length cs \<Longrightarrow> reqOf (ds ! k) = reqOf (cs ! k)) \<Longrightarrow> thread_ok A D t ds x"
  by (rule thread_ok_mono [of A D c cs x]) (auto simp: calm_def)

lemma calm_setPeer: "me rf = me (heap (cfg cl) p) \<Longrightarrow> calm (cfg cl) (cfg (setPeer p rf cl))"
  by (simp add: calm_def setPeer_def)

lemma setPeer_simps [simp]:
  "crpcs (setPeer p rf cl) = crpcs cl" "threads (setPeer p rf cl) = threads cl"
  "dials (setPeer p rf cl) = dials cl" "allocated (setPeer p rf cl) = allocated cl"
  "cn (cfg (setPeer p rf cl)) = cn (cfg cl)" "cnet (cfg (setPeer p rf cl)) = cnet (cfg cl)"
  "heap (cfg (setPeer p rf cl)) = (heap (cfg cl))(p := rf)"
  "rafts (cfg (setPeer p rf cl)) = rafts (cfg cl)" "saved (cfg (setPeer p rf cl)) = saved (cfg cl)"
  "runs (cfg (setPeer p rf cl)) = runs (cfg cl)"
  by (simp_all add: setPeer_def runs_def fun_eq_iff)

text \<open>A goroutine's call: the request is on the network, under the next number.\<close>

definition sends ::
  "string \<Rightarrow> 'c raftArgs \<Rightarrow> 'c cluster \<Rightarrow> 'c cluster \<Rightarrow> bool" where
  "sends e a cl t \<longleftrightarrow> crpcs t = crpcs cl @ [Requested (theRequest e a)] \<and> threads t = threads cl \<and>
     dials t = dials cl \<and> allocated t = allocated cl \<and> heap (cfg t) = heap (cfg cl) \<and> calm (cfg cl) (cfg t)"

lemma SendCall_sends:
  assumes "rpcStep al rl (SendCall e (methodName a) a) (rpcView cl) = Some s"
  shows "sends e a cl (fromRpc s cl)"
  using assms
  by (auto simp: sends_def fromRpc_def rpcView_def calm_def theRequest_def Let_def split: if_splits)

text \<open>A step of the network: one call moves, perhaps by its handler.\<close>

lemma network_cases:
  assumes step: "clusterStep al rl (NetworkActs a) cl = Some t" and ok: "cluster_ok cl"
  obtains (move) c y where "c < length (crpcs cl)" "callMoves (cnet (cfg cl)) (crpcs cl ! c) y None"
      "crpcs t = (crpcs cl)[c := y]" "threads t = threads cl" "dials t = dials cl"
      "allocated t = allocated cl" "heap (cfg t) = heap (cfg cl)" "calm (cfg cl) (cfg t)"
  | (handler) c addr e args0 rf z y where "c < length (crpcs cl)" "reqOf (crpcs cl ! c) = theRequest e args0"
      "handles (crpcs cl ! c) addr \<lparr>ok = True, reply = Some z\<rparr> y" "addr \<in> allocated cl"
      "handlerOf args0 (heap (cfg cl) addr) = Inr (rf, z)"
      "crpcs t = (crpcs cl)[c := y]" "threads t = threads cl" "dials t = dials cl"
      "allocated t = allocated cl" "heap (cfg t) = (heap (cfg cl))(addr := rf)" "calm (cfg cl) (cfg t)"
proof -
  from step obtain s where a: "byNetwork a" and s: "rpcStep al rl a (rpcView cl) = Some s"
    and t: "t = fromRpc s cl" by (auto split: if_splits)
  from a obtain c where c: "callOf a = Some c" by (cases a) auto
  then have len: "c < length (crpcs cl)"
    and cs: "callStep rl a c (crpcs cl ! c) (rpcView cl) = Some s"
    using s by (cases a; auto simp: rpcView_def split: if_splits)+
  have v: "rpcs (rpcView cl) = crpcs cl" "rpcSystem.net (rpcView cl) = cnet (cfg cl)"
    "store (rpcView cl) = heap (cfg cl)" by (simp_all add: rpcView_def)
  have lv: "c < length (rpcs (rpcView cl))" "rpcs (rpcView cl) ! c = crpcs cl ! c"
    using len by (simp_all add: v)
  from callStep_moves [OF cs lv, of al] obtain n objs where
    n: "rpcSystem.net s = (cnet (cfg cl))\<lparr>byteCount := n, objects := objs\<rparr>" by (auto simp: v)
  from callStep_objects [OF cs lv] show thesis
  proof (elim disjE exE conjE)
    fix y assume "store s = store (rpcView cl)" "objects (rpcSystem.net s) = objects (rpcSystem.net (rpcView cl))"
      "callMoves (rpcSystem.net (rpcView cl)) (crpcs cl ! c) y None" "rpcs s = (rpcs (rpcView cl))[c := y]"
    with len show thesis
      by (intro move [of c y]) (auto simp: t fromRpc_def v n calm_def)
  next
    fix addr rs h rep y
    assume hd: "handles (crpcs cl ! c) addr rep y"
      and d: "Server_dispatch (reqOf (crpcs cl ! c)) (objects (rpcSystem.net (rpcView cl)) addr)
        (store (rpcView cl)) = Inr (rs, h, rep)"
      and st: "store s = h"
      "objects (rpcSystem.net s) = (objects (rpcSystem.net (rpcView cl)))(addr := rs)"
      "rpcs s = (rpcs (rpcView cl))[c := y]"
    from ok len have r: "rpc_ok (allocated cl) (dials cl) (cfg cl) (crpcs cl ! c)"
      by (simp add: cluster_ok_def)
    with hd have addr: "addr \<in> allocated cl"
      by (cases rule: handles.cases) (auto simp: rpc_ok_def leadsTo_def)
    from r obtain e args0 where q: "reqOf (crpcs cl ! c) = theRequest e args0" by (auto simp: rpc_ok_def)
    from ok addr have srv: "services (objects (cnet (cfg cl)) addr) = services (raftServer addr)"
      by (simp add: cluster_ok_def wiring_ok_def object_ok_def)
    from d q raft_dispatch [OF srv] obtain rf z where
      h: "handlerOf args0 (heap (cfg cl) addr) = Inr (rf, z)" "h = (heap (cfg cl))(addr := rf)"
        "rep = \<lparr>ok = True, reply = Some z\<rparr>"
        "rs = (objects (cnet (cfg cl)) addr)\<lparr>incoming := incoming (objects (cnet (cfg cl)) addr) + 1\<rparr>"
      by (auto simp: v split: sum.splits)
    have "objs = (objects (cnet (cfg cl)))(addr := rs)" using st(2) by (simp add: n v)
    then have "calm (cfg cl) (cfg t)"
      using handlerOf_spec [OF h(1)] by (auto simp: t fromRpc_def calm_def n st v h)
    with len q hd addr h st show thesis
      by (intro handler [of c e args0 addr z y rf]) (auto simp: t fromRpc_def v)
  qed
qed

section \<open>Well-formedness is kept\<close>

lemma awaits_apart_append:
  "awaits_apart ts \<Longrightarrow> \<forall>x \<in> set us. awaits (snd x) = None \<Longrightarrow> awaits_apart (ts @ us)"
  unfolding awaits_apart_def by (auto simp: nth_append split: if_splits)

lemma awaits_apart_update:
  assumes apart: "awaits_apart ts"
    and x: "\<And>k. awaits (snd x) = Some k \<Longrightarrow> \<forall>y \<in> set ts. awaits (snd y) \<noteq> Some k"
  shows "awaits_apart (ts[g := x])"
  unfolding awaits_apart_def
proof (intro allI impI)
  fix a b k
  assume "a < length (ts[g := x])" "b < length (ts[g := x])"
    "awaits (snd (ts[g := x] ! a)) = Some k" "awaits (snd (ts[g := x] ! b)) = Some k"
  with x [of k] nth_mem [of a ts] nth_mem [of b ts] apart show "a = b"
    by (cases "g = a"; cases "g = b") (auto simp: awaits_apart_def)
qed

lemma cluster_ok_calm:
  assumes ok: "cluster_ok cl" and same: "allocated t = allocated cl" "dials t = dials cl"
    and calm: "calm (cfg cl) (cfg t)"
    and rpcs: "\<forall>x \<in> set (crpcs t). rpc_ok (allocated cl) (dials cl) (cfg t) x"
    and threads: "\<forall>x \<in> set (threads t). thread_ok (allocated cl) (dials cl) (cfg t) (crpcs t) x"
    and apart: "awaits_apart (threads t)"
  shows "cluster_ok t"
  using calm_wiring [OF calm] ok rpcs threads apart by (simp add: cluster_ok_def same)

lemma cluster_ok_parts:
  assumes "cluster_ok cl"
  shows "wiring_ok (allocated cl) (dials cl) (cfg cl)"
    and "x \<in> set (crpcs cl) \<Longrightarrow> rpc_ok (allocated cl) (dials cl) (cfg cl) x"
    and "y \<in> set (threads cl) \<Longrightarrow> thread_ok (allocated cl) (dials cl) (cfg cl) (crpcs cl) y"
    and "awaits_apart (threads cl)"
  using assms by (auto simp: cluster_ok_def)

text \<open>A peer moves, and its goroutines are replaced or joined by others.\<close>

lemma cluster_ok_local:
  assumes ok: "cluster_ok cl" and me: "me rf = me (heap (cfg cl) p)"
    and ts: "\<forall>x \<in> set ts. x \<in> set (threads cl) \<or>
      thread_ok (allocated cl) (dials cl) (cfg cl) (crpcs cl) x"
    and apart: "awaits_apart ts"
  shows "cluster_ok ((setPeer p rf cl)\<lparr>threads := ts\<rparr>)"
proof -
  let ?t = "(setPeer p rf cl)\<lparr>threads := ts\<rparr>"
  have c: "calm (cfg cl) (cfg ?t)" using calm_setPeer [OF me] by simp
  have "thread_ok (allocated cl) (dials cl) (cfg ?t) (crpcs cl) x"
    if "thread_ok (allocated cl) (dials cl) (cfg cl) (crpcs cl) x" for x
    by (rule calm_thread [OF c that]) simp_all
  with ts cluster_ok_parts(3) [OF ok]
  have "\<forall>x \<in> set ts. thread_ok (allocated cl) (dials cl) (cfg ?t) (crpcs cl) x" by blast
  moreover have "\<forall>x \<in> set (crpcs cl). rpc_ok (allocated cl) (dials cl) (cfg ?t) x"
    using cluster_ok_parts(2) [OF ok] calm_rpc [OF c] by blast
  ultimately show ?thesis
    by (intro cluster_ok_calm [OF ok _ _ c]) (simp_all add: apart)
qed

lemma cluster_ok_send:
  assumes ok: "cluster_ok cl" and s: "sends (dials cl p ! q) a cl' t"
    and cl': "cl' = (setPeer p rf cl)\<lparr>threads := (threads cl)[g := (p, r)]\<rparr>"
    and p: "p \<in> allocated cl" and q: "q < cn (cfg cl)" and me: "me rf = me (heap (cfg cl) p)"
    and r: "follows (cn (cfg cl)) (me rf) r" "awaits r = Some (length (crpcs cl))" "asked r = Some (q, a)"
  shows "cluster_ok t"
proof -
  have c: "calm (cfg cl) (cfg t)"
    using s calm_setPeer [OF me] by (auto simp: sends_def cl' calm_def)
  have len: "crpcs t = crpcs cl @ [Requested (theRequest (dials cl p ! q) a)]"
    "threads t = (threads cl)[g := (p, r)]" "dials t = dials cl" "allocated t = allocated cl"
    using s by (simp_all add: sends_def cl')
  have n: "cn (cfg t) = cn (cfg cl)" "me (heap (cfg t) p) = me rf" using c me by (simp_all add: calm_def)
  have fresh: "awaits (snd y) \<noteq> Some (length (crpcs cl))" if "y \<in> set (threads cl)" for y
    using cluster_ok_parts(3) [OF ok that] by (auto simp: thread_ok_def)
  have "thread_ok (allocated cl) (dials cl) (cfg t) (crpcs t) (p, r)"
    using p r n by (auto simp: thread_ok_def len)
  moreover have "thread_ok (allocated cl) (dials cl) (cfg t) (crpcs t) x" if "x \<in> set (threads cl)" for x
    by (rule calm_thread [OF c cluster_ok_parts(3) [OF ok that]]) (simp_all add: len nth_append)
  ultimately have "\<forall>x \<in> set (threads t). thread_ok (allocated cl) (dials cl) (cfg t) (crpcs t) x"
    using set_update_subset_insert [of "threads cl" g "(p, r)"] unfolding len(2) by blast
  moreover have "rpc_ok (allocated cl) (dials cl) (cfg t) (Requested (theRequest (dials cl p ! q) a))"
    using p q n by (auto simp: rpc_ok_def)
  then have "\<forall>x \<in> set (crpcs t). rpc_ok (allocated cl) (dials cl) (cfg t) x"
    using cluster_ok_parts(2) [OF ok] calm_rpc [OF c] by (auto simp: len(1))
  moreover have "awaits_apart (threads t)"
    unfolding len using r(2) fresh by (intro awaits_apart_update cluster_ok_parts(4) [OF ok]) auto
  ultimately show ?thesis by (intro cluster_ok_calm [OF ok _ _ c]) (simp_all add: len)
qed

text \<open>A call moves.\<close>

lemma rpc_ok_move:
  assumes ok: "wiring_ok A D c" and x: "rpc_ok A D c x" and m: "callMoves (cnet c) x y r"
    and r: "\<And>rep. r = Some rep \<Longrightarrow> typed (reqOf x) rep"
  shows "rpc_ok A D c y"
proof -
  have "placed A c y"
    using m
  proof cases
    case (begin_ok req name addr rel lr)
    then have s: "connections (cnet c) (endname req) = Some name" "servers (cnet c) name = Some addr"
      by (auto simp: readEndnameInfo_def Let_def split: option.splits)
    from server_live [OF ok s(2)] s(1) begin_ok show ?thesis by (auto simp: leadsTo_def)
  qed (use x r in \<open>auto simp: rpc_ok_def failed_def\<close>)
  with x callMoves_req [OF m] show ?thesis by (simp add: rpc_ok_def)
qed

lemma handles_moves: "handles x addr rep y \<Longrightarrow> ok rep \<Longrightarrow> callMoves rn x y (Some rep)"
  by (cases rule: handles.cases) (auto intro: callMoves.intros)

lemma cluster_ok_call:
  assumes ok: "cluster_ok cl" and c: "c < length (crpcs cl)" and calm: "calm (cfg cl) (cfg t)"
    and t: "crpcs t = (crpcs cl)[c := y]" "threads t = threads cl" "dials t = dials cl"
      "allocated t = allocated cl"
    and m: "callMoves (cnet (cfg cl)) (crpcs cl ! c) y r"
    and r: "\<And>rep. r = Some rep \<Longrightarrow> typed (reqOf (crpcs cl ! c)) rep"
  shows "cluster_ok t"
proof -
  note parts = cluster_ok_parts [OF ok]
  have "rpc_ok (allocated cl) (dials cl) (cfg cl) y"
    using rpc_ok_move [OF parts(1) parts(2) m r] c by simp
  then have "\<forall>x \<in> set (crpcs t). rpc_ok (allocated cl) (dials cl) (cfg t) x"
    using parts(2) calm_rpc [OF calm] by (auto simp: t dest!: set_update_subset_insert [THEN subsetD])
  moreover have "reqOf (crpcs t ! k) = reqOf (crpcs cl ! k)" if "k < length (crpcs cl)" for k
    using callMoves_req [OF m] that by (cases "k = c") (auto simp: t)
  then have "thread_ok (allocated cl) (dials cl) (cfg t) (crpcs t) x" if "x \<in> set (threads cl)" for x
    by (intro calm_thread [OF calm parts(3) [OF that]]) (simp_all add: t)
  then have "\<forall>x \<in> set (threads t). thread_ok (allocated cl) (dials cl) (cfg t) (crpcs t) x"
    by (simp add: t)
  ultimately show ?thesis
    by (intro cluster_ok_calm [OF ok _ _ calm]) (use parts(4) in \<open>simp_all add: t\<close>)
qed

text \<open>The tester switches ends, crashes a peer, or crashes it and starts another.\<close>

lemma tester_parts:
  assumes "clusterStep al rl (TesterActs a) cl = Some t"
  shows "byTester cl a" "testStep raftMethods a (cfg cl) = Some (cfg t)"
    "crpcs t = crpcs (afterTest a cl)" "threads t = threads (afterTest a cl)"
    "allocated t = allocated (afterTest a cl)" "dials t = dials (afterTest a cl)"
  using assms by (auto split: if_splits)

lemma tester_cases:
  assumes step: "clusterStep al rl (TesterActs a) cl = Some t"
    and ok: "wiring_ok (allocated cl) (dials cl) (cfg cl)"
  obtains (switch) "cn (cfg t) = cn (cfg cl)" "rafts (cfg t) = rafts (cfg cl)" "saved (cfg t) = saved (cfg cl)"
      "heap (cfg t) = heap (cfg cl)" "connections (cnet (cfg t)) = connections (cnet (cfg cl))"
      "crpcs t = crpcs cl" "threads t = threads cl" "allocated t = allocated cl" "dials t = dials cl"
      "\<forall>i names p. a \<noteq> StartPeer i names p" "\<forall>i. a \<noteq> CrashPeer i"
  | (crash) i where "a = CrashPeer i" "i < cn (cfg cl)" "crash1 i (cfg cl) = Inr (cfg t)"
      "crpcs t = crpcs cl" "threads t = threads cl" "allocated t = allocated cl" "dials t = dials cl"
  | (start) i names p u where "a = StartPeer i names p" "i < cn (cfg cl)" "crash1 i (cfg cl) = Inr u"
      "wiring_ok (allocated cl) (dials cl) u" "startsAt i (take (cn (cfg cl)) names) p u (cfg t)"
      "cn u = cn (cfg cl)" "rafts u ! i = None" "p \<notin> allocated cl"
      "allocated t = insert p (allocated cl)" "dials t = (dials cl)(p := take (cn (cfg cl)) names)"
      "crpcs t = crpcs cl" "threads t = threads cl"
proof -
  note b = tester_parts(1) [OF step] and st = tester_parts(2) [OF step] and t = tester_parts(3-6) [OF step]
  have idx: "i < cn (cfg cl)" if "connect i (cfg cl) = Inr u \<or> disconnect i (cfg cl) = Inr u" for i u
    using testStep_index [OF _ that] ok by (simp add: wiring_ok_def)
  show thesis
  proof (cases a)
    case (ConnectPeer i)
    with st have c: "connect i (cfg cl) = Inr (cfg t)" by (simp add: testStep_def split: sum.splits)
    from connect_effect [OF c idx [OF disjI1, OF c]] t ConnectPeer show thesis by (intro switch) simp_all
  next
    case (DisconnectPeer i)
    with st have c: "disconnect i (cfg cl) = Inr (cfg t)" by (simp add: testStep_def split: sum.splits)
    from disconnect_effect [OF c idx [OF disjI2, OF c]] t DisconnectPeer show thesis by (intro switch) simp_all
  next
    case (CrashPeer i)
    with st have c: "crash1 i (cfg cl) = Inr (cfg t)" by (simp add: testStep_def split: sum.splits)
    then obtain u where "disconnect i (cfg cl) = Inr u" by (rule crash1_effect)
    from idx [OF disjI2, OF this] c t CrashPeer show thesis by (intro crash [of i]) simp_all
  next
    case (StartPeer i names p)
    with st have s: "start1 raftMethods i names p (cfg cl) = Inr (cfg t)"
      by (simp add: testStep_def split: sum.splits)
    then obtain u v where "crash1 i (cfg cl) = Inr u" "disconnect i (cfg cl) = Inr v"
      by (metis start1_effect crash1_effect)
    from idx [OF disjI2, OF this(2)] have i: "i < cn (cfg cl)" .
    from start1_startsAt [OF ok s i] obtain u where
      "crash1 i (cfg cl) = Inr u" "wiring_ok (allocated cl) (dials cl) u"
      "startsAt i (take (cn (cfg cl)) names) p u (cfg t)" "cn u = cn (cfg cl)" "rafts u ! i = None" by metis
    with StartPeer i b show thesis
      by (intro start [of i names p u]) (simp_all add: t)
  next
    case (SetUnreliable x)
    with st have "cfg t = setunreliable x (cfg cl)" by (simp add: testStep_def)
    with t SetUnreliable show thesis by (intro switch) (simp_all add: setunreliable_def Reliable_def)
  next
    case (SetReordering x)
    with st have "cfg t = setlongreordering x (cfg cl)" by (simp add: testStep_def)
    with t SetReordering show thesis
      by (intro switch) (simp_all add: setlongreordering_def LongReordering_def)
  qed (use b in simp)
qed

text \<open>Where an end leads and which peer an object is, the tester never changes.\<close>

lemma start_frame:
  assumes st: "startsAt i es p u t" and new: "p \<notin> A" and ok: "wiring_ok A D u"
  shows "cn t = cn u" "\<And>x. x \<in> A \<Longrightarrow> heap t x = heap u x"
    "\<And>x q. x \<in> A \<Longrightarrow> q < cn u \<Longrightarrow> connections (cnet t) (D x ! q) = connections (cnet u) (D x ! q)"
proof -
  from st obtain rf rn where e: "ends_made es [0..<cn u] (cnet u) rn" "heap t = (heap u)(p := rf)"
    "cn t = cn u" "connections (cnet t) = connections rn"
    unfolding startsAt_def by (auto simp: AddServer_def)
  then show "cn t = cn u" "\<And>x. x \<in> A \<Longrightarrow> heap t x = heap u x" using new by auto
  fix x q assume "x \<in> A" "q < cn u"
  with ok have "D x ! q \<in> ends (cnet u)" by (simp add: wiring_ok_def object_ok_def)
  with e(1) have "D x ! q \<notin> (!) es ` set [0..<cn u]" unfolding ends_made_def by blast
  with e(1) show "connections (cnet t) (D x ! q) = connections (cnet u) (D x ! q)"
    by (simp add: e(4) ends_made_def)
qed

lemma crash_frame:
  assumes t: "crash1 i c = Inr t" and i: "i < cn c" and ok: "wiring_ok A D c"
  shows "cn t = cn c" "connections (cnet t) = connections (cnet c)" "me (heap t p) = me (heap c p)"
  using crash1_peers [OF t i] wiring_lengths [OF ok] me_crash [OF ok t i]
  by (auto simp: DeleteServer_def)

lemma cluster_ok_grow:
  assumes ok: "cluster_ok cl" and wire: "wiring_ok (allocated t) (dials t) (cfg t)"
    and same: "crpcs t = crpcs cl" "threads t = threads cl" and sub: "allocated cl \<subseteq> allocated t"
    and old: "\<And>p. p \<in> allocated cl \<Longrightarrow> me (heap (cfg t) p) = me (heap (cfg cl) p)"
      "\<And>p. p \<in> allocated cl \<Longrightarrow> dials t p = dials cl p" "cn (cfg t) = cn (cfg cl)"
      "\<And>p q. p \<in> allocated cl \<Longrightarrow> q < cn (cfg cl) \<Longrightarrow>
        connections (cnet (cfg t)) (dials cl p ! q) = connections (cnet (cfg cl)) (dials cl p ! q)"
  shows "cluster_ok t"
proof -
  note parts = cluster_ok_parts [OF ok]
  have "rpc_ok (allocated t) (dials t) (cfg t) x" if "x \<in> set (crpcs cl)" for x
    by (rule rpc_ok_mono [OF parts(2) [OF that] sub]) (simp_all add: old)
  moreover have "thread_ok (allocated t) (dials t) (cfg t) (crpcs cl) x" if "x \<in> set (threads cl)" for x
    by (rule thread_ok_mono [OF parts(3) [OF that] sub]) (simp_all add: old)
  ultimately show ?thesis using wire parts(4) by (simp add: cluster_ok_def same)
qed

lemma cluster_ok_test:
  assumes ok: "cluster_ok cl" and step: "clusterStep al rl (TesterActs a) cl = Some t"
  shows "cluster_ok t"
proof -
  note w = cluster_ok_parts(1) [OF ok]
  note p = tester_parts [OF step]
  from wiring_test [OF w p(1,2)] have wire: "wiring_ok (allocated t) (dials t) (cfg t)" by (simp add: p)
  from step w show ?thesis
  proof (cases rule: tester_cases)
    case switch
    show ?thesis
      by (rule cluster_ok_grow [OF ok wire]) (simp_all add: switch(1-9))
  next
    case (crash i)
    from crash_frame [OF crash(3,2) w] show ?thesis
      by (intro cluster_ok_grow [OF ok wire]) (simp_all add: crash)
  next
    case (start i names p u)
    note c = crash_frame [OF start(3,2) w] and s = start_frame [OF start(5,8,4)]
    show ?thesis
      by (rule cluster_ok_grow [OF ok wire]) (use c s start in auto)
  qed
qed

text \<open>Every step.\<close>

lemma cluster_ok_step:
  assumes ok: "cluster_ok cl" and step: "clusterStep al rl a cl = Some t"
  shows "cluster_ok t"
proof (cases a)
  case (PeerActs p b)
  with step obtain rf rs where p: "p \<in> allocated cl" "actor b = Some (me (heap (cfg cl) p))"
    and l: "localAct (cn (cfg cl)) b (heap (cfg cl) p) = Some (rf, rs)"
    and t: "t = (setPeer p rf cl)\<lparr>threads := threads cl @ map (Pair p) rs\<rparr>"
    by (auto simp: Let_def split: if_splits option.splits)
  from localAct_spec [OF l p(2)] p(1) have "me rf = me (heap (cfg cl) p)"
    "\<forall>x \<in> set (map (Pair p) rs). thread_ok (allocated cl) (dials cl) (cfg cl) (crpcs cl) x"
    "\<forall>x \<in> set (map (Pair p) rs). awaits (snd x) = None"
    by (auto simp: thread_ok_def)
  then show ?thesis unfolding t
    by (intro cluster_ok_local [OF ok] awaits_apart_append cluster_ok_parts(4) [OF ok]) auto
next
  case (ThreadRuns g)
  with step obtain p r rf nxt send where g: "g < length (threads cl)" "threads cl ! g = (p, r)"
    and l: "localRun (cn (cfg cl)) (heap (cfg cl) p) r = Some (rf, nxt, send)"
    by (auto split: if_splits option.splits prod.splits)
  let ?n = "length (crpcs cl)" and ?i = "me (heap (cfg cl) p)"
  let ?c = "(setPeer p rf cl)\<lparr>threads := (threads cl)[g := (p, nxt ?n)]\<rparr>"
  from cluster_ok_parts(3) [OF ok, of "(p, r)"] g have r: "p \<in> allocated cl" "follows (cn (cfg cl)) ?i r"
    by (auto simp: thread_ok_def dest: nth_mem)
  note sp = localRun_spec [OF l r(2), of ?n]
  show ?thesis
  proof (cases send)
    case None
    with ThreadRuns step g l have t: "t = ?c" by simp
    from sp None r(1) have "thread_ok (allocated cl) (dials cl) (cfg cl) (crpcs cl) (p, nxt ?n)"
      "awaits (nxt ?n) = None" by (auto simp: thread_ok_def)
    then show ?thesis unfolding t
      by (intro cluster_ok_local [OF ok] awaits_apart_update cluster_ok_parts(4) [OF ok])
        (use sp in \<open>auto dest: set_update_subset_insert [THEN subsetD]\<close>)
  next
    case (Some x)
    then obtain q a where send: "send = Some (q, a)" by (cases x) auto
    with ThreadRuns step g l obtain s where
      "rpcStep al rl (SendCall (dials cl p ! q) (methodName a) a) (rpcView ?c) = Some s" "t = fromRpc s ?c"
      by (auto simp: Let_def)
    with SendCall_sends have "sends (dials cl p ! q) a ?c t" by metis
    from cluster_ok_send [OF ok this refl r(1)] sp send show ?thesis by simp
  qed
next
  case (ThreadReturns g)
  with step obtain p r c x rf r' where g: "g < length (threads cl)" "threads cl ! g = (p, r)"
    and c: "awaits r = Some c" "callOutcome (crpcs cl ! c) = Some x"
    and l: "localReturn (cn (cfg cl)) (heap (cfg cl) p) r x = Some (rf, r')"
    and t: "t = (setPeer p rf cl)\<lparr>threads := (threads cl)[g := (p, r')]\<rparr>"
    by (auto split: if_splits option.splits prod.splits)
  from cluster_ok_parts(3) [OF ok, of "(p, r)"] g
  have r: "p \<in> allocated cl" "follows (cn (cfg cl)) (me (heap (cfg cl) p)) r"
    by (auto simp: thread_ok_def dest: nth_mem)
  note sp = localReturn_spec [OF l r(2)]
  from sp r(1) have "thread_ok (allocated cl) (dials cl) (cfg cl) (crpcs cl) (p, r')"
    by (auto simp: thread_ok_def)
  then show ?thesis unfolding t
    by (intro cluster_ok_local [OF ok] awaits_apart_update cluster_ok_parts(4) [OF ok])
      (use sp in \<open>auto dest: set_update_subset_insert [THEN subsetD]\<close>)
next
  case (NetworkActs b)
  from step [unfolded NetworkActs] ok show ?thesis
  proof (cases rule: network_cases)
    case (move c y)
    from cluster_ok_call [OF ok move(1,8,3-6,2)] show ?thesis by simp
  next
    case (handler c addr e args0 rf z y)
    have "callMoves (cnet (cfg cl)) (crpcs cl ! c) y (Some \<lparr>ok = True, reply = Some z\<rparr>)"
      by (rule handles_moves [OF handler(3)]) simp
    moreover have "typed (reqOf (crpcs cl ! c)) \<lparr>ok = True, reply = Some z\<rparr>"
      using handlerOf_spec [OF handler(5)] by (simp add: handler(2) typed_def theRequest_def)
    ultimately show ?thesis
      by (intro cluster_ok_call [OF ok handler(1,11,6-9)]) auto
  qed
next
  case (TesterActs b)
  from cluster_ok_test [OF ok step [unfolded TesterActs]] show ?thesis .
qed

lemma cluster_ok_init: "clusterInit cl \<Longrightarrow> cluster_ok cl"
  by (auto simp: clusterInit_def emptyCluster_def cluster_ok_def awaits_apart_def wiring_ok_def net_inv_def
      emptyConfig_def nameOf_def newNetwork_def running_ok_def servers_ok_def runs_def ends_apart_def
      LongDelays_def Reliable_def MakeNetwork_def split: if_splits)

interpretation cluster: invariant clusterInit "clusterStep al rl" cluster_ok
  by unfold_locales (auto intro: cluster_ok_init cluster_ok_step)

section \<open>Reflection and labgob never see a wrong type\<close>

text \<open>What the network holds of a call: the object at which it runs, and its reply.\<close>

fun runsAt :: "('e, 'a, 'r) call \<Rightarrow> nat option" where
  "runsAt (Running req name addr rel lr) = Some addr"
| "runsAt (Orphan req addr) = Some addr"
| "runsAt _ = None"

fun replyOf :: "('e, 'a, 'r) call \<Rightarrow> 'r replyMsg option" where
  "replyOf (Returned req name addr rel lr rep) = Some rep"
| "replyOf (Replying req rep) = Some rep"
| "replyOf (Answered req rep) = Some rep"
| "replyOf _ = None"

text \<open>The dispatch of a request at an object is the handler of its peer on the arguments.\<close>

definition dispatchesTo :: "'c raftArgs \<Rightarrow> nat \<Rightarrow> 'c cluster \<Rightarrow> (string, 'c raftArgs) reqMsg \<Rightarrow> bool" where
  "dispatchesTo a addr cl req \<longleftrightarrow>
     (case Server_dispatch req (objects (cnet (cfg cl)) addr) (heap (cfg cl)) of
        Inl f \<Rightarrow> handlerOf a (heap (cfg cl) addr) = Inl f
      | Inr (rs, h, rep) \<Rightarrow>
         (\<exists>rf y. handlerOf a (heap (cfg cl) addr) = Inr (rf, y) \<and> h = (heap (cfg cl))(addr := rf) \<and>
            rep = \<lparr>ok = True, reply = Some y\<rparr>))"

text \<open>C5. Reflection is typed. In every reachable cluster, whatever has crashed, every call on the
  network names the method that belongs to its arguments; where it runs, labrpc's dispatch finds a
  server, its service \<open>Raft\<close> and the method, whose handler then runs on the peer object found there,
  so that \<open>log.Fatalf\<close> for an unknown service or method and a panic of \<open>reflect.Value.Call\<close> never
  happen; and every reply that is not a failure is of the type that the caller decodes.\<close>

theorem calls_well_typed:
  assumes "reachable clusterInit (clusterStep al rl) cl" and "x \<in> set (crpcs cl)"
  shows "\<exists>e a. reqOf x = theRequest e a \<and>
    (\<forall>addr. runsAt x = Some addr \<longrightarrow> dispatchesTo a addr cl (reqOf x)) \<and>
    (\<forall>rep. replyOf x = Some rep \<and> ok rep \<longrightarrow> (\<exists>y. reply rep = Some y \<and> answers a y))"
proof -
  have ok: "cluster_ok cl" using assms(1) by (rule cluster.reachable_inv)
  note parts = cluster_ok_parts [OF ok]
  from parts(2) [OF assms(2)] obtain e a where x: "reqOf x = theRequest e a"
    and p: "placed (allocated cl) (cfg cl) x" by (auto simp: rpc_ok_def)
  have "dispatchesTo a addr cl (reqOf x)" if "runsAt x = Some addr" for addr
  proof -
    have "addr \<in> allocated cl" using p that by (cases x) (auto simp: leadsTo_def)
    with parts(1) have srv: "services (objects (cnet (cfg cl)) addr) = services (raftServer addr)"
      by (simp add: wiring_ok_def object_ok_def)
    show ?thesis
      unfolding dispatchesTo_def x raft_dispatch [OF srv] by (auto split: sum.splits)
  qed
  moreover have "\<exists>y. reply rep = Some y \<and> answers a y" if "replyOf x = Some rep" "ok rep" for rep
    using p x that by (cases x) (auto simp: typed_def theRequest_def)
  ultimately show ?thesis using x by blast
qed

end
