(* ===== verification/RaftRefines.thy ===== *)
theory RaftRefines
  imports RaftCalls
begin

text \<open>
  The cluster of RaftCluster implements RaftSystem: every step of peers, calls and tester is one
  step of the abstract system or none. A call under way stands for a packet, numbered by \<open>\<sigma>\<close>;
  what a crashed peer's goroutines still do has no counterpart, since their ends are dead and
  nobody finds their object any more. \<open>StartPeer\<close> is the abstract restart.
\<close>

section \<open>Packets and goroutines of the abstract system\<close>

fun renum :: "(nat \<Rightarrow> nat) \<Rightarrow> 'c routine \<Rightarrow> 'c routine" where
  "renum f (AwaitVote i a p vc vg c) = AwaitVote i a p vc vg (f c)"
| "renum f (AwaitAppend i j next term a c) = AwaitAppend i j next term a (f c)"
| "renum f r = r"

lemma renum_simps [simp]:
  "actsFor (renum f r) = actsFor r" "asked (renum f r) = asked r"
  "awaits (renum f r) = map_option f (awaits r)"
  by (cases r; simp)+

lemma renum_idle [simp]: "awaits r = None \<Longrightarrow> renum f r = r"
  by (cases r) auto

lemma renum_cong: "(\<And>k. awaits r = Some k \<Longrightarrow> f k = g k) \<Longrightarrow> renum f r = renum g r"
  by (cases r) auto

lemma localRun_renum:
  assumes "localRun n rf r = Some (rf', nxt, send)"
  shows "renum f r = r" "renum f (nxt c) = nxt (f c)"
  using assms by (cases r; auto split: if_splits sum.splits prod.splits)+

lemma localReturn_renum: "localReturn n rf (renum f r) x = localReturn n rf r x"
  by (cases "(n, rf, r, x)" rule: localReturn.cases) auto

lemma stop_other: "actsFor r \<noteq> Some i \<Longrightarrow> stopRoutine i r = r"
  by (cases r) auto

text \<open>
  A call and the packets it may stand for: the request as long as its handler may still run at a
  peer that is alive, the reply as long as the call can return it.
\<close>

definition goesTo :: "('c, 'c raftArgs, raftReply) config \<Rightarrow> (string, 'c raftArgs) reqMsg \<Rightarrow> nat \<Rightarrow> bool" where
  "goesTo c req q \<longleftrightarrow> connections (cnet c) (endname req) = Some (IntName (int q))"

definition inFlight :: "('c, 'c raftArgs, raftReply) config \<Rightarrow> 'c packet list \<Rightarrow> nat
  \<Rightarrow> (string, 'c raftArgs) reqMsg \<Rightarrow> bool" where
  "inFlight c ps k req \<longleftrightarrow> (\<forall>q. goesTo c req q \<longrightarrow> requestPacket k q (args req) \<in> set ps)"

definition comesBack :: "('c, 'c raftArgs, raftReply) config \<Rightarrow> 'c packet list \<Rightarrow> nat
  \<Rightarrow> (string, 'c raftArgs) reqMsg \<Rightarrow> raftReply replyMsg \<Rightarrow> bool" where
  "comesBack c ps k req rep \<longleftrightarrow> (\<forall>q y. goesTo c req q \<longrightarrow> reply rep = Some y \<longrightarrow>
     replyPacket k q (args req) y \<in> set ps)"

fun carried :: "('c, 'c raftArgs, raftReply) config \<Rightarrow> 'c packet list \<Rightarrow> bool \<Rightarrow> nat
  \<Rightarrow> (string, 'c raftArgs, raftReply) call \<Rightarrow> bool" where
  "carried c ps w k (Requested req) = inFlight c ps k req"
| "carried c ps w k (Running req name addr rel lr) = (isLive c addr \<longrightarrow> inFlight c ps k req)"
| "carried c ps w k (Orphan req addr) = (isLive c addr \<longrightarrow> inFlight c ps k req)"
| "carried c ps w k (Returned req name addr rel lr rep) = (isLive c addr \<longrightarrow> comesBack c ps k req rep)"
| "carried c ps w k (Replying req rep) = comesBack c ps k req rep"
| "carried c ps w k (Answered req rep) = (w \<and> ok rep \<longrightarrow> comesBack c ps k req rep)"
| "carried c ps w k (Refused req) = True"

text \<open>A call of a crashed peer that the network will refuse.\<close>

fun deadEnd :: "nat set \<Rightarrow> (nat \<Rightarrow> string list) \<Rightarrow> ('c, 'c raftArgs, raftReply) config
  \<Rightarrow> (string, 'c raftArgs, raftReply) call \<Rightarrow> bool" where
  "deadEnd A D c (Requested req) \<longleftrightarrow> (\<exists>p \<in> A. \<exists>q < cn c. endname req = D p ! q \<and> \<not> isLive c p)"
| "deadEnd A D c (Answered req rep) = True"
| "deadEnd A D c (Refused req) = True"
| "deadEnd A D c x = False"

definition liveThread :: "'c cluster \<Rightarrow> nat \<Rightarrow> bool" where
  "liveThread cl g \<longleftrightarrow> g < length (threads cl) \<and> isLive (cfg cl) (fst (threads cl ! g))"

definition awaited :: "'c cluster \<Rightarrow> nat \<Rightarrow> bool" where
  "awaited cl k \<longleftrightarrow> (\<exists>g. liveThread cl g \<and> awaits (snd (threads cl ! g)) = Some k)"

definition peers_match :: "'c cluster \<Rightarrow> 'c system \<Rightarrow> bool" where
  "peers_match cl s \<longleftrightarrow> nservers s = cn (cfg cl) \<and>
     (\<forall>i < cn (cfg cl). (\<forall>p. runs (cfg cl) i p \<longrightarrow> nodes s i = heap (cfg cl) p) \<and>
        (rafts (cfg cl) ! i = None \<longrightarrow> persister (nodes s i) = savedCopy i (cfg cl)))"

definition threads_match :: "(nat \<Rightarrow> nat) \<Rightarrow> (nat \<Rightarrow> nat) \<Rightarrow> 'c cluster \<Rightarrow> 'c system \<Rightarrow> bool" where
  "threads_match \<sigma> \<tau> cl s \<longleftrightarrow>
     (\<forall>g. liveThread cl g \<longrightarrow> \<tau> g < length (routines s) \<and>
        routines s ! \<tau> g = renum \<sigma> (snd (threads cl ! g))) \<and>
     (\<forall>g h. liveThread cl g \<longrightarrow> liveThread cl h \<longrightarrow> \<tau> g = \<tau> h \<longrightarrow> g = h)"

definition calls_match :: "(nat \<Rightarrow> nat) \<Rightarrow> nat set \<Rightarrow> 'c cluster \<Rightarrow> 'c system \<Rightarrow> bool" where
  "calls_match \<sigma> T cl s \<longleftrightarrow> T \<subseteq> {..<length (crpcs cl)} \<and> inj_on \<sigma> T \<and> (\<forall>k \<in> T. \<sigma> k < calls s) \<and>
     (\<forall>k. awaited cl k \<longrightarrow> k \<in> T) \<and>
     (\<forall>k \<in> T. carried (cfg cl) (system.net s) (awaited cl k) (\<sigma> k) (crpcs cl ! k)) \<and>
     (\<forall>k < length (crpcs cl). k \<notin> T \<longrightarrow> deadEnd (allocated cl) (dials cl) (cfg cl) (crpcs cl ! k))"

definition matches :: "(nat \<Rightarrow> nat) \<Rightarrow> (nat \<Rightarrow> nat) \<Rightarrow> nat set \<Rightarrow> 'c cluster \<Rightarrow> 'c system \<Rightarrow> bool" where
  "matches \<sigma> \<tau> T cl s \<longleftrightarrow> cluster_ok cl \<and> peers_match cl s \<and> threads_match \<sigma> \<tau> cl s \<and> calls_match \<sigma> T cl s"

definition implements :: "'c cluster \<Rightarrow> 'c system \<Rightarrow> bool" where
  "implements cl s \<longleftrightarrow> (\<exists>\<sigma> \<tau> T. matches \<sigma> \<tau> T cl s)"

section \<open>What leaves the correspondence as it is\<close>

fun packetNo :: "'c packet \<Rightarrow> nat" where
  "packetNo (VoteReq k q a) = k"
| "packetNo (VoteRep k q a r) = k"
| "packetNo (AppReq k q a) = k"
| "packetNo (AppRep k q a r) = k"

lemma packetNo_simps [simp]:
  "packetNo (requestPacket k q a) = k" "packetNo (replyPacket k q a y) = k"
  by (cases a; simp) (cases "(k, q, a, y)" rule: replyPacket.cases; cases a; simp)

definition sameLive :: "nat set \<Rightarrow> ('c, 'c raftArgs, raftReply) config
  \<Rightarrow> ('c, 'c raftArgs, raftReply) config \<Rightarrow> bool" where
  "sameLive A c t \<longleftrightarrow> (\<forall>p \<in> A. isLive t p \<longrightarrow> isLive c p)"

lemma calm_live: "calm c t \<Longrightarrow> isLive t = isLive c"
  by (simp add: isLive_def calm_runs fun_eq_iff)

lemma setPeer_live [simp]: "isLive (cfg (setPeer p rf cl)) = isLive (cfg cl)"
  by (simp add: isLive_def fun_eq_iff)

lemma calm_sameLive: "calm c t \<Longrightarrow> sameLive A c t"
  by (simp add: sameLive_def calm_live)

lemma carried_mono:
  assumes "carried c ps w k x" and "placed A c x" and "sameLive A c t" and "w' \<Longrightarrow> w"
    and "\<forall>pk \<in> set ps. packetNo pk = k \<longrightarrow> pk \<in> set qs"
    and "connections (cnet t) (endname (reqOf x)) = connections (cnet c) (endname (reqOf x))"
  shows "carried t qs w' k x"
  using assms
  by (cases x) (auto simp: inFlight_def comesBack_def goesTo_def sameLive_def leadsTo_def)

lemma deadEnd_mono:
  assumes "deadEnd A D c x" and "A \<subseteq> B" and "sameLive A c t" and "cn t = cn c"
    and "\<And>p. p \<in> A \<Longrightarrow> E p = D p"
  shows "deadEnd B E t x"
  using assms by (cases x) (auto simp: sameLive_def subset_iff, metis)

lemma deadEnd_calm: "deadEnd A D c x \<Longrightarrow> calm c t \<Longrightarrow> deadEnd A D t x"
  by (erule deadEnd_mono) (auto simp: calm_sameLive calm_def)

lemma calls_match_parts:
  assumes "calls_match \<sigma> T cl s"
  shows "T \<subseteq> {..<length (crpcs cl)}" "inj_on \<sigma> T" "k \<in> T \<Longrightarrow> \<sigma> k < calls s" "awaited cl k \<Longrightarrow> k \<in> T"
    "k \<in> T \<Longrightarrow> carried (cfg cl) (system.net s) (awaited cl k) (\<sigma> k) (crpcs cl ! k)"
    "k < length (crpcs cl) \<Longrightarrow> k \<notin> T \<Longrightarrow> deadEnd (allocated cl) (dials cl) (cfg cl) (crpcs cl ! k)"
  using assms by (auto simp: calls_match_def)

text \<open>The calls stay, or one of them changes.\<close>

lemma calls_match_frame:
  assumes m: "calls_match \<sigma> T cl s" and ok: "cluster_ok cl"
    and sub: "allocated cl \<subseteq> allocated t" and D: "\<And>p. p \<in> allocated cl \<Longrightarrow> dials t p = dials cl p"
    and n: "cn (cfg t) = cn (cfg cl)" and live: "sameLive (allocated cl) (cfg cl) (cfg t)"
    and conn: "\<And>p q. p \<in> allocated cl \<Longrightarrow> q < cn (cfg cl) \<Longrightarrow>
        connections (cnet (cfg t)) (dials cl p ! q) = connections (cnet (cfg cl)) (dials cl p ! q)"
    and aw: "\<And>k. awaited t k \<Longrightarrow> awaited cl k"
    and calls: "calls s \<le> calls s'" and len: "length (crpcs t) = length (crpcs cl)"
    and same: "\<And>k. k < length (crpcs cl) \<Longrightarrow> k \<in> T \<Longrightarrow> k \<noteq> c \<Longrightarrow> crpcs t ! k = crpcs cl ! k \<and>
        (\<forall>pk \<in> set (system.net s). packetNo pk = \<sigma> k \<longrightarrow> pk \<in> set (system.net s'))"
    and dead: "\<And>k. k < length (crpcs cl) \<Longrightarrow> k \<notin> T \<Longrightarrow> k \<noteq> c \<Longrightarrow> crpcs t ! k = crpcs cl ! k"
    and c: "c \<in> T \<Longrightarrow> carried (cfg t) (system.net s') (awaited t c) (\<sigma> c) (crpcs t ! c)"
      "c < length (crpcs cl) \<Longrightarrow> c \<notin> T \<Longrightarrow> deadEnd (allocated t) (dials t) (cfg t) (crpcs t ! c)"
  shows "calls_match \<sigma> T t s'"
proof -
  note parts = calls_match_parts [OF m]
  have lt: "k < length (crpcs cl)" if "k \<in> T" for k using parts(1) that by auto
  have "carried (cfg t) (system.net s') (awaited t k) (\<sigma> k) (crpcs t ! k)" if k: "k \<in> T" for k
  proof (cases "k = c")
    case False
    from cluster_ok_parts(2) [OF ok nth_mem [OF lt [OF k]]] obtain p q a where
      p: "placed (allocated cl) (cfg cl) (crpcs cl ! k)" "p \<in> allocated cl" "q < cn (cfg cl)"
        "endname (reqOf (crpcs cl ! k)) = dials cl p ! q" by (auto simp: rpc_ok_def theRequest_def)
    have "carried (cfg t) (system.net s') (awaited t k) (\<sigma> k) (crpcs cl ! k)"
      by (rule carried_mono [OF parts(5) [OF k] p(1) live])
        (use aw same [OF lt [OF k] k False] conn [OF p(2,3)] p(4) in auto)
    with same [OF lt [OF k] k False] show ?thesis by simp
  qed (use c k in simp)
  moreover have "deadEnd (allocated t) (dials t) (cfg t) (crpcs t ! k)"
    if "k < length (crpcs cl)" "k \<notin> T" for k
  proof (cases "k = c")
    case False
    have "deadEnd (allocated t) (dials t) (cfg t) (crpcs cl ! k)"
      by (rule deadEnd_mono [OF parts(6) [OF that] sub live n]) (rule D)
    with dead [OF that False] show ?thesis by simp
  qed (use c that in simp)
  moreover have "\<And>k. awaited t k \<Longrightarrow> k \<in> T" using aw parts(4) by blast
  moreover have "\<And>k. k \<in> T \<Longrightarrow> \<sigma> k < calls s'" using parts(3) calls by fastforce
  ultimately show ?thesis using parts(1,2) by (simp add: calls_match_def len)
qed

text \<open>One peer changes, which may run or not.\<close>

lemma peers_match_set:
  assumes m: "peers_match cl s" and ok: "cluster_ok cl" and calm: "calm (cfg cl) (cfg t)"
    and heap: "heap (cfg t) = (heap (cfg cl))(p := rf)"
    and s': "nservers s' = nservers s" "nodes s' = (if runs (cfg cl) i p then (nodes s)(i := rf) else nodes s)"
    and p: "isLive (cfg cl) p \<Longrightarrow> runs (cfg cl) i p"
  shows "peers_match t s'"
proof -
  note w = cluster_ok_parts(1) [OF ok]
  have n: "cn (cfg t) = cn (cfg cl)" "rafts (cfg t) = rafts (cfg cl)" "savedCopy j (cfg t) = savedCopy j (cfg cl)" for j
    using calm by (simp_all add: calm_def savedCopy_def)
  have "nodes s' j = heap (cfg t) q" if r: "runs (cfg cl) j q" for j q
  proof (cases "q = p")
    case True
    with r p have "runs (cfg cl) i p" by (auto simp: isLive_def)
    with r True runs_unique [OF w] have "j = i" by blast
    with True r show ?thesis by (simp add: s' heap)
  next
    case False
    then have "runs (cfg cl) i p \<Longrightarrow> j \<noteq> i" using r by (auto simp: runs_def)
    with False r m show ?thesis by (auto simp: s' heap peers_match_def runs_def)
  qed
  moreover have "persister (nodes s' j) = savedCopy j (cfg cl)" if "j < cn (cfg cl)" "rafts (cfg cl) ! j = None" for j
    using that m by (auto simp: s' peers_match_def runs_def)
  ultimately show ?thesis using m by (simp add: peers_match_def n s' calm_runs [OF calm])
qed

lemma liveThread_runs:
  assumes ok: "cluster_ok cl" and g: "g < length (threads cl)" "threads cl ! g = (p, r)"
  shows "p \<in> allocated cl" "follows (cn (cfg cl)) (me (heap (cfg cl) p)) r"
    "liveThread cl g \<longleftrightarrow> isLive (cfg cl) p"
    "isLive (cfg cl) p \<Longrightarrow> runs (cfg cl) (me (heap (cfg cl) p)) p"
proof -
  from cluster_ok_parts(3) [OF ok nth_mem [OF g(1)]] g(2)
  show "p \<in> allocated cl" "follows (cn (cfg cl)) (me (heap (cfg cl) p)) r"
    by (auto simp: thread_ok_def)
  show "liveThread cl g \<longleftrightarrow> isLive (cfg cl) p" using g by (simp add: liveThread_def)
  show "runs (cfg cl) (me (heap (cfg cl) p)) p" if "isLive (cfg cl) p"
    using that runs_me [OF cluster_ok_parts(1) [OF ok]] by (auto simp: isLive_def)
qed

text \<open>Goroutines start, or one of them moves on.\<close>

lemma threads_match_spawn:
  assumes m: "threads_match \<sigma> \<tau> cl s" and calm: "calm (cfg cl) (cfg t)"
    and t: "threads t = threads cl @ map (Pair p) rs"
    and rs: "\<And>r. r \<in> set rs \<Longrightarrow> awaits r = None"
    and s': "routines s' = routines s @ (if isLive (cfg cl) p then rs else [])"
  shows "\<exists>\<tau>'. threads_match \<sigma> \<tau>' t s'"
proof (intro exI)
  let ?n = "length (threads cl)"
  let ?\<tau> = "\<lambda>g. if g < ?n then \<tau> g else length (routines s) + (g - ?n)"
  have old: "liveThread t g \<longleftrightarrow> liveThread cl g" "threads t ! g = threads cl ! g" if "g < ?n" for g
    using that by (auto simp: liveThread_def t nth_append calm_live [OF calm])
  have new: "isLive (cfg cl) p \<and> g - ?n < length rs \<and> threads t ! g = (p, rs ! (g - ?n)) \<and>
      awaits (rs ! (g - ?n)) = None" if "liveThread t g" "\<not> g < ?n" for g
    using that rs by (auto simp: liveThread_def t nth_append calm_live [OF calm])
  show "threads_match \<sigma> ?\<tau> t s'"
    unfolding threads_match_def
  proof (intro conjI allI impI)
    fix g assume g: "liveThread t g"
    show "?\<tau> g < length (routines s')" "routines s' ! ?\<tau> g = renum \<sigma> (snd (threads t ! g))"
      using g m old [of g] new [of g]
      by (auto simp: threads_match_def s' nth_append)
  next
    fix g h assume "liveThread t g" "liveThread t h" "?\<tau> g = ?\<tau> h"
    then show "g = h"
      using m old [of g] old [of h] by (auto simp: threads_match_def split: if_splits)
  qed
qed

lemma liveThread_move:
  assumes calm: "calm (cfg cl) (cfg t)" and g: "threads cl ! g = (p, r)"
    and t: "threads t = (threads cl)[g := (p, r')]"
  shows "liveThread t h \<longleftrightarrow> liveThread cl h"
  using g by (cases "g = h") (auto simp: liveThread_def t calm_live [OF calm])

lemma threads_match_move:
  assumes m: "threads_match \<sigma> \<tau> cl s" and calm: "calm (cfg cl) (cfg t)"
    and g: "g < length (threads cl)" "threads cl ! g = (p, r)"
    and t: "threads t = (threads cl)[g := (p, r')]"
    and s': "routines s' = (if isLive (cfg cl) p then (routines s)[\<tau> g := renum \<sigma>' r'] else routines s)"
    and \<sigma>: "\<And>k. awaited cl k \<Longrightarrow> \<sigma>' k = \<sigma> k"
  shows "threads_match \<sigma>' \<tau> t s'"
proof -
  note live = liveThread_move [OF calm g(2) t]
  have gl: "liveThread cl g \<longleftrightarrow> isLive (cfg cl) p" using g by (simp add: liveThread_def)
  have "\<tau> h < length (routines s') \<and> routines s' ! \<tau> h = renum \<sigma>' (snd (threads t ! h))"
    if h: "liveThread cl h" for h
  proof (cases "h = g")
    case True
    with h m g gl show ?thesis by (auto simp: threads_match_def s' t)
  next
    case False
    have "renum \<sigma>' (snd (threads cl ! h)) = renum \<sigma> (snd (threads cl ! h))"
      using h \<sigma> by (intro renum_cong) (auto simp: awaited_def)
    moreover have "isLive (cfg cl) p \<Longrightarrow> \<tau> h \<noteq> \<tau> g" using m h gl False by (auto simp: threads_match_def)
    ultimately show ?thesis using False h m by (auto simp: threads_match_def s' t)
  qed
  with m show ?thesis by (simp add: threads_match_def live)
qed

lemma awaited_move:
  assumes calm: "calm (cfg cl) (cfg t)" and g: "threads cl ! g = (p, r)"
    and t: "threads t = (threads cl)[g := (p, r')]" and k: "awaited t k"
  shows "awaited cl k \<or> (isLive (cfg cl) p \<and> awaits r' = Some k)"
proof -
  from k obtain h where h: "liveThread cl h" "awaits (snd (threads t ! h)) = Some k"
    by (auto simp: awaited_def liveThread_move [OF calm g t])
  then show ?thesis
    using g by (cases "h = g") (auto simp: t awaited_def liveThread_def)
qed

section \<open>Every step of the cluster is one of the system, or none\<close>

definition follows_step :: "'c cluster \<Rightarrow> 'c system \<Rightarrow> bool" where
  "follows_step t s \<longleftrightarrow> implements t s \<or> (\<exists>b s'. stableStep b s = Some s' \<and> implements t s')"

lemma follows_same: "matches \<sigma> \<tau> T t s \<Longrightarrow> follows_step t s"
  by (auto simp: follows_step_def implements_def)

lemma follows_one: "sysStep b s = Some s' \<Longrightarrow> \<not> isRestart b \<Longrightarrow> matches \<sigma> \<tau> T t s' \<Longrightarrow> follows_step t s"
  unfolding follows_step_def implements_def stableStep_def by (intro disjI2 exI [of _ b] exI [of _ s']) auto

lemma actor_stable: "actor b = Some i \<Longrightarrow> \<not> isRestart b"
  by (cases b) auto

lemma act_follows:
  assumes m: "matches \<sigma> \<tau> T cl s" and step: "clusterStep al rl (PeerActs p b) cl = Some t"
  shows "follows_step t s"
proof -
  have ok: "cluster_ok cl" using m by (simp add: matches_def)
  let ?i = "me (heap (cfg cl) p)"
  from step obtain rf rs where p: "p \<in> allocated cl" and b: "actor b = Some ?i"
    and l: "localAct (cn (cfg cl)) b (heap (cfg cl) p) = Some (rf, rs)"
    and t: "t = (setPeer p rf cl)\<lparr>threads := threads cl @ map (Pair p) rs\<rparr>"
    by (auto simp: Let_def split: if_splits option.splits)
  note sp = localAct_spec [OF l b]
  have calm: "calm (cfg cl) (cfg t)" using calm_setPeer [of rf cl p] sp by (simp add: t)
  have live: "runs (cfg cl) ?i p" if "isLive (cfg cl) p"
    using that runs_me [OF cluster_ok_parts(1) [OF ok]] by (auto simp: isLive_def)
  define s' where "s' = (if isLive (cfg cl) p then (setNode ?i rf s)\<lparr>routines := routines s @ rs\<rparr> else s)"
  have aw: "awaited cl k" if "awaited t k" for k
  proof -
    from that obtain h where h: "liveThread t h" "awaits (snd (threads t ! h)) = Some k"
      by (auto simp: awaited_def)
    moreover from this sp have "h < length (threads cl)"
      by (auto simp: t liveThread_def nth_append split: if_splits)
    ultimately show ?thesis
      by (auto simp: awaited_def t liveThread_def nth_append)
  qed
  have "peers_match t s'"
  proof (rule peers_match_set [OF _ ok calm])
    show "peers_match cl s" using m by (simp add: matches_def)
  qed (use live in \<open>auto simp: t s'_def setNode_def isLive_def\<close>)
  moreover have "\<exists>\<tau>'. threads_match \<sigma> \<tau>' t s'"
    by (rule threads_match_spawn [OF _ calm, of _ _ _ p rs])
      (use m sp in \<open>auto simp: matches_def t s'_def setNode_def\<close>)
  then obtain \<tau>' where "threads_match \<sigma> \<tau>' t s'" ..
  moreover have "calls_match \<sigma> T t s'"
    by (rule calls_match_frame [OF _ ok, where c = "length (crpcs cl)"])
      (use m calm_sameLive [OF calm] aw in \<open>auto simp: t s'_def matches_def setNode_def
        dest: calls_match_parts(1)\<close>)
  ultimately have m': "matches \<sigma> \<tau>' T t s'" using cluster_ok_step [OF ok step] by (simp add: matches_def)
  show ?thesis
  proof (cases "isLive (cfg cl) p")
    case True
    from live [OF True] m have "nodes s ?i = heap (cfg cl) p" "nservers s = cn (cfg cl)" "?i < nservers s"
      by (auto simp: matches_def peers_match_def runs_def)
    with sysStep_localAct [OF b, of s] l have "sysStep b s = Some s'" by (simp add: s'_def True)
    with actor_stable [OF b] m' show ?thesis by (blast intro: follows_one)
  qed (use m' in \<open>simp add: s'_def follows_same\<close>)
qed

text \<open>A goroutine's call, of a peer that runs or of one that does not.\<close>

lemma carried_calm:
  assumes "calls_match \<sigma> T cl s" and ok: "cluster_ok cl" and calm: "calm (cfg cl) (cfg t)"
    and k: "k \<in> T" and w: "w \<Longrightarrow> awaited cl k"
    and sub: "\<forall>pk \<in> set (system.net s). packetNo pk = \<sigma> k \<longrightarrow> pk \<in> set ps"
  shows "carried (cfg t) ps w (\<sigma> k) (crpcs cl ! k)"
proof -
  note parts = calls_match_parts [OF assms(1)]
  have "k < length (crpcs cl)" using parts(1) k by auto
  with cluster_ok_parts(2) [OF ok] have "placed (allocated cl) (cfg cl) (crpcs cl ! k)"
    by (simp add: rpc_ok_def)
  from carried_mono [OF parts(5) [OF k] this calm_sameLive [OF calm]] w sub calm show ?thesis
    by (simp add: calm_def)
qed

lemma calls_match_send:
  assumes m: "calls_match \<sigma> T cl s" and ok: "cluster_ok cl" and calm: "calm (cfg cl) (cfg t)"
    and t: "crpcs t = crpcs cl @ [Requested req]" "allocated t = allocated cl" "dials t = dials cl"
    and aw: "\<And>k. awaited t k \<Longrightarrow> awaited cl k \<or> k = length (crpcs cl)"
    and q: "goesTo (cfg cl) req q"
    and s': "calls s' = Suc (calls s)"
      "system.net s' = system.net s @ [requestPacket (calls s) q (args req)]"
  shows "calls_match (\<sigma>(length (crpcs cl) := calls s)) (insert (length (crpcs cl)) T) t s'"
proof -
  let ?n = "length (crpcs cl)"
  note parts = calls_match_parts [OF m]
  have n: "?n \<notin> T" using parts(1) by auto
  have \<sigma>: "\<sigma> k \<noteq> calls s" if "k \<in> T" for k using parts(3) [OF that] by simp
  have old: "carried (cfg t) (system.net s') (awaited t k) (\<sigma> k) (crpcs cl ! k)" if "k \<in> T" for k
    by (rule carried_calm [OF m ok calm that]) (use aw [of k] that n in \<open>auto simp: s'\<close>)
  have "carried (cfg t) (system.net s') (awaited t ?n) (calls s) (Requested req)"
    using q calm by (auto simp: inFlight_def goesTo_def calm_def s')
  then have "\<forall>k \<in> insert ?n T. carried (cfg t) (system.net s') (awaited t k)
      ((\<sigma>(?n := calls s)) k) (crpcs t ! k)"
    using old parts(1) n by (auto simp: t nth_append)
  moreover have "\<forall>k < length (crpcs t). k \<notin> insert ?n T \<longrightarrow>
      deadEnd (allocated t) (dials t) (cfg t) (crpcs t ! k)"
    using parts(6) deadEnd_calm [OF _ calm] by (auto simp: t nth_append)
  moreover have "inj_on (\<sigma>(?n := calls s)) (insert ?n T)"
    using parts(2) n \<sigma> by (auto simp: inj_on_def dest: sym)
  moreover have "\<forall>k. awaited t k \<longrightarrow> k \<in> insert ?n T" using aw parts(4) by blast
  ultimately show ?thesis
    unfolding calls_match_def using parts(1,3) n by (auto simp: t s' less_Suc_eq)
qed

lemma calls_match_dead:
  assumes m: "calls_match \<sigma> T cl s" and ok: "cluster_ok cl" and calm: "calm (cfg cl) (cfg t)"
    and t: "crpcs t = crpcs cl @ [x]" "allocated t = allocated cl" "dials t = dials cl"
    and aw: "\<And>k. awaited t k \<Longrightarrow> awaited cl k"
    and x: "deadEnd (allocated cl) (dials cl) (cfg cl) x"
  shows "calls_match \<sigma> T t s"
proof -
  note parts = calls_match_parts [OF m]
  have old: "carried (cfg t) (system.net s) (awaited t k) (\<sigma> k) (crpcs cl ! k)" if "k \<in> T" for k
    by (rule carried_calm [OF m ok calm that]) (use aw in auto)
  from old have "\<forall>k \<in> T. carried (cfg t) (system.net s) (awaited t k) (\<sigma> k) (crpcs t ! k)"
    using parts(1) by (auto simp: t nth_append)
  moreover have "\<forall>k < length (crpcs t). k \<notin> T \<longrightarrow> deadEnd (allocated t) (dials t) (cfg t) (crpcs t ! k)"
    using parts(6) deadEnd_calm [OF _ calm] x by (auto simp: t nth_append less_Suc_eq)
  ultimately show ?thesis
    unfolding calls_match_def using parts(1-4) aw by (fastforce simp: t)
qed

lemma live_node:
  assumes "matches \<sigma> \<tau> T cl s" and "runs (cfg cl) i p"
  shows "nodes s i = heap (cfg cl) p" "nservers s = cn (cfg cl)" "i < nservers s"
  using assms by (auto simp: matches_def peers_match_def runs_def)

lemma object_goes:
  "cluster_ok cl \<Longrightarrow> p \<in> allocated cl \<Longrightarrow> q < cn (cfg cl) \<Longrightarrow>
     goesTo (cfg cl) (theRequest (dials cl p ! q) a) q"
  by (simp add: cluster_ok_def wiring_ok_def object_ok_def goesTo_def theRequest_def)

lemma live_routine:
  assumes "matches \<sigma> \<tau> T cl s" and "liveThread cl g" and "threads cl ! g = (p, r)"
  shows "\<tau> g < length (routines s)" "routines s ! \<tau> g = renum \<sigma> r"
  using assms by (auto simp: matches_def threads_match_def)

text \<open>A goroutine runs on without a call.\<close>

lemma run_quiet_follows:
  assumes m: "matches \<sigma> \<tau> T cl s" and ok: "cluster_ok t"
    and g: "g < length (threads cl)" "threads cl ! g = (p, r)"
    and l: "localRun (cn (cfg cl)) (heap (cfg cl) p) r = Some (rf, nxt, None)"
    and t: "t = (setPeer p rf cl)\<lparr>threads := (threads cl)[g := (p, nxt n)]\<rparr>"
  shows "follows_step t s"
proof -
  have okc: "cluster_ok cl" "peers_match cl s" using m by (simp_all add: matches_def)
  let ?i = "me (heap (cfg cl) p)"
  note th = liveThread_runs [OF okc(1) g]
  note sp = localRun_spec [OF l th(2)]
  have nxt: "awaits (nxt k) = None" "nxt k = nxt n" for k
    using sp localRun_renum(2) [OF l, of "\<lambda>_. k" n] by auto
  have calm: "calm (cfg cl) (cfg t)" using calm_setPeer [of rf cl p] sp by (simp add: t)
  define s' where "s' = (if isLive (cfg cl) p then setRoutine (\<tau> g) (nxt n) (setNode ?i rf s) else s)"
  have "peers_match t s'"
    by (rule peers_match_set [OF okc(2,1) calm, where i = ?i and p = p and rf = rf])
      (use th(4) in \<open>auto simp: t s'_def setNode_def setRoutine_def isLive_def matches_def\<close>)
  moreover have "threads_match \<sigma> \<tau> t s'"
    by (rule threads_match_move [OF _ calm g, of _ _ _ "nxt n"])
      (use m nxt in \<open>auto simp: t s'_def setNode_def setRoutine_def matches_def\<close>)
  moreover have aw: "awaited cl k" if "awaited t k" for k
    using awaited_move [OF calm g(2) _ that, of "nxt n"] nxt by (auto simp: t)
  have "calls_match \<sigma> T t s'"
    by (rule calls_match_frame [OF _ okc(1), where c = "length (crpcs cl)"])
      (use m calm_sameLive [OF calm] aw in \<open>auto simp: t s'_def matches_def setNode_def setRoutine_def
        dest: calls_match_parts(1)\<close>)
  ultimately have m': "matches \<sigma> \<tau> T t s'" using ok by (simp add: matches_def)
  show ?thesis
  proof (cases "isLive (cfg cl) p")
    case True
    note n = live_node [OF m th(4) [OF True]]
    have "liveThread cl g" using th(3) True by simp
    note rt = live_routine [OF m this g(2)]
    from sp localRun_renum(1) [OF l, of \<sigma>] have r: "actsFor r = Some ?i" "renum \<sigma> r = r" by auto
    have "sysStep (Run (\<tau> g)) s = Some s'"
      using runRoutine_localRun [OF r(1), of "\<tau> g" s] l rt r(2) nxt(2) [of "calls s"]
      by (simp add: n True s'_def)
    with m' show ?thesis by (intro follows_one [of "Run (\<tau> g)" s s']) auto
  qed (use m' in \<open>simp add: s'_def follows_same\<close>)
qed

text \<open>A goroutine runs to its next call.\<close>

lemma run_send_follows:
  assumes m: "matches \<sigma> \<tau> T cl s" and ok: "cluster_ok t"
    and g: "g < length (threads cl)" "threads cl ! g = (p, r)"
    and l: "localRun (cn (cfg cl)) (heap (cfg cl) p) r = Some (rf, nxt, Some (q, a))"
    and cl': "cl' = (setPeer p rf cl)\<lparr>threads := (threads cl)[g := (p, nxt (length (crpcs cl)))]\<rparr>"
    and snd: "sends (dials cl p ! q) a cl' t"
  shows "follows_step t s"
proof -
  have okc: "cluster_ok cl" using m by (simp add: matches_def)
  let ?i = "me (heap (cfg cl) p)" and ?n = "length (crpcs cl)"
  let ?req = "theRequest (dials cl p ! q) a"
  note th = liveThread_runs [OF okc g]
  note sp = localRun_spec [OF l th(2), of ?n]
  have t: "crpcs t = crpcs cl @ [Requested ?req]" "threads t = (threads cl)[g := (p, nxt ?n)]"
    "dials t = dials cl" "allocated t = allocated cl" "heap (cfg t) = (heap (cfg cl))(p := rf)"
    using snd by (simp_all add: sends_def cl')
  have calm: "calm (cfg cl) (cfg t)"
    using snd calm_setPeer [of rf cl p] sp by (auto simp: sends_def cl' calm_def)
  have m1: "calls_match \<sigma> T cl s" "threads_match \<sigma> \<tau> cl s" "peers_match cl s"
    using m by (simp_all add: matches_def)
  note aw = awaited_move [OF calm g(2) t(2)]
  show ?thesis
  proof (cases "isLive (cfg cl) p")
    case True
    note n = live_node [OF m th(4) [OF True]]
    have "liveThread cl g" using th(3) True by simp
    note rt = live_routine [OF m this g(2)]
    from sp localRun_renum(1) [OF l, of \<sigma>] have r: "actsFor r = Some ?i" "renum \<sigma> r = r" by auto
    let ?\<sigma> = "\<sigma>(?n := calls s)"
    let ?s = "sendCall (requestPacket (calls s) q a) (setRoutine (\<tau> g) (nxt (calls s)) (setNode ?i rf s))"
    have nxt: "renum ?\<sigma> (nxt ?n) = nxt (calls s)" using localRun_renum(2) [OF l, of ?\<sigma> ?n] by simp
    have "peers_match t ?s"
      by (rule peers_match_set [OF m1(3) okc calm t(5), where i = ?i])
        (use th(4) True in \<open>auto simp: sys_update_defs\<close>)
    moreover have "threads_match ?\<sigma> \<tau> t ?s"
    proof (rule threads_match_move [OF m1(2) calm g t(2)])
      fix k assume "awaited cl k"
      then have "k < ?n" using calls_match_parts(1,4) [OF m1(1)] by blast
      then show "?\<sigma> k = \<sigma> k" by simp
    qed (simp add: sys_update_defs nxt True)
    moreover have "calls_match ?\<sigma> (insert ?n T) t ?s"
      by (rule calls_match_send [OF m1(1) okc calm t(1,4,3), where q = q])
        (use aw sp object_goes [OF okc th(1)] in \<open>auto simp: sys_update_defs theRequest_def\<close>)
    ultimately have m': "matches ?\<sigma> \<tau> (insert ?n T) t ?s" using ok by (simp add: matches_def)
    have "sysStep (Run (\<tau> g)) s = Some ?s"
      using runRoutine_localRun [OF r(1), of "\<tau> g" s] l rt r(2) by (simp add: n)
    with m' show ?thesis by (intro follows_one [of "Run (\<tau> g)" s ?s]) auto
  next
    case False
    have "peers_match t s"
      by (rule peers_match_set [OF m1(3) okc calm t(5), where i = ?i])
        (use False in \<open>auto simp: isLive_def\<close>)
    moreover have "threads_match \<sigma> \<tau> t s"
      by (rule threads_match_move [OF m1(2) calm g t(2)]) (simp_all add: False)
    moreover have "calls_match \<sigma> T t s"
      by (rule calls_match_dead [OF m1(1) okc calm t(1,4,3)])
        (use aw False sp th(1) in \<open>auto simp: theRequest_def\<close>)
    ultimately show ?thesis using ok by (intro follows_same [of \<sigma> \<tau> T]) (simp add: matches_def)
  qed
qed

text \<open>A goroutine's call returns.\<close>

lemma awaits_only:
  assumes ok: "cluster_ok cl" and g: "g < length (threads cl)" "awaits (snd (threads cl ! g)) = Some c"
    and h: "h < length (threads cl)" "awaits (snd (threads cl ! h)) = Some c"
  shows "h = g"
  using cluster_ok_parts(4) [OF ok] g h by (simp add: awaits_apart_def)

lemma asked_routine:
  "asked r = Some (q, a) \<Longrightarrow> awaits r = Some c \<Longrightarrow> actsFor r = Some i \<Longrightarrow>
     (\<exists>v vc vg. a = VoteArgs v \<and> r = AwaitVote i v q vc vg c) \<or>
     (\<exists>e nx tm. a = AppArgs e \<and> r = AwaitAppend i q nx tm e c)"
  by (cases r) auto

lemma outcome_reply: "callOutcome x = Some (Some y) \<Longrightarrow> \<exists>req rep. x = Answered req rep \<and> ok rep \<and> reply rep = Some y"
  by (cases x) (auto split: if_splits)

definition movesTo ::
  "'c system \<Rightarrow> nat \<Rightarrow> 'c Raft \<Rightarrow> nat \<Rightarrow> 'c routine \<Rightarrow> nat option \<Rightarrow> 'c system \<Rightarrow> bool" where
  "movesTo s i rf g r k u \<longleftrightarrow> nodes u = (nodes s)(i := rf) \<and> nservers u = nservers s \<and>
     routines u = (routines s)[g := r] \<and> calls u = calls s \<and>
     (\<forall>pk \<in> set (system.net s). k \<noteq> Some (packetNo pk) \<longrightarrow> pk \<in> set (system.net u))"

lemma return_system:
  assumes m: "matches \<sigma> \<tau> T cl s" and live: "isLive (cfg cl) p"
    and g: "g < length (threads cl)" "threads cl ! g = (p, r)"
    and c: "awaits r = Some c" "callOutcome (crpcs cl ! c) = Some x"
    and l: "localReturn (cn (cfg cl)) (heap (cfg cl) p) r x = Some (rf, r')"
  shows "\<exists>b u. sysStep b s = Some u \<and> \<not> isRestart b \<and> movesTo s (me (heap (cfg cl) p)) rf (\<tau> g) r' (map_option (\<lambda>_. \<sigma> c) x) u"
proof -
  have okc: "cluster_ok cl" and cm: "calls_match \<sigma> T cl s" using m by (simp_all add: matches_def)
  let ?i = "me (heap (cfg cl) p)"
  note th = liveThread_runs [OF okc g]
  note n = live_node [OF m th(4) [OF live]]
  have lt: "liveThread cl g" using th(3) live by simp
  note rt = live_routine [OF m lt g(2)]
  have act: "actsFor (renum \<sigma> r) = Some ?i" using localReturn_spec [OF l th(2)] by simp
  have l': "localReturn (nservers s) (nodes s ?i) (renum \<sigma> r) x = Some (rf, r')"
    using l by (simp add: localReturn_renum n)
  show ?thesis
  proof (cases x)
    case None
    let ?u = "setRoutine (\<tau> g) r' (setNode ?i rf s)"
    from failCall_localReturn [OF act, of "\<tau> g" s] l' rt None
    have "sysStep (CallFails (\<tau> g)) s = Some ?u" by simp
    moreover have "movesTo s ?i rf (\<tau> g) r' (map_option (\<lambda>_. \<sigma> c) x) ?u"
      by (simp add: movesTo_def sys_update_defs)
    ultimately show ?thesis by (intro exI [of _ "CallFails (\<tau> g)"] exI [of _ ?u]) simp
  next
    case (Some y)
    from c Some obtain req rep where rep: "crpcs cl ! c = Answered req rep" "ok rep" "reply rep = Some y"
      using outcome_reply by blast
    from cluster_ok_parts(3) [OF okc nth_mem [OF g(1)]] g c obtain q a where
      q: "asked r = Some (q, a)" "reqOf (crpcs cl ! c) = theRequest (dials cl p ! q) a"
      by (auto simp: thread_ok_def)
    have "q < cn (cfg cl)" using th(2) q(1) by (cases r) (auto simp: follows_def)
    from object_goes [OF okc th(1) this, of a] have go: "goesTo (cfg cl) req q" "args req = a"
      using q(2) rep by (auto simp: theRequest_def)
    have aw: "awaited cl c" using lt g c by (auto simp: awaited_def)
    from calls_match_parts(5) [OF cm calls_match_parts(4) [OF cm aw]] rep aw
    have "comesBack (cfg cl) (system.net s) (\<sigma> c) req rep" by simp
    with go rep(3) have pk: "replyPacket (\<sigma> c) q a y \<in> set (system.net s)"
      by (auto simp: comesBack_def)
    let ?pk = "replyPacket (\<sigma> c) q a y"
    let ?u = "setRoutine (\<tau> g) r' (setNode ?i rf (takePacket ?pk s))"
    have r: "awaits (renum \<sigma> r) = Some (\<sigma> c)" "asked (renum \<sigma> r) = Some (q, a)" using c q by simp_all
    from returnTo_localReturn [OF act r(1) pk _ asked_routine [OF r(2,1) act], of rf r' "\<tau> g"] l' Some rt
    have "sysStep (Return (\<tau> g) ?pk) s = Some ?u" by simp
    moreover have "pk' \<in> set (remove1 ?pk (system.net s))"
      if "pk' \<in> set (system.net s)" "packetNo pk' \<noteq> \<sigma> c" for pk'
      using that by (metis in_set_remove1 packetNo_simps(2))
    then have "movesTo s ?i rf (\<tau> g) r' (map_option (\<lambda>_. \<sigma> c) x) ?u"
      by (auto simp: movesTo_def sys_update_defs Some)
    ultimately show ?thesis by (intro exI [of _ "Return (\<tau> g) ?pk"] exI [of _ ?u]) simp
  qed
qed

lemma return_awaited:
  assumes ok: "cluster_ok cl" and calm: "calm (cfg cl) (cfg t)"
    and g: "g < length (threads cl)" "threads cl ! g = (p, r)" and c: "awaits r = Some c"
    and t: "threads t = (threads cl)[g := (p, r')]" and r': "awaits r' = None" and k: "awaited t k"
  shows "awaited cl k \<and> k \<noteq> c"
proof -
  have "awaited cl k" using awaited_move [OF calm g(2) t k] r' by auto
  moreover have "k \<noteq> c"
  proof
    assume "k = c"
    with k obtain h where h: "h < length (threads cl)" "awaits (snd ((threads cl)[g := (p, r')] ! h)) = Some c"
      by (auto simp: awaited_def liveThread_def t)
    with r' have "h \<noteq> g" by auto
    with h awaits_only [OF ok g(1), of c h] g c show False by auto
  qed
  ultimately show ?thesis by simp
qed

lemma return_follows:
  assumes m: "matches \<sigma> \<tau> T cl s" and step: "clusterStep al rl (ThreadReturns g) cl = Some t"
  shows "follows_step t s"
proof -
  have okc: "cluster_ok cl" and pm: "peers_match cl s" and tm: "threads_match \<sigma> \<tau> cl s"
    and cm: "calls_match \<sigma> T cl s" using m by (simp_all add: matches_def)
  from step obtain p r c x rf r' where g: "g < length (threads cl)" "threads cl ! g = (p, r)"
    and c: "awaits r = Some c" "callOutcome (crpcs cl ! c) = Some x"
    and l: "localReturn (cn (cfg cl)) (heap (cfg cl) p) r x = Some (rf, r')"
    and t: "t = (setPeer p rf cl)\<lparr>threads := (threads cl)[g := (p, r')]\<rparr>"
    by (auto split: if_splits option.splits prod.splits)
  let ?i = "me (heap (cfg cl) p)"
  note th = liveThread_runs [OF okc g]
  note sp = localReturn_spec [OF l th(2)]
  have calm: "calm (cfg cl) (cfg t)" using calm_setPeer [of rf cl p] sp by (simp add: t)
  note aw = return_awaited [OF okc calm g c(1), of r']
  let ?ok = "\<lambda>u. if isLive (cfg cl) p then movesTo s ?i rf (\<tau> g) r' (map_option (\<lambda>_. \<sigma> c) x) u else u = s"
  obtain u where u: "?ok u" "u = s \<and> \<not> isLive (cfg cl) p \<or> (\<exists>b. sysStep b s = Some u \<and> \<not> isRestart b)"
    using return_system [OF m _ g c l] by (cases "isLive (cfg cl) p") auto
  have "peers_match t u"
    by (rule peers_match_set [OF pm okc calm, where i = ?i and p = p and rf = rf])
      (use th(4) u(1) in \<open>auto simp: t movesTo_def isLive_def split: if_splits\<close>)
  moreover have "threads_match \<sigma> \<tau> t u"
    by (rule threads_match_move [OF tm calm g, of r'])
      (use u(1) sp in \<open>auto simp: t movesTo_def\<close>)
  moreover have "calls_match \<sigma> T t u"
  proof (rule calls_match_frame [OF cm okc, where c = c])
    show "sameLive (allocated cl) (cfg cl) (cfg t)" by (rule calm_sameLive [OF calm])
    show "awaited cl k" if "awaited t k" for k using aw sp that by (simp add: t)
    show "calls s \<le> calls u" using u(1) by (auto simp: movesTo_def split: if_splits)
    fix k assume k: "k < length (crpcs cl)" "k \<in> T" "k \<noteq> c"
    have "\<sigma> k \<noteq> \<sigma> c" if "isLive (cfg cl) p"
    proof -
      have "awaited cl c" using that th(3) g c by (auto simp: awaited_def)
      then show ?thesis using calls_match_parts(2,4) [OF cm] k by (auto simp: inj_on_def)
    qed
    with u(1) show "crpcs t ! k = crpcs cl ! k \<and>
        (\<forall>pk \<in> set (system.net s). packetNo pk = \<sigma> k \<longrightarrow> pk \<in> set (system.net u))"
      by (auto simp: t movesTo_def split: if_splits)
  next
    assume cT: "c \<in> T"
    have w: "\<not> awaited t c" using aw sp by (auto simp: t)
    show "carried (cfg t) (system.net u) (awaited t c) (\<sigma> c) (crpcs t ! c)"
    proof (cases "crpcs cl ! c")
      case (Orphan req addr)
      with c(2) have "x = None" by simp
      with u(1) have "set (system.net s) \<subseteq> set (system.net u)"
        by (auto simp: movesTo_def split: if_splits)
      with carried_calm [OF cm okc calm cT, of "awaited t c" "system.net u"] w show ?thesis by (auto simp: t)
    qed (use c(2) w in \<open>auto simp: t\<close>)
  next
    assume "c < length (crpcs cl)" "c \<notin> T"
    with calls_match_parts(6) [OF cm] deadEnd_calm [OF _ calm]
    show "deadEnd (allocated t) (dials t) (cfg t) (crpcs t ! c)" by (simp add: t)
  qed (use calm in \<open>auto simp: t calm_def\<close>)
  ultimately have "matches \<sigma> \<tau> T t u" using cluster_ok_step [OF okc step] by (simp add: matches_def)
  with u(2) show ?thesis by (auto intro: follows_same follows_one)
qed

text \<open>A step of the network, without a handler or with one.\<close>

lemma same_live:
  assumes "calm (cfg cl) (cfg t)" and "threads t = threads cl"
  shows "liveThread t = liveThread cl" "awaited t = awaited cl"
  using calm_live [OF assms(1)] by (simp_all add: fun_eq_iff liveThread_def awaited_def assms(2))

lemma threads_match_same:
  assumes "threads_match \<sigma> \<tau> cl s" and "calm (cfg cl) (cfg t)" and "threads t = threads cl"
    and "routines s' = routines s"
  shows "threads_match \<sigma> \<tau> t s'"
  using assms(1) by (simp add: threads_match_def same_live [OF assms(2,3)] assms(3,4))

lemma carried_move:
  assumes "carried c ps w k x" and "callMoves (cnet c) x y None" and ok: "wiring_ok A D c"
  shows "carried c ps w k y"
  using assms(2,1)
proof cases
  case (reply_ok req name addr rel lr rep)
  then have "isLive c addr" using server_live [OF ok] by (auto simp: isServerDead_def split: if_splits)
  with reply_ok assms(1) show ?thesis by simp
qed (auto simp: failed_def)

lemma deadEnd_move:
  assumes "deadEnd A D c x" and "callMoves (cnet c) x y r" and ok: "wiring_ok A D c"
  shows "deadEnd A D c y"
  using assms(2,1)
proof cases
  case (begin_ok req name addr rel lr)
  with assms(1) obtain p q where p: "p \<in> A" "q < cn c" "endname req = D p ! q" "\<not> isLive c p" by auto
  from begin_ok have "enabled (cnet c) (endname req)" by (simp add: readEndnameInfo_def Let_def)
  with enabled_live [OF ok p(1,2)] p show ?thesis by simp
qed auto

lemma handler_follows:
  assumes m: "matches \<sigma> \<tau> T cl s" and okt: "cluster_ok t" and c: "c < length (crpcs cl)"
    and req: "reqOf (crpcs cl ! c) = theRequest e a"
    and hd: "handles (crpcs cl ! c) addr \<lparr>ok = True, reply = Some z\<rparr> y"
    and h: "handlerOf a (heap (cfg cl) addr) = Inr (rf, z)"
    and t: "crpcs t = (crpcs cl)[c := y]" "threads t = threads cl" "dials t = dials cl"
      "allocated t = allocated cl" "heap (cfg t) = (heap (cfg cl))(addr := rf)"
    and calm: "calm (cfg cl) (cfg t)"
  shows "follows_step t s"
proof -
  have okc: "cluster_ok cl" and pm: "peers_match cl s" and tm: "threads_match \<sigma> \<tau> cl s"
    and cm: "calls_match \<sigma> T cl s" using m by (simp_all add: matches_def)
  let ?q = "me (heap (cfg cl) addr)"
  let ?req = "requestPacket (\<sigma> c) ?q a" and ?rep = "replyPacket (\<sigma> c) ?q a z"
  let ?u = "if isLive (cfg cl) addr then answer ?req ?rep (setNode ?q rf s) else s"
  have cT: "c \<in> T" using hd calls_match_parts(6) [OF cm c] by (cases rule: handles.cases) auto
  have live: "runs (cfg cl) ?q addr" if "isLive (cfg cl) addr"
    using that runs_me [OF cluster_ok_parts(1) [OF okc]] by (auto simp: isLive_def)
  have "rpc_ok (allocated cl) (dials cl) (cfg cl) (crpcs cl ! c)" using cluster_ok_parts(2) [OF okc] c by simp
  with hd have goes: "goesTo (cfg cl) (theRequest e a) ?q"
    unfolding req [symmetric] by (cases rule: handles.cases) (auto simp: rpc_ok_def leadsTo_def goesTo_def)
  have pk: "?req \<in> set (system.net s)" if "isLive (cfg cl) addr"
    using hd calls_match_parts(5) [OF cm cT] that goes req
    by (cases rule: handles.cases) (auto simp: inFlight_def theRequest_def)
  have "peers_match t ?u"
    by (rule peers_match_set [OF pm okc calm t(5), where i = ?q])
      (use live in \<open>auto simp: sys_update_defs isLive_def\<close>)
  moreover have "threads_match \<sigma> \<tau> t ?u"
    by (rule threads_match_same [OF tm calm t(2)]) (simp add: sys_update_defs)
  moreover have "calls_match \<sigma> T t ?u"
  proof (rule calls_match_frame [OF cm okc, where c = c])
    show "sameLive (allocated cl) (cfg cl) (cfg t)" by (rule calm_sameLive [OF calm])
    fix k assume k: "k < length (crpcs cl)" "k \<in> T" "k \<noteq> c"
    with calls_match_parts(2) [OF cm] cT have "\<sigma> k \<noteq> \<sigma> c" by (auto simp: inj_on_def)
    then have "pk \<in> set (remove1 ?req (system.net s))" if "pk \<in> set (system.net s)" "packetNo pk = \<sigma> k" for pk
      using that by (metis in_set_remove1 packetNo_simps(1))
    with k show "crpcs t ! k = crpcs cl ! k \<and>
        (\<forall>pk \<in> set (system.net s). packetNo pk = \<sigma> k \<longrightarrow> pk \<in> set (system.net ?u))"
      by (auto simp: t sys_update_defs)
  next
    from goes calm have u: "goesTo (cfg t) (theRequest e a) q \<Longrightarrow> q = ?q" for q
      by (simp add: goesTo_def calm_def)
    from hd show "carried (cfg t) (system.net ?u) (awaited t c) (\<sigma> c) (crpcs t ! c)"
      using c req u by (cases rule: handles.cases)
        (auto simp: t failed_def comesBack_def theRequest_def sys_update_defs calm_live [OF calm])
  qed (use calm cT in \<open>auto simp: t same_live [OF calm t(2)] calm_def sys_update_defs\<close>)
  ultimately have m': "matches \<sigma> \<tau> T t ?u" using okt by (simp add: matches_def)
  show ?thesis
  proof (cases "isLive (cfg cl) addr")
    case True
    with live_node(1) [OF m live] deliver_handlerOf [of "\<sigma> c" ?q a s] h pk
    have "sysStep (Deliver ?req) s = Some ?u" by simp
    with m' show ?thesis by (intro follows_one [of "Deliver ?req" s ?u]) auto
  qed (use m' in \<open>simp add: follows_same\<close>)
qed

lemma network_follows:
  assumes m: "matches \<sigma> \<tau> T cl s" and step: "clusterStep al rl (NetworkActs a) cl = Some t"
  shows "follows_step t s"
proof -
  have okc: "cluster_ok cl" and pm: "peers_match cl s" and tm: "threads_match \<sigma> \<tau> cl s"
    and cm: "calls_match \<sigma> T cl s" using m by (simp_all add: matches_def)
  note w = cluster_ok_parts(1) [OF okc] and okt = cluster_ok_step [OF okc step]
  from step okc show ?thesis
  proof (cases rule: network_cases)
    case (move c y)
    note calm = move(8)
    have "peers_match t s"
      using pm calm by (auto simp: peers_match_def calm_runs [OF calm] move(7) savedCopy_def calm_def)
    moreover have "threads_match \<sigma> \<tau> t s" by (rule threads_match_same [OF tm calm move(4) refl])
    moreover have "calls_match \<sigma> T t s"
    proof (rule calls_match_frame [OF cm okc, where c = c])
      show "sameLive (allocated cl) (cfg cl) (cfg t)" by (rule calm_sameLive [OF calm])
      show "carried (cfg t) (system.net s) (awaited t c) (\<sigma> c) (crpcs t ! c)" if "c \<in> T"
      proof -
        have x: "carried (cfg cl) (system.net s) (awaited cl c) (\<sigma> c) y"
          by (rule carried_move [OF calls_match_parts(5) [OF cm that] move(2) w])
        have "rpc_ok (allocated cl) (dials cl) (cfg cl) y"
          using rpc_ok_move [OF w cluster_ok_parts(2) [OF okc nth_mem [OF move(1)]] move(2)] by simp
        then have "placed (allocated cl) (cfg cl) y" by (simp add: rpc_ok_def)
        from carried_mono [OF x this calm_sameLive [OF calm]] calm move(1) show ?thesis
          by (simp add: move(3) same_live [OF calm move(4)] calm_def)
      qed
      show "deadEnd (allocated t) (dials t) (cfg t) (crpcs t ! c)" if "c < length (crpcs cl)" "c \<notin> T"
        using deadEnd_calm [OF deadEnd_move [OF calls_match_parts(6) [OF cm that] move(2) w] calm] move(1)
        by (simp add: move(3,5,6))
    qed (use calm in \<open>auto simp: move(3-6) same_live [OF calm move(4)] calm_def\<close>)
    ultimately show ?thesis using okt by (intro follows_same [of \<sigma> \<tau> T]) (simp add: matches_def)
  next
    case (handler c addr e args0 rf z y)
    show ?thesis
      by (rule handler_follows [OF m okt handler(1,2,3,5-11)])
  qed
qed

section \<open>The tester's steps\<close>

lemma threads_match_live:
  assumes m: "threads_match \<sigma> \<tau> cl s" and t: "threads t = threads cl"
    and live: "\<And>g. liveThread t g \<Longrightarrow> liveThread cl g"
    and s': "length (routines s') = length (routines s)"
      "\<And>g. liveThread t g \<Longrightarrow> routines s' ! \<tau> g = routines s ! \<tau> g"
  shows "threads_match \<sigma> \<tau> t s'"
  using m live s' by (simp add: threads_match_def t)

lemma crash_matches:
  assumes m: "matches \<sigma> \<tau> T cl s" and c: "crash1 i (cfg cl) = Inr (cfg t)" and i: "i < cn (cfg cl)"
    and t: "crpcs t = crpcs cl" "threads t = threads cl" "allocated t = allocated cl" "dials t = dials cl"
    and ok: "cluster_ok t"
  shows "matches \<sigma> \<tau> T t s"
proof -
  have okc: "cluster_ok cl" and pm: "peers_match cl s" and tm: "threads_match \<sigma> \<tau> cl s"
    and cm: "calls_match \<sigma> T cl s" using m by (simp_all add: matches_def)
  note w = cluster_ok_parts(1) [OF okc]
  note len = wiring_lengths [OF w] and fr = crash_frame [OF c i w] and r = runs_crash [OF w c i]
  from crash1_peers [OF c i] len have e: "rafts (cfg t) = (rafts (cfg cl))[i := None]"
    "saved (cfg t) = (saved (cfg cl))[i := savedAt i (cfg cl)]"
    "heap (cfg t) = (case rafts (cfg cl) ! i of None \<Rightarrow> heap (cfg cl)
      | Some p \<Rightarrow> (heap (cfg cl))(p := Kill (heap (cfg cl) p)))" by simp_all
  have live: "isLive (cfg cl) p" if "isLive (cfg t) p" for p using that by (auto simp: isLive_def r)
  have "nodes s j = heap (cfg t) p" if p: "runs (cfg t) j p" for j p
  proof -
    have "rafts (cfg cl) ! i \<noteq> Some p"
      using p r runs_unique [OF w, of i p j] i by (auto simp: runs_def)
    then have "heap (cfg t) p = heap (cfg cl) p" by (auto simp: e split: option.splits)
    moreover have "runs (cfg cl) j p" using p r by blast
    ultimately show ?thesis using pm by (auto simp: peers_match_def runs_def)
  qed
  moreover have "persister (nodes s j) = savedCopy j (cfg t)" if "j < cn (cfg cl)" "rafts (cfg t) ! j = None" for j
  proof (cases "j = i")
    case True
    have "saved (cfg cl) ! i \<noteq> None" if "rafts (cfg cl) ! i = Some p" for p
      using w i that by (auto simp: wiring_ok_def running_ok_def runs_def)
    with True i len pm show ?thesis
      by (auto simp: savedCopy_def e savedAt_def peers_match_def runs_def split: option.splits)
  next
    case False
    with that len pm show ?thesis by (auto simp: savedCopy_def e peers_match_def)
  qed
  ultimately have "peers_match t s" using pm by (auto simp: peers_match_def fr)
  moreover have "threads_match \<sigma> \<tau> t s"
    by (rule threads_match_live [OF tm t(2)]) (use live in \<open>auto simp: liveThread_def t\<close>)
  moreover have "calls_match \<sigma> T t s"
    by (rule calls_match_frame [OF cm okc, where c = "length (crpcs cl)"])
      (use live fr calls_match_parts(1) [OF cm] in \<open>auto simp: t sameLive_def awaited_def liveThread_def\<close>)
  ultimately show ?thesis using ok by (simp add: matches_def)
qed

lemma start_matches:
  assumes m: "matches \<sigma> \<tau> T cl s" and st: "startsAt i es p (cfg cl) (cfg t)" and i: "i < cn (cfg cl)"
    and down: "rafts (cfg cl) ! i = None" and new: "p \<notin> allocated cl"
    and t: "crpcs t = crpcs cl" "threads t = threads cl" "allocated t = insert p (allocated cl)"
      "dials t = (dials cl)(p := es)"
    and ok: "cluster_ok t"
  shows "\<exists>u. sysStep (Restart i) s = Some u \<and> matches \<sigma> \<tau> T t u"
proof -
  have okc: "cluster_ok cl" and pm: "peers_match cl s" and tm: "threads_match \<sigma> \<tau> cl s"
    and cm: "calls_match \<sigma> T cl s" using m by (simp_all add: matches_def)
  note w = cluster_ok_parts(1) [OF okc]
  note len = wiring_lengths [OF w] and fr = start_frame [OF st new w]
  have r: "runs (cfg t) j x \<longleftrightarrow> (if j = i then x = p else runs (cfg cl) j x)" for j x
    by (rule runs_start [OF st i _ down]) (simp add: len)
  have ni: "\<not> runs (cfg cl) i x" for x by (simp add: runs_def down)
  from st obtain rf where rf: "Make (cn (cfg cl)) i (savedCopy i (cfg cl)) = Inr rf"
    "rafts (cfg t) = (rafts (cfg cl))[i := Some p]" "heap (cfg t) = (heap (cfg cl))(p := rf)"
    "saved (cfg t) = (saved (cfg cl))[i := Some (savedCopy i (cfg cl))]"
    unfolding startsAt_def by blast
  let ?u = "(setNode i rf s)\<lparr>routines := map (stopRoutine i) (routines s)\<rparr>"
  have step: "sysStep (Restart i) s = Some ?u"
    using pm i down rf(1) by (simp add: peers_match_def)
  have old: "x \<in> allocated cl \<and> x \<noteq> p" if "runs (cfg cl) j x" for j x
    using runs_me [OF w that] new by auto
  have live: "isLive (cfg cl) x" if "isLive (cfg t) x" "x \<in> allocated cl" for x
    using that new by (auto simp: isLive_def r split: if_splits)
  have mem: "fst (threads cl ! g) \<in> allocated cl" if "g < length (threads cl)" for g
    using cluster_ok_parts(3) [OF okc nth_mem [OF that]] by (auto simp: thread_ok_def)
  then have lt: "liveThread cl g" if "liveThread t g" for g
    using that live by (auto simp: liveThread_def t)
  have "peers_match t ?u"
    using pm old len i unfolding peers_match_def
    by (auto simp: r fr setNode_def rf savedCopy_def nth_list_update)
  moreover have "threads_match \<sigma> \<tau> t ?u"
  proof (rule threads_match_live [OF tm t(2) lt])
    fix g assume g: "liveThread t g"
    then have l: "liveThread cl g" by (rule lt)
    obtain x r0 where x: "threads cl ! g = (x, r0)" by (cases "threads cl ! g")
    have glen: "g < length (threads cl)" using l by (simp add: liveThread_def)
    note th = liveThread_runs [OF okc glen x]
    have "me (heap (cfg cl) x) \<noteq> i" using th(3,4) l ni by auto
    with th(2) have "actsFor (renum \<sigma> r0) \<noteq> Some i" by (auto simp: follows_def)
    with live_routine [OF m l x] show "routines ?u ! \<tau> g = routines s ! \<tau> g" by (simp add: stop_other)
  qed simp_all
  moreover have "calls_match \<sigma> T t ?u"
    by (rule calls_match_frame [OF cm okc, where c = "length (crpcs cl)"])
      (use live lt new fr calls_match_parts(1) [OF cm] in
        \<open>auto simp: t sameLive_def awaited_def setNode_def\<close>)
  ultimately show ?thesis using ok step by (simp add: matches_def)
qed

lemma switch_matches:
  assumes m: "matches \<sigma> \<tau> T cl s" and ok: "cluster_ok t"
    and same: "cn (cfg t) = cn (cfg cl)" "rafts (cfg t) = rafts (cfg cl)" "saved (cfg t) = saved (cfg cl)"
      "heap (cfg t) = heap (cfg cl)" "connections (cnet (cfg t)) = connections (cnet (cfg cl))"
      "crpcs t = crpcs cl" "threads t = threads cl" "allocated t = allocated cl" "dials t = dials cl"
  shows "matches \<sigma> \<tau> T t s"
proof -
  have okc: "cluster_ok cl" and pm: "peers_match cl s" and tm: "threads_match \<sigma> \<tau> cl s"
    and cm: "calls_match \<sigma> T cl s" using m by (simp_all add: matches_def)
  have r: "runs (cfg t) = runs (cfg cl)" by (simp add: runs_def same fun_eq_iff)
  then have live: "isLive (cfg t) = isLive (cfg cl)" by (simp add: isLive_def fun_eq_iff)
  have "peers_match t s" using pm by (simp add: peers_match_def r same savedCopy_def)
  moreover have "threads_match \<sigma> \<tau> t s"
    by (rule threads_match_live [OF tm same(7)]) (simp_all add: liveThread_def same live)
  moreover have "calls_match \<sigma> T t s"
    by (rule calls_match_frame [OF cm okc, where c = "length (crpcs cl)"])
      (use calls_match_parts(1) [OF cm] in \<open>auto simp: same live sameLive_def awaited_def liveThread_def\<close>)
  ultimately show ?thesis using ok by (simp add: matches_def)
qed

text \<open>The peers that steps of the cluster, and of the system, bring up.\<close>

fun started :: "'c clusterAction \<Rightarrow> nat list" where
  "started (TesterActs (StartPeer i names p)) = [i]"
| "started _ = []"

fun restarted :: "'c action \<Rightarrow> nat list" where
  "restarted (Restart i) = [i]"
| "restarted _ = []"

lemma restarted_stable: "\<not> isRestart b \<Longrightarrow> restarted b = []"
  by (cases b) auto

lemma test_matches:
  assumes m: "matches \<sigma> \<tau> T cl s" and step: "clusterStep al rl (TesterActs a) cl = Some t"
  shows "started (TesterActs a) = [] \<and> matches \<sigma> \<tau> T t s \<or>
    (\<exists>i u. started (TesterActs a) = [i] \<and> sysStep (Restart i) s = Some u \<and> matches \<sigma> \<tau> T t u)"
proof -
  have okc: "cluster_ok cl" using m by (simp add: matches_def)
  note ok = cluster_ok_step [OF okc step] and w = cluster_ok_parts(1) [OF okc]
  from step w show ?thesis
  proof (cases rule: tester_cases)
    case switch
    from switch(10) have "started (TesterActs a) = []" by (cases a) auto
    with switch_matches [OF m ok switch(1-9)] show ?thesis by simp
  next
    case (crash i)
    from crash_matches [OF m crash(3,2,4-7) ok] crash(1) show ?thesis by simp
  next
    case (start i names p u)
    let ?c = "cl\<lparr>cfg := u\<rparr>"
    note fr = crash_frame [OF start(3,2) w]
    have okm: "cluster_ok ?c"
      by (rule cluster_ok_grow [OF okc]) (simp_all add: start(4) fr)
    have m': "matches \<sigma> \<tau> T ?c s"
      by (rule crash_matches [OF m _ start(2) _ _ _ _ okm]) (simp_all add: start(3))
    have "\<exists>u. sysStep (Restart i) s = Some u \<and> matches \<sigma> \<tau> T t u"
      by (rule start_matches [OF m' _ _ _ _ _ _ _ _ ok]) (use start in simp_all)
    with start(1) show ?thesis by auto
  qed
qed

section \<open>The refinement\<close>

lemma step_follows:
  assumes "matches \<sigma> \<tau> T cl s" and "clusterStep al rl a cl = Some t" and "started a = []"
  shows "follows_step t s"
proof (cases a)
  case (PeerActs p b)
  with assms show ?thesis by (auto simp del: clusterStep.simps intro: act_follows)
next
  case (ThreadReturns g)
  with assms show ?thesis by (auto simp del: clusterStep.simps intro: return_follows)
next
  case (NetworkActs b)
  with assms show ?thesis by (auto simp del: clusterStep.simps intro: network_follows)
next
  case (TesterActs b)
  with test_matches [OF assms(1), of al rl b t] assms(2,3) show ?thesis
    by (auto simp del: clusterStep.simps intro: follows_same)
next
  case (ThreadRuns g)
  have okc: "cluster_ok cl" using assms(1) by (simp add: matches_def)
  from assms(2) ThreadRuns obtain p r rf nxt send where g: "g < length (threads cl)" "threads cl ! g = (p, r)"
    and l: "localRun (cn (cfg cl)) (heap (cfg cl) p) r = Some (rf, nxt, send)"
    by (auto split: if_splits option.splits prod.splits)
  let ?c = "(setPeer p rf cl)\<lparr>threads := (threads cl)[g := (p, nxt (length (crpcs cl)))]\<rparr>"
  note ok = cluster_ok_step [OF okc assms(2)]
  show ?thesis
  proof (cases send)
    case None
    with assms(2) ThreadRuns g l have "t = ?c" by simp
    from run_quiet_follows [OF assms(1) ok g l [unfolded None] this] show ?thesis .
  next
    case (Some x)
    then obtain q a' where send: "send = Some (q, a')" by (cases x) auto
    with ThreadRuns assms(2) g l obtain s' where
      "rpcStep al rl (SendCall (dials cl p ! q) (methodName a') a') (rpcView ?c) = Some s'" "t = fromRpc s' ?c"
      by (auto simp: Let_def)
    with SendCall_sends have "sends (dials cl p ! q) a' ?c t" by metis
    from run_send_follows [OF assms(1) ok g l [unfolded send] refl this] show ?thesis .
  qed
qed

lemma implements_trace:
  assumes "implements cl s" and "clusterStep al rl a cl = Some t"
  shows "\<exists>bs u. run_actions sysStep bs s = Some u \<and> implements t u \<and> length bs \<le> 1 \<and>
    concat (map restarted bs) = started a"
proof -
  from assms(1) obtain \<sigma> \<tau> T where m: "matches \<sigma> \<tau> T cl s" by (auto simp: implements_def)
  show ?thesis
  proof (cases "started a = []")
    case False
    then obtain b where a: "a = TesterActs b" by (cases a) auto
    with test_matches [OF m assms(2) [unfolded a]] False obtain i u where
      "started a = [i]" "sysStep (Restart i) s = Some u" "implements t u"
      unfolding implements_def a by blast
    then show ?thesis by (intro exI [of _ "[Restart i]"] exI [of _ u]) simp
  next
    case True
    from step_follows [OF m assms(2) True] consider "implements t s"
      | b s' where "stableStep b s = Some s'" "implements t s'" by (auto simp: follows_step_def)
    then show ?thesis
    proof cases
      case 1
      with True show ?thesis by (intro exI [of _ "[]"] exI [of _ s]) simp
    next
      case (2 b s')
      then have "sysStep b s = Some s'" "\<not> isRestart b" by (auto simp: stableStep_def split: if_splits)
      with 2(2) True show ?thesis
        by (intro exI [of _ "[b]"] exI [of _ s']) (simp add: restarted_stable)
    qed
  qed
qed

lemma implements_step:
  assumes "implements cl s" and "clusterStep al rl a cl = Some t"
  shows "implements t s \<or> (\<exists>b s'. sysStep b s = Some s' \<and> implements t s')"
proof -
  from implements_trace [OF assms] obtain bs u where
    "run_actions sysStep bs s = Some u" "implements t u" "length bs \<le> 1" by blast
  then show ?thesis by (cases bs) (auto split: option.splits)
qed

lemma run_actions_compose:
  "run_actions step as s = Some t \<Longrightarrow> run_actions step bs t = Some u \<Longrightarrow>
     run_actions step (as @ bs) s = Some u"
  by (induction as arbitrary: s) (auto split: option.splits)

lemma implements_run:
  assumes "run_actions (clusterStep al rl) as cl = Some t" and "implements cl s"
  shows "\<exists>bs u. run_actions sysStep bs s = Some u \<and> implements t u \<and> length bs \<le> length as \<and>
    concat (map restarted bs) = concat (map started as)"
  using assms
proof (induction as arbitrary: cl s)
  case Nil
  then show ?case by (intro exI [of _ "[]"] exI [of _ s]) simp
next
  case (Cons a as)
  then obtain c where c: "clusterStep al rl a cl = Some c" "run_actions (clusterStep al rl) as c = Some t"
    by (auto split: option.splits)
  from implements_trace [OF Cons.prems(2) c(1)] obtain bs u where
    bs: "run_actions sysStep bs s = Some u" "implements c u" "length bs \<le> 1"
      "concat (map restarted bs) = started a" by blast
  from Cons.IH [OF c(2) bs(2)] obtain ds v where
    "run_actions sysStep ds u = Some v" "implements t v" "length ds \<le> length as"
      "concat (map restarted ds) = concat (map started as)" by blast
  with bs show ?case by (intro exI [of _ "bs @ ds"] exI [of _ v]) (auto intro: run_actions_compose)
qed

lemma freshNode_persister: "persister (freshNode n i) = MakePersister"
  by (simp add: freshNode_def Make_def readPersist_def persister_defs)

lemma Make_freshNode: "Make n i MakePersister = Inr (freshNode n i)"
  by (simp add: freshNode_def Make_def readPersist_def persister_defs)

lemma matches_empty: "matches id id {} (emptyCluster n unreliable) (startSystem n)"
proof -
  let ?c = "emptyCluster n unreliable"
  have e: "crpcs ?c = []" "threads ?c = []" "rafts (cfg ?c) = replicate n None" "cn (cfg ?c) = n"
    "saved (cfg ?c) = replicate n None" by (simp_all add: emptyCluster_def emptyConfig_def)
  have "cluster_ok ?c" by (rule cluster_ok_init) (auto simp: clusterInit_def)
  moreover have "peers_match ?c (startSystem n)"
    by (simp add: peers_match_def startSystem_def runs_def savedCopy_def e freshNode_persister)
  moreover have "threads_match id id ?c (startSystem n)"
    by (simp add: threads_match_def liveThread_def e)
  moreover have "calls_match id {} ?c (startSystem n)"
    by (simp add: calls_match_def awaited_def liveThread_def e)
  ultimately show ?thesis by (simp add: matches_def)
qed

interpretation refines: simulation clusterInit "clusterStep al rl" raftInit sysStep implements
proof
  fix cl :: "'a cluster"
  assume "clusterInit cl"
  then obtain n unreliable where cl: "cl = emptyCluster n unreliable" by (auto simp: clusterInit_def)
  have "implements cl (startSystem n)" using matches_empty unfolding implements_def cl by blast
  then show "\<exists>s. raftInit s \<and> implements cl s"
    by (intro exI [of _ "startSystem n"]) (simp add: raftInit_def startSystem_def)
qed (rule implements_step)

text \<open>Executions of a cluster that the tester has built, in which crashed peers stay down.\<close>

fun isTest :: "'c clusterAction \<Rightarrow> bool" where
  "isTest (TesterActs a) = True"
| "isTest _ = False"

definition clusterBuilt :: "('c raftArgs \<Rightarrow> nat) \<Rightarrow> (raftReply \<Rightarrow> nat) \<Rightarrow> 'c cluster \<Rightarrow> bool" where
  "clusterBuilt al rl cl \<longleftrightarrow> (\<exists>n unreliable as. list_all isTest as \<and>
     run_actions (clusterStep al rl) as (emptyCluster n unreliable) = Some cl)"

definition stableCluster :: "('c raftArgs \<Rightarrow> nat) \<Rightarrow> (raftReply \<Rightarrow> nat) \<Rightarrow> 'c clusterAction \<Rightarrow> 'c cluster
  \<Rightarrow> 'c cluster option" where
  "stableCluster al rl a cl = (if started a \<noteq> [] then None else clusterStep al rl a cl)"

lemma restart_fresh: "sysStep (Restart i) (startSystem n) = Some u \<Longrightarrow> u = startSystem n"
proof -
  assume "sysStep (Restart i) (startSystem n) = Some u"
  then show ?thesis
    by (cases "i < n") (simp_all add: startSystem_def setNode_def freshNode_persister Make_freshNode)
qed

lemma built_matches:
  assumes "list_all isTest as" and "run_actions (clusterStep al rl) as cl = Some t"
    and "matches \<sigma> \<tau> T cl (startSystem n)"
  shows "matches \<sigma> \<tau> T t (startSystem n)"
  using assms
proof (induction as arbitrary: cl)
  case (Cons a as)
  then obtain b u where a: "a = TesterActs b" and u: "clusterStep al rl a cl = Some u"
    and r: "run_actions (clusterStep al rl) as u = Some t" by (cases a) (auto split: option.splits)
  have "matches \<sigma> \<tau> T u (startSystem n)"
    using test_matches [OF Cons.prems(3) u [unfolded a]] restart_fresh by blast
  with Cons r show ?case by simp
qed simp

interpretation stable: simulation "clusterBuilt al rl" "stableCluster al rl" raftInit stableStep implements
proof
  fix cl :: "'a cluster"
  assume "clusterBuilt al rl cl"
  then obtain n unreliable as where "list_all isTest as"
    "run_actions (clusterStep al rl) as (emptyCluster n unreliable) = Some cl" by (auto simp: clusterBuilt_def)
  from built_matches [OF this matches_empty] have "implements cl (startSystem n)"
    unfolding implements_def by blast
  then show "\<exists>s. raftInit s \<and> implements cl s"
    by (intro exI [of _ "startSystem n"]) (simp add: raftInit_def startSystem_def)
next
  fix cl s a t
  assume "implements cl s" "stableCluster al rl a cl = Some t"
  then show "implements t s \<or> (\<exists>b s'. stableStep b s = Some s' \<and> implements t s')"
    using step_follows unfolding implements_def [of cl] stableCluster_def follows_step_def [symmetric]
    by (metis option.distinct(1))
qed

end
