(* ===== verification/RaftTested.thy ===== *)
theory RaftTested
  imports RaftRefines RaftLog
begin

text \<open>
  What the refinement of RaftRefines gives for the peers that the tester runs over labrpc: the
  refinement itself, for executions from an empty configuration; that no handler panics; and
  Election Safety and Log Matching as long as crashed peers stay down.
\<close>

lemma implements_peers:
  assumes "implements cl s"
  shows "nservers s = cn (cfg cl)" "runs (cfg cl) i p \<Longrightarrow> nodes s i = heap (cfg cl) p \<and> i < nservers s"
    "i < cn (cfg cl) \<Longrightarrow> rafts (cfg cl) ! i = None \<Longrightarrow> persister (nodes s i) = savedCopy i (cfg cl)"
  using assms by (auto simp: implements_def matches_def peers_match_def runs_def)


text \<open>C4. Election Safety in the tester's cluster. Once the peers have been started, and as long as
  no crashed peer is started again, two running peers that lead in the same term are the same
  object, whatever the network loses, delays and reorders and whatever the tester cuts off.\<close>

theorem cluster_election_safety:
  assumes "reachable (clusterBuilt al rl) (stableCluster al rl) cl"
    and "runs (cfg cl) i p" and "runs (cfg cl) j q"
    and "role (heap (cfg cl) p) = Leader" and "role (heap (cfg cl) q) = Leader"
    and "currentTerm (heap (cfg cl) p) = currentTerm (heap (cfg cl) q)"
  shows "i = j \<and> p = q"
proof -
  from stable.reachable_simulated [OF assms(1)] obtain s where
    s: "reachable raftInit stableStep s" "implements cl s" by blast
  from election.reachable_inv [OF s(1)] obtain V where inv: "election_inv V s" by blast
  note n = implements_peers(2) [OF s(2) assms(2)] implements_peers(2) [OF s(2) assms(3)]
  from leader_elected [OF inv] n assms(4-6) have
    "elected (nservers s) V (currentTerm (heap (cfg cl) p)) i"
    "elected (nservers s) V (currentTerm (heap (cfg cl) p)) j" by metis+
  then have "i = j" by (rule elected_unique)
  with assms(2,3) show ?thesis by (simp add: runs_def)
qed

text \<open>A call that is run at a live peer stands for a request in the abstract network.\<close>

lemma running_request:
  assumes m: "matches \<sigma> \<tau> T cl s" and c: "c < length (crpcs cl)" and at: "runsAt (crpcs cl ! c) = Some addr"
    and live: "isLive (cfg cl) addr"
  shows "\<exists>e a. reqOf (crpcs cl ! c) = theRequest e a \<and> addr \<in> allocated cl \<and>
    requestPacket (\<sigma> c) (me (heap (cfg cl) addr)) a \<in> set (system.net s)"
proof -
  have okc: "cluster_ok cl" and cm: "calls_match \<sigma> T cl s" using m by (simp_all add: matches_def)
  let ?x = "crpcs cl ! c"
  have r: "rpc_ok (allocated cl) (dials cl) (cfg cl) ?x" using cluster_ok_parts(2) [OF okc] c by simp
  then obtain e a where req: "reqOf ?x = theRequest e a" by (auto simp: rpc_ok_def)
  have lead: "leadsTo (allocated cl) (cfg cl) (reqOf ?x) addr"
    using at r by (cases ?x) (auto simp: rpc_ok_def)
  have "c \<in> T" using at calls_match_parts(6) [OF cm c] by (cases ?x) auto
  from calls_match_parts(5) [OF cm this] at live have "inFlight (cfg cl) (system.net s) (\<sigma> c) (reqOf ?x)"
    by (cases ?x) auto
  with lead req show ?thesis by (auto simp: inFlight_def leadsTo_def goesTo_def theRequest_def)
qed

text \<open>C6. No handler panics in the tester's cluster, crashes included: when the network runs a call
  at a peer that is alive, \<open>dispatch\<close> returns, or it waits for room in the \<open>Commit\<close> channel.\<close>

theorem cluster_handlers_return:
  assumes "reachable clusterInit (clusterStep al rl) cl" and "x \<in> set (crpcs cl)"
    and "runsAt x = Some addr" and "isLive (cfg cl) addr"
  shows "case Server_dispatch (reqOf x) (objects (cnet (cfg cl)) addr) (heap (cfg cl)) of
      Inl f \<Rightarrow> f = Blocks \<and> 100 \<le> Commit (heap (cfg cl) addr)
    | Inr (rs, h, rep) \<Rightarrow> ok rep \<and> (\<forall>p. p \<noteq> addr \<longrightarrow> h p = heap (cfg cl) p)"
proof -
  from refines.reachable_simulated [OF assms(1)] obtain s where
    s: "reachable raftInit sysStep s" "implements cl s" by blast
  then obtain \<sigma> \<tau> T where m: "matches \<sigma> \<tau> T cl s" by (auto simp: implements_def)
  have okc: "cluster_ok cl" using m by (simp add: matches_def)
  from assms(2) obtain c where c: "c < length (crpcs cl)" "crpcs cl ! c = x" by (auto simp: in_set_conv_nth)
  let ?q = "me (heap (cfg cl) addr)"
  from running_request [OF m c(1) _ assms(4)] c assms(3) obtain e a where
    a: "reqOf x = theRequest e a" "addr \<in> allocated cl" "requestPacket (\<sigma> c) ?q a \<in> set (system.net s)" by auto
  from cluster_ok_parts(1) [OF okc] a(2)
  have srv: "services (objects (cnet (cfg cl)) addr) = services (raftServer addr)"
    by (simp add: wiring_ok_def object_ok_def)
  note dispatch = raft_dispatch [OF srv, of e a "heap (cfg cl)"]
  have "runs (cfg cl) ?q addr"
    using assms(4) runs_me [OF cluster_ok_parts(1) [OF okc]] by (auto simp: isLive_def)
  from implements_peers(2) [OF s(2) this] have n: "nodes s ?q = heap (cfg cl) addr" "?q < nservers s" by auto
  show ?thesis
  proof (cases "handlerOf a (heap (cfg cl) addr)")
    case (Inl f)
    then obtain e' where e': "a = AppArgs e'" "AppendEntries (nodes s ?q) e' = Inl f"
      by (cases a) (auto simp: n split: sum.splits prod.splits)
    have "AppReq (\<sigma> c) ?q e' \<in> set (system.net s)" using a(3) e'(1) by simp
    from requests_okD [OF requests.reachable_inv [OF s(1)] this]
    have "f = Blocks \<and> 100 \<le> Commit (heap (cfg cl) addr)"
      using AppendEntries_faults_only_blocked [OF e'(2)] reachable_peer [OF s(1) n(2)]
      by (simp add: peer_inv_def n)
    with Inl dispatch a(1) show ?thesis by simp
  next
    case (Inr r)
    with dispatch a(1) show ?thesis by (cases r) auto
  qed
qed

text \<open>Log Matching and the order of the applied messages, as the tester's objects have them.\<close>

theorem cluster_log_matching:
  assumes "reachable (clusterBuilt al rl) (stableCluster al rl) cl"
    and "runs (cfg cl) i p" and "runs (cfg cl) j q"
    and "k < length (log (heap (cfg cl) p))" and "k < length (log (heap (cfg cl) q))"
    and "Term (log (heap (cfg cl) p) ! k) = Term (log (heap (cfg cl) q) ! k)"
  shows "take (Suc k) (log (heap (cfg cl) p)) = take (Suc k) (log (heap (cfg cl) q))"
proof -
  from stable.reachable_simulated [OF assms(1)] obtain s where
    s: "reachable raftInit stableStep s" "implements cl s" by blast
  from raft_log.reachable_inv [OF s(1)] obtain V H where "log_inv V H s" by blast
  with implements_peers(2) [OF s(2) assms(2)] implements_peers(2) [OF s(2) assms(3)]
  have "goodlog H (log (heap (cfg cl) p))" "goodlog H (log (heap (cfg cl) q))"
    unfolding log_inv_def by metis+
  from goodlog_match [OF this assms(4-6)] show ?thesis .
qed

theorem cluster_applied_in_order:
  assumes "reachable clusterInit (clusterStep al rl) cl" and "runs (cfg cl) i p"
  shows "map CommandIndex (applyCh (heap (cfg cl) p)) = [1..lastApplied (heap (cfg cl) p)]"
proof -
  from refines.reachable_simulated [OF assms(1)] obtain s where
    s: "reachable raftInit sysStep s" "implements cl s" by blast
  from implements_peers(2) [OF s(2) assms(2)] reachable_peer [OF s(1)] show ?thesis
    by (fastforce simp: peer_inv_def apply_ok_def)
qed

section \<open>Witnesses\<close>

text \<open>
  Three peers; peer 0 is elected with the vote of peer 1, in real calls. The lengths of gob's
  encodings do not matter here.
\<close>

abbreviation demoClusterStep :: "nat clusterAction \<Rightarrow> nat cluster \<Rightarrow> nat cluster option" where
  "demoClusterStep \<equiv> clusterStep (\<lambda>a. 0) (\<lambda>r. 0)"

definition demoCluster :: "nat clusterAction list" where
  "demoCluster = map TesterActs
     [StartPeer 0 [''a'', ''b'', ''c''] 10, StartPeer 1 [''d'', ''e'', ''f''] 11,
      StartPeer 2 [''g'', ''h'', ''i''] 12, ConnectPeer 0, ConnectPeer 1, ConnectPeer 2]"

definition demoAsk :: "nat clusterAction list" where
  "demoAsk = [PeerActs 10 (ElectionTick 0), ThreadRuns 0, ThreadRuns 0, ThreadRuns 0,
     NetworkActs (Begin 0)]"

definition demoReply :: "nat clusterAction list" where
  "demoReply = [NetworkActs (RunHandler 0), NetworkActs (CheckReply 0 False),
     NetworkActs (SendReply 0), ThreadReturns 0, ThreadRuns 0]"

lemma demoCluster_run:
  "case run_actions demoClusterStep demoCluster (emptyCluster 3 False) of
     None \<Rightarrow> False
   | Some cl \<Rightarrow> (case run_actions (stableCluster (\<lambda>a. 0) (\<lambda>r. 0)) (demoAsk @ demoReply) cl of
         None \<Rightarrow> False
       | Some t \<Rightarrow> role (heap (cfg t) 10) = Leader \<and> currentTerm (heap (cfg t) 10) = 1 \<and>
          rafts (cfg t) = [Some 10, Some 11, Some 12] \<and> cn (cfg t) = 3)"
  by code_simp

lemma demoAsk_run:
  "case run_actions demoClusterStep (demoCluster @ demoAsk) (emptyCluster 3 False) of
     None \<Rightarrow> False
   | Some cl \<Rightarrow> rafts (cfg cl) = [Some 10, Some 11, Some 12] \<and> cn (cfg cl) = 3 \<and>
       map runsAt (crpcs cl) = [Some 11]"
  by code_simp

lemma emptyCluster_reachable:
  "run_actions (clusterStep al rl) as (emptyCluster n unreliable) = Some cl \<Longrightarrow>
     reachable clusterInit (clusterStep al rl) cl"
  by (rule reachable_run [OF reach_init]) (auto simp: clusterInit_def)

text \<open>The call of the demo while its handler may run, and what the dispatch gives.\<close>

theorem cluster_handlers_return_witness:
  "\<exists>cl :: nat cluster. run_actions demoClusterStep (demoCluster @ demoAsk) (emptyCluster 3 False) = Some cl \<and>
     runsAt (crpcs cl ! 0) = Some 11 \<and>
     (case Server_dispatch (reqOf (crpcs cl ! 0)) (objects (cnet (cfg cl)) 11) (heap (cfg cl)) of
        Inl f \<Rightarrow> f = Blocks \<and> 100 \<le> Commit (heap (cfg cl) 11)
      | Inr (rs, h, rep) \<Rightarrow> ok rep \<and> (\<forall>p. p \<noteq> 11 \<longrightarrow> h p = heap (cfg cl) p))"
proof -
  from demoAsk_run obtain cl where
    cl: "run_actions demoClusterStep (demoCluster @ demoAsk) (emptyCluster 3 False) = Some cl"
    "rafts (cfg cl) = [Some 10, Some 11, Some 12]" "cn (cfg cl) = 3" "map runsAt (crpcs cl) = [Some 11]"
    by (auto simp del: run_actions.simps split: option.splits)
  have "runs (cfg cl) 1 11" using cl(2,3) by (simp add: runs_def)
  then have live: "isLive (cfg cl) 11" by (auto simp: isLive_def)
  from cl(4) obtain x where x: "crpcs cl = [x]" "runsAt x = Some 11" by auto
  from cluster_handlers_return [OF emptyCluster_reachable [OF cl(1)], of x 11] x live cl(1) show ?thesis
    by (intro exI [of _ cl]) (simp del: run_actions.simps)
qed

theorem calls_well_typed_witness:
  "\<exists>(cl :: nat cluster) e a. run_actions demoClusterStep (demoCluster @ demoAsk) (emptyCluster 3 False) = Some cl \<and>
     reqOf (crpcs cl ! 0) = theRequest e a \<and> dispatchesTo a 11 cl (reqOf (crpcs cl ! 0))"
proof -
  from demoAsk_run obtain cl where
    cl: "run_actions demoClusterStep (demoCluster @ demoAsk) (emptyCluster 3 False) = Some cl"
    "map runsAt (crpcs cl) = [Some 11]"
    by (auto simp del: run_actions.simps split: option.splits)
  from cl(2) obtain x where x: "crpcs cl = [x]" "runsAt x = Some 11" by auto
  from calls_well_typed [OF emptyCluster_reachable [OF cl(1)], of x] x obtain e a where
    "reqOf x = theRequest e a" "dispatchesTo a 11 cl (reqOf x)" by auto
  with x cl(1) show ?thesis
    by (intro exI [of _ cl] exI [of _ e] exI [of _ a]) (simp del: run_actions.simps)
qed

lemma demo_leader:
  obtains cl0 cl :: "nat cluster" where
    "run_actions demoClusterStep demoCluster (emptyCluster 3 False) = Some cl0"
    "run_actions (stableCluster (\<lambda>a. 0) (\<lambda>r. 0)) (demoAsk @ demoReply) cl0 = Some cl"
    "role (heap (cfg cl) 10) = Leader" "currentTerm (heap (cfg cl) 10) = 1"
    "rafts (cfg cl) = [Some 10, Some 11, Some 12]" "cn (cfg cl) = 3"
  using demoCluster_run that by (auto simp del: run_actions.simps split: option.splits)

lemma stable_run:
  "run_actions (stableCluster al rl) as cl = Some t \<Longrightarrow> run_actions (clusterStep al rl) as cl = Some t"
proof (induction as arbitrary: cl)
  case (Cons a as)
  then obtain c where c: "stableCluster al rl a cl = Some c" "run_actions (stableCluster al rl) as c = Some t"
    by (auto split: option.splits)
  from c(1) have "clusterStep al rl a cl = Some c" by (simp add: stableCluster_def split: if_splits)
  with Cons.IH [OF c(2)] show ?case by simp
qed simp

theorem cluster_election_safety_witness:
  "\<exists>cl :: nat cluster. reachable (clusterBuilt (\<lambda>a. 0) (\<lambda>r. 0)) (stableCluster (\<lambda>a. 0) (\<lambda>r. 0)) cl \<and>
     {j. \<exists>q. runs (cfg cl) j q \<and> role (heap (cfg cl) q) = Leader \<and>
        currentTerm (heap (cfg cl) q) = 1} = {0}"
proof (rule demo_leader)
  fix cl0 cl :: "nat cluster"
  assume c: "run_actions demoClusterStep demoCluster (emptyCluster 3 False) = Some cl0"
    "run_actions (stableCluster (\<lambda>a. 0) (\<lambda>r. 0)) (demoAsk @ demoReply) cl0 = Some cl"
    and l: "role (heap (cfg cl) 10) = Leader" "currentTerm (heap (cfg cl) 10) = 1"
    and n: "rafts (cfg cl) = [Some 10, Some 11, Some 12]" "cn (cfg cl) = 3"
  have "list_all isTest demoCluster" by (simp add: demoCluster_def)
  with c(1) have "clusterBuilt (\<lambda>a. 0) (\<lambda>r. 0) cl0" unfolding clusterBuilt_def by blast
  then have r: "reachable (clusterBuilt (\<lambda>a. 0) (\<lambda>r. 0)) (stableCluster (\<lambda>a. 0) (\<lambda>r. 0)) cl"
    by (rule reachable_run [OF reach_init c(2)])
  have 0: "runs (cfg cl) 0 10" by (simp add: runs_def n)
  have "j = 0" if "runs (cfg cl) j q" "role (heap (cfg cl) q) = Leader" "currentTerm (heap (cfg cl) q) = 1" for j q
    using cluster_election_safety [OF r that(1) 0] that l by simp
  with 0 l have "{j. \<exists>q. runs (cfg cl) j q \<and> role (heap (cfg cl) q) = Leader \<and>
      currentTerm (heap (cfg cl) q) = 1} = {0}" by blast
  with r show ?thesis by blast
qed


end
