(* ===== verification/RaftLive.thy ===== *)
theory RaftLive
  imports RaftSteps
begin

text \<open>
  What the election of raft/raft.go can always achieve: from any state that a cluster reaches,
  crashes, losses and old goroutines included, a majority of running peers without a leader can
  elect one. The schedule lets the peer with the most up-to-date log time out until its term is
  above all others, and answers its polls.
\<close>

section \<open>The most up-to-date log\<close>

definition lastTerm :: "'c Raft \<Rightarrow> int" where
  "lastTerm rf = Term (last (log rf))"

text \<open>What a peer compares before it votes.\<close>

definition behind :: "'c Raft \<Rightarrow> 'c Raft \<Rightarrow> bool" where
  "behind a b \<longleftrightarrow> lastTerm a < lastTerm b \<or> lastTerm a = lastTerm b \<and> slen (log a) \<le> slen (log b)"

lemma most_up_to_date:
  assumes "finite A" and "A \<noteq> {}"
  shows "\<exists>i \<in> A. \<forall>j \<in> A. behind (rfs j) (rfs i)"
  using assms
proof (induction rule: finite_ne_induct)
  case (insert j A)
  then obtain i where i: "i \<in> A" "\<forall>k \<in> A. behind (rfs k) (rfs i)" by blast
  have total: "behind (rfs i) (rfs j) \<or> behind (rfs j) (rfs i)" and refl: "behind (rfs j) (rfs j)"
    by (auto simp: behind_def)
  have trans: "behind (rfs k) (rfs j)" if "behind (rfs k) (rfs i)" "behind (rfs i) (rfs j)" for k
    using that by (auto simp: behind_def)
  show ?case
    using total i refl trans by blast
qed (simp add: behind_def)

lemma updateLastLogInfo_lastTerm:
  "log rf \<noteq> [] \<Longrightarrow> updateLastLogInfo rf = rf\<lparr>logPrevIndex := slen (log rf) - 1, logPrevTerm := lastTerm rf\<rparr>"
  by (cases "log rf" rule: rev_cases) (auto simp: updateLastLogInfo_def slen_def lastTerm_def Let_def nat_add_distrib)

section \<open>Candidacy\<close>

text \<open>A candidate \<open>i\<close> and the arguments with which it asks for votes.\<close>

definition candidate :: "nat \<Rightarrow> RequestVoteArgs \<Rightarrow> 'c Raft \<Rightarrow> bool" where
  "candidate i args rf \<longleftrightarrow>
     role rf = Candidate \<and> currentTerm rf = rvTerm args \<and> CandidateId args = int i \<and> me rf = i \<and>
     LastLogTerm args = lastTerm rf \<and> LastLogIndex args = slen (log rf) - 1"

lemma electionBegin_candidate:
  assumes "log rf \<noteq> []" and "electionBegin rf = (rf', args)"
  shows "candidate (me rf) args rf'" and "currentTerm rf' = currentTerm rf + 1"
    and "log rf' = log rf" and "peers rf' = peers rf" and "killed rf' = killed rf"
  using assms
  by (auto simp: electionBegin_def candidate_def resetElectionTimer_def updateLastLogInfo_lastTerm Let_def
      lastTerm_def killed_def)

lemma candidacy_once:
  assumes "i < nservers s" and "\<not> killed (nodes s i)" and "role (nodes s i) \<noteq> Leader"
    and "log (nodes s i) \<noteq> []" and "me (nodes s i) = i"
  shows "\<exists>t args. run_actions sysStep [ElectionTick i, Run (length (routines s))] s = Some t \<and>
    nservers t = nservers s \<and> (\<forall>j. j \<noteq> i \<longrightarrow> nodes t j = nodes s j) \<and> candidate i args (nodes t i) \<and>
    currentTerm (nodes t i) = currentTerm (nodes s i) + 1 \<and> log (nodes t i) = log (nodes s i) \<and>
    peers (nodes t i) = peers (nodes s i) \<and> \<not> killed (nodes t i) \<and>
    routines t = routines s @ [Polling i args 0 1 1]"
proof -
  let ?rf = "resetElectionTimer (nodes s i)"
  obtain rf args where e: "electionBegin ?rf = (rf, args)" by fastforce
  have r: "log ?rf = log (nodes s i)" "me ?rf = i" "currentTerm ?rf = currentTerm (nodes s i)"
    "peers ?rf = peers (nodes s i)" "killed ?rf = killed (nodes s i)"
    using assms(5) by (simp_all add: resetElectionTimer_def killed_def)
  with electionBegin_candidate [OF _ e] assms have "candidate i args rf"
    "currentTerm rf = currentTerm (nodes s i) + 1" "log rf = log (nodes s i)"
    "peers rf = peers (nodes s i)" "\<not> killed rf" by simp_all
  with e assms(1-3) show ?thesis
    by (simp add: shouldStartElection_def sys_update_defs)
qed

text \<open>A peer that times out again and again gets to any term.\<close>

lemma candidacy:
  assumes "i < nservers s" and "\<not> killed (nodes s i)" and "role (nodes s i) \<noteq> Leader"
    and "log (nodes s i) \<noteq> []" and "me (nodes s i) = i"
  shows "\<exists>acts t g args. run_actions sysStep acts s = Some t \<and> (\<forall>p. Deliver p \<notin> set acts) \<and>
    nservers t = nservers s \<and> (\<forall>j. j \<noteq> i \<longrightarrow> nodes t j = nodes s j) \<and> candidate i args (nodes t i) \<and>
    currentTerm (nodes t i) = currentTerm (nodes s i) + 1 + int k \<and> log (nodes t i) = log (nodes s i) \<and>
    peers (nodes t i) = peers (nodes s i) \<and> \<not> killed (nodes t i) \<and>
    g < length (routines t) \<and> routines t ! g = Polling i args 0 1 1"
proof (induction k)
  case 0
  from candidacy_once [OF assms] obtain t args where
    t: "run_actions sysStep [ElectionTick i, Run (length (routines s))] s = Some t"
      "nservers t = nservers s" "\<forall>j. j \<noteq> i \<longrightarrow> nodes t j = nodes s j" "candidate i args (nodes t i)"
      "currentTerm (nodes t i) = currentTerm (nodes s i) + 1" "log (nodes t i) = log (nodes s i)"
      "peers (nodes t i) = peers (nodes s i)" "\<not> killed (nodes t i)"
      "routines t = routines s @ [Polling i args 0 1 1]" by blast
  have "\<forall>p. Deliver p \<notin> set [ElectionTick i, Run (length (routines s))]" by simp
  with t show ?case
    by (intro exI [of _ "[ElectionTick i, Run (length (routines s))]"] exI [of _ t]
        exI [of _ "length (routines s)"] exI [of _ args]) (simp del: run_actions.simps)
next
  case (Suc k)
  then obtain acts t g args where t: "run_actions sysStep acts s = Some t" "\<forall>p. Deliver p \<notin> set acts"
    "nservers t = nservers s" "\<forall>j. j \<noteq> i \<longrightarrow> nodes t j = nodes s j" "candidate i args (nodes t i)"
    "currentTerm (nodes t i) = currentTerm (nodes s i) + 1 + int k" "log (nodes t i) = log (nodes s i)"
    "peers (nodes t i) = peers (nodes s i)" "\<not> killed (nodes t i)" by blast
  with assms have "i < nservers t" "role (nodes t i) \<noteq> Leader" "log (nodes t i) \<noteq> []" "me (nodes t i) = i"
    by (simp_all add: candidate_def)
  from candidacy_once [OF this(1) t(9) this(2-4)] obtain u args' where
    u: "run_actions sysStep [ElectionTick i, Run (length (routines t))] t = Some u"
      "nservers u = nservers t" "\<forall>j. j \<noteq> i \<longrightarrow> nodes u j = nodes t j" "candidate i args' (nodes u i)"
      "currentTerm (nodes u i) = currentTerm (nodes t i) + 1" "log (nodes u i) = log (nodes t i)"
      "peers (nodes u i) = peers (nodes t i)" "\<not> killed (nodes u i)"
      "routines u = routines t @ [Polling i args' 0 1 1]" by blast
  let ?more = "[ElectionTick i, Run (length (routines t))]"
  have "run_actions sysStep (acts @ ?more) s = Some u" using run_append [OF t(1)] u(1) by simp
  moreover have "\<forall>p. Deliver p \<notin> set (acts @ ?more)" using t(2) by simp
  ultimately show ?case
    using t u by (intro exI [of _ "acts @ ?more"] exI [of _ u] exI [of _ "length (routines t)"] exI [of _ args'])
      (simp del: run_actions.simps)
qed


section \<open>The poll\<close>

lemma RequestVote_grants:
  assumes "candidate i args c" and "currentTerm rf < rvTerm args" and "log rf \<noteq> []" and "behind rf c"
    and "RequestVote rf args = (rf', reply)"
  shows "VoteGranted reply \<and> rvrTerm reply < rvTerm args"
  using assms
  by (auto simp: RequestVote_def candidate_def behind_def updateLastLogInfo_lastTerm Let_def lastTerm_def
      split: if_splits)

text \<open>The election goroutine \<open>g\<close> polls peer \<open>p\<close>, which answers with its vote, or not at all.\<close>

definition nextPeer :: "nat \<Rightarrow> nat \<Rightarrow> int \<Rightarrow> int \<Rightarrow> nat" where
  "nextPeer n p vc vg = (if vg > int (n div 2) \<or> vc - vg > int (n div 2) then n else Suc p)"

lemma poll_yes:
  assumes g: "g < length (routines s)" "routines s ! g = Polling i args p vc vg"
    and p: "p < nservers s" "p \<noteq> i"
    and vote: "RequestVote (nodes s p) args = (rf, reply)" "VoteGranted reply" "rvrTerm reply < rvTerm args"
  shows "\<exists>acts t. run_actions sysStep acts s = Some t \<and> set acts \<subseteq> {Run g, Deliver (VoteReq (calls s) p args),
      Return g (VoteRep (calls s) p args reply)} \<and>
    nservers t = nservers s \<and> nodes t = (nodes s)(p := rf) \<and> length (routines t) = length (routines s) \<and>
    routines t ! g = Polling i args (nextPeer (nservers s) p (vc + 1) (vg + 1)) (vc + 1) (vg + 1)"
proof -
  let ?req = "VoteReq (calls s) p args" and ?rep = "VoteRep (calls s) p args reply"
  let ?s1 = "sendCall ?req (setRoutine g (AwaitVote i args p vc vg (calls s)) s)"
  let ?s2 = "answer ?req ?rep (setNode p rf ?s1)"
  let ?s3 = "voteReturns g i args p vc vg reply (takePacket ?rep ?s2)"
  have "sysStep (Run g) s = Some ?s1" using g p by simp
  moreover have "sysStep (Deliver ?req) ?s1 = Some ?s2"
    using vote(1) by (simp add: sys_update_defs)
  moreover have "sysStep (Return g ?rep) ?s2 = Some ?s3"
    using g by (simp add: sys_update_defs)
  ultimately have "run_actions sysStep [Run g, Deliver ?req, Return g ?rep] s = Some ?s3"
    by (simp del: sysStep.simps)
  moreover have "nservers ?s3 = nservers s" "nodes ?s3 = (nodes s)(p := rf)"
    "length (routines ?s3) = length (routines s)"
    "routines ?s3 ! g = Polling i args (nextPeer (nservers s) p (vc + 1) (vg + 1)) (vc + 1) (vg + 1)"
    using g p vote(2,3)
    by (auto simp: voteReturns_def electionStepDown_def electionTally_def nextPeer_def sys_update_defs Let_def)
  ultimately show ?thesis by (intro exI [of _ "[Run g, Deliver ?req, Return g ?rep]"] exI [of _ ?s3]) simp
qed

lemma poll_none:
  assumes g: "g < length (routines s)" "routines s ! g = Polling i args p vc vg"
    and p: "p < nservers s" "p \<noteq> i" and "0 \<le> rvTerm args"
  shows "\<exists>acts t. run_actions sysStep acts s = Some t \<and> set acts \<subseteq> {Run g, CallFails g} \<and>
    nservers t = nservers s \<and> nodes t = nodes s \<and> length (routines t) = length (routines s) \<and>
    routines t ! g = Polling i args (nextPeer (nservers s) p (vc + 1) vg) (vc + 1) vg"
proof -
  let ?s1 = "sendCall (VoteReq (calls s) p args) (setRoutine g (AwaitVote i args p vc vg (calls s)) s)"
  let ?s2 = "voteReturns g i args p vc vg zeroVoteReply ?s1"
  have "sysStep (Run g) s = Some ?s1" using g p by simp
  moreover have "sysStep (CallFails g) ?s1 = Some ?s2" using g by (simp add: sys_update_defs)
  ultimately have "run_actions sysStep [Run g, CallFails g] s = Some ?s2" by (simp del: sysStep.simps)
  moreover have "nservers ?s2 = nservers s" "nodes ?s2 = nodes s"
    "length (routines ?s2) = length (routines s)"
    "routines ?s2 ! g = Polling i args (nextPeer (nservers s) p (vc + 1) vg) (vc + 1) vg"
    using g p assms(5)
    by (auto simp: voteReturns_def electionStepDown_def electionTally_def nextPeer_def sys_update_defs
        zeroVoteReply_def Let_def)
  ultimately show ?thesis by (intro exI [of _ "[Run g, CallFails g]"] exI [of _ ?s2]) simp
qed

lemma poll_self:
  assumes "g < length (routines s)" "routines s ! g = Polling i args i vc vg" and "i < nservers s"
  shows "\<exists>acts t. run_actions sysStep acts s = Some t \<and> set acts \<subseteq> {Run g} \<and>
    nservers t = nservers s \<and> nodes t = nodes s \<and> length (routines t) = length (routines s) \<and>
    routines t ! g = Polling i args (Suc i) vc vg"
proof -
  let ?s1 = "setRoutine g (Polling i args (Suc i) vc vg) s"
  have "run_actions sysStep [Run g] s = Some ?s1" using assms by simp
  with assms show ?thesis by (intro exI [of _ "[Run g]"] exI [of _ ?s1]) (simp add: setRoutine_def)
qed


section \<open>A majority is enough\<close>

fun server :: "'c packet \<Rightarrow> nat" where
  "server (VoteReq c d args) = d"
| "server (VoteRep c d args reply) = d"
| "server (AppReq c d args) = d"
| "server (AppRep c d args reply) = d"

text \<open>A schedule in which only peers of \<open>A\<close> get requests.\<close>

definition asksOnly :: "nat set \<Rightarrow> 'c action list \<Rightarrow> bool" where
  "asksOnly A acts \<longleftrightarrow> (\<forall>p. Deliver p \<in> set acts \<longrightarrow> server p \<in> A)"

lemma asksOnly_append [simp]: "asksOnly A (as @ bs) \<longleftrightarrow> asksOnly A as \<and> asksOnly A bs"
  by (auto simp: asksOnly_def)

definition polled :: "nat set \<Rightarrow> nat \<Rightarrow> nat \<Rightarrow> int \<Rightarrow> int \<Rightarrow> bool" where
  "polled A i p vc vg \<longleftrightarrow>
     vg = 1 + int (card (A \<inter> {..<p} - {i})) \<and> vc - vg = int (card ({..<p} - A))"

lemma polled_Suc:
  assumes "polled A i p vc vg" and "finite A"
  shows "p = i \<Longrightarrow> i \<in> A \<Longrightarrow> polled A i (Suc p) vc vg"
    and "p \<noteq> i \<Longrightarrow> p \<in> A \<Longrightarrow> polled A i (Suc p) (vc + 1) (vg + 1)"
    and "p \<notin> A \<Longrightarrow> polled A i (Suc p) (vc + 1) vg"
  using assms by (auto simp: polled_def lessThan_Suc Int_insert_right insert_Diff_if)

lemma few_refuse:
  assumes "polled A i p vc vg" and "p \<le> n" and "A \<subseteq> {..<n}" and "n div 2 < card A"
  shows "\<not> vc - vg > int (n div 2)"
proof -
  have "card ({..<p} - A) \<le> card ({..<n} - A)" using assms(2) by (intro card_mono) auto
  also have "\<dots> = n - card A" using assms(3) by (simp add: card_Diff_subset finite_subset)
  also have "\<dots> \<le> n div 2" using assms(4) by linarith
  finally have "card ({..<p} - A) \<le> n div 2" .
  moreover have "vc - vg = int (card ({..<p} - A))" using assms(1) by (simp add: polled_def)
  ultimately show ?thesis by linarith
qed

lemma poll_upto:
  assumes start: "g < length (routines s)" "routines s ! g = Polling i args 0 1 1" "0 \<le> rvTerm args"
    and A: "A \<subseteq> {..<nservers s}" "nservers s div 2 < card A" "i \<in> A"
    and cand: "candidate i args (nodes s i)"
    and voters: "\<forall>j \<in> A - {i}. currentTerm (nodes s j) < rvTerm args \<and> log (nodes s j) \<noteq> [] \<and>
      behind (nodes s j) (nodes s i)"
  shows "p \<le> nservers s \<Longrightarrow>
    \<exists>acts t q vc vg. run_actions sysStep acts s = Some t \<and> asksOnly A acts \<and> nservers t = nservers s \<and>
      nodes t i = nodes s i \<and> g < length (routines t) \<and> routines t ! g = Polling i args q vc vg \<and>
      (q = nservers s \<and> int (nservers s div 2) < vg \<or>
       q = p \<and> (\<forall>j \<ge> p. nodes t j = nodes s j) \<and> polled A i p vc vg)"
proof (induction p)
  case 0
  have "polled A i 0 1 1" by (simp add: polled_def)
  with start show ?case by (intro exI [of _ "[]"] exI [of _ s]) (simp add: asksOnly_def)
next
  case (Suc p)
  let ?n = "nservers s"
  have fin: "finite A" using A(1) finite_subset by blast
  from Suc obtain acts t q vc vg where t: "run_actions sysStep acts s = Some t" "asksOnly A acts"
    "nservers t = ?n" "nodes t i = nodes s i" "g < length (routines t)"
    "routines t ! g = Polling i args q vc vg"
    and q: "q = ?n \<and> int (?n div 2) < vg \<or> q = p \<and> (\<forall>j \<ge> p. nodes t j = nodes s j) \<and> polled A i p vc vg"
    by auto
  show ?case
  proof (cases "q = ?n \<and> int (?n div 2) < vg")
    case True
    with t show ?thesis by blast
  next
    case False
    with q have p: "q = p" "\<forall>j \<ge> p. nodes t j = nodes s j" "polled A i p vc vg" by blast+
    from Suc.prems have lt: "p < nservers t" using t(3) by simp
    have continue: ?thesis
      if u: "run_actions sysStep more t = Some u" "asksOnly A more" "nservers u = nservers t"
        "\<forall>j \<noteq> p. nodes u j = nodes t j" "p = i \<Longrightarrow> nodes u = nodes t" "length (routines u) = length (routines t)"
        "routines u ! g = Polling i args q' vc' vg'"
        and d: "q' = ?n \<and> int (?n div 2) < vg' \<or> q' = Suc p \<and> polled A i (Suc p) vc' vg'"
      for more u q' vc' vg'
    proof -
      have "run_actions sysStep (acts @ more) s = Some u" using run_append [OF t(1)] u(1) by simp
      moreover have "nodes u i = nodes s i" using u(4,5) t(4) by metis
      moreover have "\<forall>j \<ge> Suc p. nodes u j = nodes s j" using u(4) p(2) by simp
      ultimately show ?thesis using t u d
        by (intro exI [of _ "acts @ more"] exI [of _ u] exI [of _ q'] exI [of _ vc'] exI [of _ vg']) simp
    qed
    have next_p: "nextPeer ?n p vc' vg' = ?n \<and> int (?n div 2) < vg' \<or> nextPeer ?n p vc' vg' = Suc p \<and> polled A i (Suc p) vc' vg'"
      if "polled A i (Suc p) vc' vg'" for vc' vg'
      using few_refuse [OF that Suc.prems A(1,2)] that by (auto simp: nextPeer_def)
    consider "p = i" | "p \<noteq> i" "p \<in> A" | "p \<noteq> i" "p \<notin> A" by blast
    then show ?thesis
    proof cases
      case 1
      from poll_self [of g t i args vc vg] t(5,6) p(1) lt 1 obtain more u where
        u: "run_actions sysStep more t = Some u" "set more \<subseteq> {Run g}" "nservers u = nservers t"
          "nodes u = nodes t" "length (routines u) = length (routines t)"
          "routines u ! g = Polling i args (Suc i) vc vg" by auto
      have "asksOnly A more" using u(2) by (auto simp: asksOnly_def)
      with continue [OF u(1) _ u(3) _ _ u(5,6)] polled_Suc(1) [OF p(3) fin 1 A(3)] 1 u(4)
      show ?thesis by simp
    next
      case 2
      obtain rf reply where r: "RequestVote (nodes t p) args = (rf, reply)" by fastforce
      from RequestVote_grants [OF cand _ _ _ r] voters 2 p(2) have
        v: "VoteGranted reply" "rvrTerm reply < rvTerm args" by auto
      from poll_yes [OF t(5) t(6) [unfolded p(1)] lt 2(1) r v] obtain more u where
        u: "run_actions sysStep more t = Some u"
          "set more \<subseteq> {Run g, Deliver (VoteReq (calls t) p args), Return g (VoteRep (calls t) p args reply)}"
          "nservers u = nservers t" "nodes u = (nodes t)(p := rf)" "length (routines u) = length (routines t)"
          "routines u ! g = Polling i args (nextPeer (nservers t) p (vc + 1) (vg + 1)) (vc + 1) (vg + 1)"
        by blast
      have "asksOnly A more" using u(2) 2(2) by (fastforce simp: asksOnly_def)
      with continue [OF u(1) _ u(3) _ _ u(5,6)] next_p [OF polled_Suc(2) [OF p(3) fin 2]] 2(1) u(4) t(3)
      show ?thesis by simp
    next
      case 3
      from poll_none [OF t(5) t(6) [unfolded p(1)] lt 3(1) start(3)] obtain more u where
        u: "run_actions sysStep more t = Some u" "set more \<subseteq> {Run g, CallFails g}"
          "nservers u = nservers t" "nodes u = nodes t" "length (routines u) = length (routines t)"
          "routines u ! g = Polling i args (nextPeer (nservers t) p (vc + 1) vg) (vc + 1) vg"
        by blast
      have "asksOnly A more" using u(2) by (auto simp: asksOnly_def)
      with continue [OF u(1) _ u(3) _ _ u(5,6)] next_p [OF polled_Suc(3) [OF p(3) fin 3(2)]] u(4) t(3)
      show ?thesis by simp
    qed
  qed
qed


lemma takes_office:
  assumes g: "g < length (routines s)" "routines s ! g = Polling i args (nservers s) vc vg"
    and "candidate i args (nodes s i)" and "peers (nodes s i) = nservers s" and "i < nservers s"
    and "int (nservers s div 2) < vg" and "log (nodes s i) \<noteq> []"
  shows "\<exists>t. run_actions sysStep [Run g] s = Some t \<and> role (nodes t i) = Leader \<and>
    currentTerm (nodes t i) = rvTerm args \<and> log (nodes t i) = log (nodes s i) \<and>
    (\<forall>j. j \<noteq> i \<longrightarrow> nodes t j = nodes s j)"
proof -
  from assms(3-7) obtain rf where rf: "electionEnd (nodes s i) args vg = Inr rf" "role rf = Leader"
    "currentTerm rf = rvTerm args" "log rf = log (nodes s i)"
    by (auto simp: electionEnd_def candidate_def updateLastLogInfo_lastTerm Let_def go_update_def slen_def)
  have "run_actions sysStep [Run g] s = Some (setRoutine g Ended (setNode i rf s))"
    using g rf(1) by simp
  with rf show ?thesis by (simp add: sys_update_defs)
qed

lemma poll_wins:
  assumes start: "g < length (routines s)" "routines s ! g = Polling i args 0 1 1" "0 \<le> rvTerm args"
    and A: "A \<subseteq> {..<nservers s}" "nservers s div 2 < card A" "i \<in> A"
    and cand: "candidate i args (nodes s i)" "peers (nodes s i) = nservers s" "log (nodes s i) \<noteq> []"
    and voters: "\<forall>j \<in> A - {i}. currentTerm (nodes s j) < rvTerm args \<and> log (nodes s j) \<noteq> [] \<and>
      behind (nodes s j) (nodes s i)"
  shows "\<exists>acts t. run_actions sysStep acts s = Some t \<and> asksOnly A acts \<and> role (nodes t i) = Leader \<and>
    currentTerm (nodes t i) = rvTerm args \<and> log (nodes t i) = log (nodes s i)"
proof -
  from poll_upto [OF start A cand(1) voters, of "nservers s"] obtain acts t vc vg where
    t: "run_actions sysStep acts s = Some t" "asksOnly A acts" "nservers t = nservers s"
      "nodes t i = nodes s i" "g < length (routines t)" "routines t ! g = Polling i args (nservers t) vc vg"
      "int (nservers s div 2) < vg \<or> polled A i (nservers s) vc vg" by fastforce
  have "A \<inter> {..<nservers s} - {i} = A - {i}" "finite A" using A(1) finite_subset by blast+
  with card.remove [OF this(2) A(3)] have c: "card (A \<inter> {..<nservers s} - {i}) + 1 = card A"
    by (simp only: Suc_eq_plus1)
  from t(7) have "int (nservers s div 2) < vg"
  proof
    assume "polled A i (nservers s) vc vg"
    then have "vg = int (card (A \<inter> {..<nservers s} - {i}) + 1)" by (simp add: polled_def)
    with A(2) show ?thesis unfolding c by simp
  qed
  with takes_office [OF t(5,6)] t(3,4) cand A(1,3) obtain u where
    "run_actions sysStep [Run g] t = Some u" "role (nodes u i) = Leader"
    "currentTerm (nodes u i) = rvTerm args" "log (nodes u i) = log (nodes s i)" by auto
  with run_append [OF t(1), of "[Run g]"] t(2) show ?thesis
    by (intro exI [of _ "acts @ [Run g]"] exI [of _ u]) (simp add: asksOnly_def)
qed

text \<open>C9. A majority can always elect a leader. Whatever crashes, losses, delays and old goroutines
  a cluster has been through: when a majority \<open>A\<close> of its peers runs and none of them leads, some
  schedule makes one of them a leader, in a term above all their terms, although nobody outside
  of \<open>A\<close> answers; and its log is at least as up to date as the logs of \<open>A\<close>.\<close>

theorem leader_can_be_elected:
  assumes "reachable raftInit sysStep s" and "A \<subseteq> {..<nservers s}" and "nservers s div 2 < card A"
    and "\<forall>i \<in> A. \<not> killed (nodes s i) \<and> role (nodes s i) \<noteq> Leader"
  shows "\<exists>acts t i. run_actions sysStep acts s = Some t \<and> asksOnly A acts \<and> i \<in> A \<and>
    role (nodes t i) = Leader \<and> (\<forall>j \<in> A. currentTerm (nodes s j) < currentTerm (nodes t i)) \<and>
    (\<forall>j \<in> A. behind (nodes s j) (nodes t i))"
proof -
  have fin: "finite A" and ne: "A \<noteq> {}" using assms(2,3) finite_subset by auto
  from most_up_to_date [OF fin ne] obtain i where i: "i \<in> A" "\<forall>j \<in> A. behind (nodes s j) (nodes s i)"
    by blast
  define T where "T = Max ((\<lambda>j. currentTerm (nodes s j)) ` A)"
  have T: "currentTerm (nodes s j) \<le> T" if "j \<in> A" for j
    using that fin by (simp add: T_def)
  let ?k = "nat (max 0 T - currentTerm (nodes s i))"
  have peer: "peer_inv (nservers s) j (nodes s j)" if "j \<in> A" for j
    using reachable_peer [OF assms(1)] assms(2) that by auto
  have start: "i < nservers s" "\<not> killed (nodes s i)" "role (nodes s i) \<noteq> Leader" "log (nodes s i) \<noteq> []"
    "me (nodes s i) = i" "peers (nodes s i) = nservers s"
    using i(1) assms(2,4) peer [OF i(1)] by (auto simp: peer_inv_def)
  from candidacy [OF start(1-5), of ?k] obtain acts t g args where
    t: "run_actions sysStep acts s = Some t" "\<forall>p. Deliver p \<notin> set acts" "nservers t = nservers s"
      "\<forall>j. j \<noteq> i \<longrightarrow> nodes t j = nodes s j" "candidate i args (nodes t i)"
      "currentTerm (nodes t i) = currentTerm (nodes s i) + 1 + int ?k" "log (nodes t i) = log (nodes s i)"
      "peers (nodes t i) = peers (nodes s i)" "g < length (routines t)" "routines t ! g = Polling i args 0 1 1"
    by blast
  from t(5) have args: "currentTerm (nodes t i) = rvTerm args" by (simp add: candidate_def)
  with t(6) have above: "0 \<le> rvTerm args" "T < rvTerm args" by linarith+
  have behind: "behind rf (nodes t i) = behind rf (nodes s i)" for rf
    using t(7) by (simp add: behind_def lastTerm_def)
  have "\<forall>j \<in> A - {i}. currentTerm (nodes t j) < rvTerm args \<and> log (nodes t j) \<noteq> [] \<and>
      behind (nodes t j) (nodes t i)"
    using t(4) i(2) T above(2) peer by (fastforce simp: behind peer_inv_def)
  with poll_wins [OF t(9,10) above(1) _ _ i(1) t(5)] assms(2,3) t(3,7,8) start(4,6) obtain more v where
    v: "run_actions sysStep more t = Some v" "asksOnly A more" "role (nodes v i) = Leader"
      "currentTerm (nodes v i) = rvTerm args" "log (nodes v i) = log (nodes s i)" by auto
  have "run_actions sysStep (acts @ more) s = Some v"
    using run_append [OF t(1)] v(1) by simp
  moreover have "asksOnly A (acts @ more)" using t(2) v(2) by (simp add: asksOnly_def)
  moreover have "behind (nodes s j) (nodes v i)" if "j \<in> A" for j
    using i(2) that v(5) by (simp add: behind_def lastTerm_def)
  moreover have "currentTerm (nodes s j) < currentTerm (nodes v i)" if "j \<in> A" for j
    using T [OF that] above(2) v(4) by simp
  ultimately show ?thesis using v(3) i(1) by blast
qed


text \<open>Peers 1 and 2 of three, after peer 0 has led, replicated to peer 1 only, and crashed.\<close>

lemma demoCrash_run:
  "case run_actions sysStep (demoReplication @ [KillPeer 0]) (startSystem 3) of
     None \<Rightarrow> False
   | Some s \<Rightarrow> nservers s = 3 \<and> killed (nodes s 0) \<and>
       (\<forall>i \<in> {1, 2}. \<not> killed (nodes s i) \<and> role (nodes s i) \<noteq> Leader) \<and>
       lastTerm (nodes s 1) = 1 \<and> currentTerm (nodes s 1) = 1"
  by code_simp

theorem leader_can_be_elected_witness:
  "\<exists>s acts t i. run_actions sysStep (demoReplication @ [KillPeer 0]) (startSystem 3) = Some s \<and>
     run_actions sysStep acts s = Some t \<and> asksOnly {1, 2} acts \<and> i \<in> {1, 2} \<and>
     role (nodes t i) = Leader \<and> 1 < currentTerm (nodes t i) \<and> behind (nodes s 1) (nodes t i)"
proof -
  from demoCrash_run obtain s where
    s: "run_actions sysStep (demoReplication @ [KillPeer 0]) (startSystem 3) = Some s" "nservers s = 3"
      "\<forall>i \<in> {1, 2}. \<not> killed (nodes s i) \<and> role (nodes s i) \<noteq> Leader" "currentTerm (nodes s 1) = 1"
    by (auto simp del: run_actions.simps split: option.splits)
  have "{1, 2} \<subseteq> {..<nservers s}" "nservers s div 2 < card {1 :: nat, 2}" using s(2) by auto
  from leader_can_be_elected [OF reachable_run [OF startSystem_reachable_sys s(1)] this s(3)]
  obtain acts t i where t: "run_actions sysStep acts s = Some t" "asksOnly {1, 2} acts" "i \<in> {1, 2}"
    "role (nodes t i) = Leader" "\<forall>j \<in> {1, 2}. currentTerm (nodes s j) < currentTerm (nodes t i)"
    "\<forall>j \<in> {1, 2}. behind (nodes s j) (nodes t i)" by blast
  have "(1 :: nat) \<in> {1, 2}" by simp
  with t(5,6) s(4) have "1 < currentTerm (nodes t i)" "behind (nodes s 1) (nodes t i)" by metis+
  with s(1) t(1-4) show ?thesis by blast
qed

end
