(* ===== verification/Bank.thy ===== *)
theory Bank
  imports Prelude "HOL-Library.Word"
begin

text \<open>
  bank/bank.go: a bank shared by concurrent goroutines. Each method is a program of atomic
  instructions over the shared state, in the order of the code: mutex operations, look-ups
  in and insertions into the account map, and loads and stores of a balance. A balance is
  a Go \<open>int\<close>, a 64-bit word whose addition wraps and whose comparisons are signed. An
  account and its mutex are named by the account's id: the map never loses or replaces an
  account, so the pointer a method has looked up stays the one of that id, and the branches
  in which the looked-up pointer is nil dereference it where the code does. The log and
  mail calls have no effect.
\<close>

type_synonym Bank = "int \<Rightarrow> 64 word option"

datatype mutex = BankLock | AccountLock int

datatype result = RUnit | RBool bool | RInt "64 word"

datatype prog =
    Lock mutex prog
  | Unlock mutex prog
  | Lookup int "bool \<Rightarrow> prog"
  | Insert int prog
  | Load int "64 word \<Rightarrow> prog"
  | Store int "64 word" prog
  | Ret result
  | Panic fault

section \<open>The methods\<close>

definition BankInit :: Bank where
  "BankInit = (\<lambda>accountID. None)"

definition sendEmailTo :: "int \<Rightarrow> prog \<Rightarrow> prog" where
  "sendEmailTo accountID p = p"

definition notifyAccountHolder :: "int \<Rightarrow> prog \<Rightarrow> prog" where
  "notifyAccountHolder accountID p = sendEmailTo accountID p"

definition notifySupportTeam :: "int \<Rightarrow> prog \<Rightarrow> prog" where
  "notifySupportTeam accountID p = sendEmailTo accountID p"

definition logInsufficientBalanceEvent :: "int \<Rightarrow> prog \<Rightarrow> prog" where
  "logInsufficientBalanceEvent accountID p = p"

definition CreateAccount :: "int \<Rightarrow> prog" where
  "CreateAccount accountID =
     Lock BankLock (Lookup accountID (\<lambda>exists.
       if \<not> exists then Insert accountID (Unlock BankLock (Ret RUnit))
       else Unlock BankLock (Panic (ExplicitPanic ''Account already exists''))))"

definition Deposit :: "int \<Rightarrow> 64 word \<Rightarrow> prog" where
  "Deposit accountID amount =
     Lock BankLock (Lookup accountID (\<lambda>exists.
       if exists then
         Unlock BankLock (Lock (AccountLock accountID) (Load accountID (\<lambda>balance.
           Store accountID (balance + amount) (Unlock (AccountLock accountID) (Ret RUnit)))))
       else Unlock BankLock (Ret RUnit)))"

definition Withdraw :: "int \<Rightarrow> 64 word \<Rightarrow> prog" where
  "Withdraw accountID amount =
     Lock BankLock (Lookup accountID (\<lambda>exists.
       if exists then
         Unlock BankLock (Lock (AccountLock accountID) (Load accountID (\<lambda>balance.
           if sint balance \<ge> sint amount then
             Load accountID (\<lambda>balance1. Load accountID (\<lambda>balance2.
               if sint balance2 < 0 then Ret (RBool False)
               else Store accountID (balance1 - amount)
                      (Unlock (AccountLock accountID) (Ret (RBool True)))))
           else
             notifyAccountHolder accountID (notifySupportTeam accountID
               (Unlock (AccountLock accountID)
                 (logInsufficientBalanceEvent accountID (Ret (RBool False))))))))
       else Unlock BankLock (Panic NilDereference)))"

definition Transfer :: "int \<Rightarrow> int \<Rightarrow> 64 word \<Rightarrow> bool \<Rightarrow> prog" where
  "Transfer sender receiver amount allowOverdraw =
     (if sender \<noteq> receiver then
        Lock BankLock (Lookup sender (\<lambda>exists. Lookup receiver (\<lambda>exists2.
          if exists \<and> exists2 then
            Unlock BankLock
              (let first = (if sender < receiver then sender else receiver);
                   second = (if sender < receiver then receiver else sender);
                   finish = (\<lambda>success. Unlock (AccountLock second)
                     (Unlock (AccountLock first) (Ret (RBool success))))
               in Lock (AccountLock first) (Lock (AccountLock second)
                 (Load sender (\<lambda>balance.
                   if sint balance \<ge> sint amount \<or> allowOverdraw then
                     Load sender (\<lambda>b. Store sender (b - amount)
                       (Load receiver (\<lambda>c. Store receiver (c + amount) (finish True))))
                   else finish False))))
          else Unlock BankLock (Ret (RBool False)))))
      else Ret (RBool False))"

definition DepositAndCompare :: "int \<Rightarrow> 64 word \<Rightarrow> 64 word \<Rightarrow> prog" where
  "DepositAndCompare accountID amount compareThreshold =
     Lock BankLock (Lookup accountID (\<lambda>exists. Unlock BankLock
       (if exists \<and> sint amount > 0 then
          Lock (AccountLock accountID) (Load accountID (\<lambda>balance.
            Store accountID (balance + amount) (Load accountID (\<lambda>balance1.
              Unlock (AccountLock accountID)
                (Ret (RBool (sint balance1 \<ge> sint compareThreshold)))))))
        else Ret (RBool False))))"

definition GetBalance :: "int \<Rightarrow> prog" where
  "GetBalance accountID =
     Lock BankLock (Lookup accountID (\<lambda>exists. Unlock BankLock
       (if exists then
          Lock (AccountLock accountID) (Load accountID (\<lambda>balance.
            Unlock (AccountLock accountID) (Ret (RInt balance))))
        else Panic (ExplicitPanic ''account does not exist''))))"

datatype bankMethod =
    CreateAccountCall int
  | DepositCall int "64 word"
  | WithdrawCall int "64 word"
  | TransferCall int int "64 word" bool
  | DepositAndCompareCall int "64 word" "64 word"
  | GetBalanceCall int

fun body :: "bankMethod \<Rightarrow> prog" where
  "body (CreateAccountCall a) = CreateAccount a"
| "body (DepositCall a x) = Deposit a x"
| "body (WithdrawCall a x) = Withdraw a x"
| "body (TransferCall a b x ov) = Transfer a b x ov"
| "body (DepositAndCompareCall a x y) = DepositAndCompare a x y"
| "body (GetBalanceCall a) = GetBalance a"

lemmas bank_method_defs =
  CreateAccount_def Deposit_def Withdraw_def Transfer_def DepositAndCompare_def GetBalance_def
  sendEmailTo_def notifyAccountHolder_def notifySupportTeam_def logInsufficientBalanceEvent_def
  Let_def

section \<open>What the methods promise\<close>

text \<open>The effect of a method on the account map, in one step.\<close>

fun specOp :: "bankMethod \<Rightarrow> Bank \<Rightarrow> result go \<times> Bank" where
  "specOp (CreateAccountCall a) m =
     (case m a of None \<Rightarrow> (Inr RUnit, m(a \<mapsto> 0))
      | Some _ \<Rightarrow> (Inl (ExplicitPanic ''Account already exists''), m))"
| "specOp (DepositCall a x) m =
     (case m a of None \<Rightarrow> (Inr RUnit, m) | Some b \<Rightarrow> (Inr RUnit, m(a \<mapsto> b + x)))"
| "specOp (WithdrawCall a x) m =
     (case m a of None \<Rightarrow> (Inl NilDereference, m)
      | Some b \<Rightarrow> if sint x \<le> sint b then (Inr (RBool True), m(a \<mapsto> b - x))
                  else (Inr (RBool False), m))"
| "specOp (TransferCall a c x allow) m =
     (case (m a, m c) of
        (Some s, Some r) \<Rightarrow>
          if a \<noteq> c \<and> (sint x \<le> sint s \<or> allow)
          then (Inr (RBool True), m(a \<mapsto> s - x, c \<mapsto> r + x)) else (Inr (RBool False), m)
      | _ \<Rightarrow> (Inr (RBool False), m))"
| "specOp (DepositAndCompareCall a x y) m =
     (case m a of None \<Rightarrow> (Inr (RBool False), m)
      | Some b \<Rightarrow> if 0 < sint x then (Inr (RBool (sint y \<le> sint (b + x))), m(a \<mapsto> b + x))
                  else (Inr (RBool False), m))"
| "specOp (GetBalanceCall a) m =
     (case m a of None \<Rightarrow> (Inl (ExplicitPanic ''account does not exist''), m)
      | Some b \<Rightarrow> (Inr (RInt b), m))"

section \<open>The order of the mutexes\<close>

text \<open>The bank's mutex comes first, then the accounts' by id.\<close>

instantiation mutex :: linorder
begin

fun less_eq_mutex :: "mutex \<Rightarrow> mutex \<Rightarrow> bool" where
  "less_eq_mutex BankLock m = True"
| "less_eq_mutex (AccountLock a) BankLock = False"
| "less_eq_mutex (AccountLock a) (AccountLock b) = (a \<le> b)"

definition less_mutex :: "mutex \<Rightarrow> mutex \<Rightarrow> bool" where
  "less_mutex m m' \<longleftrightarrow> m \<le> m' \<and> \<not> m' \<le> m"

instance
proof
  fix x y z :: mutex
  show "x < y \<longleftrightarrow> x \<le> y \<and> \<not> y \<le> x" by (simp add: less_mutex_def)
  show "x \<le> x" by (cases x) auto
  show "x \<le> y \<Longrightarrow> y \<le> z \<Longrightarrow> x \<le> z" by (cases x; cases y; cases z) auto
  show "x \<le> y \<Longrightarrow> y \<le> x \<Longrightarrow> x = y" by (cases x; cases y) auto
  show "x \<le> y \<or> y \<le> x" by (cases x; cases y) auto
qed

end

lemma mutex_less [simp]:
  "BankLock < AccountLock a" "\<not> m < BankLock" "AccountLock a < AccountLock b \<longleftrightarrow> a < b"
  by (cases m; auto simp: less_mutex_def)+

section \<open>Lock discipline\<close>

text \<open>
  \<open>disciplined p H X W\<close>: a goroutine at \<open>p\<close> that holds the mutexes \<open>H\<close>, knows of
  accounts that they exist or not (\<open>X\<close>) and of some balances it has read (\<open>W\<close>), accesses
  only what its mutexes protect, takes mutexes in their order, and returns with none held.
\<close>

definition forget :: "mutex \<Rightarrow> (int \<Rightarrow> bool option) \<Rightarrow> int \<Rightarrow> bool option" where
  "forget m X = (if m = BankLock then (\<lambda>a. if X a = Some False then None else X a) else X)"

definition unread :: "mutex \<Rightarrow> (int \<Rightarrow> 64 word option) \<Rightarrow> int \<Rightarrow> 64 word option" where
  "unread m W = (\<lambda>a. if m = AccountLock a then None else W a)"

primrec disciplined ::
  "prog \<Rightarrow> mutex set \<Rightarrow> (int \<Rightarrow> bool option) \<Rightarrow> (int \<Rightarrow> 64 word option) \<Rightarrow> bool" where
  "disciplined (Lock m p) = (\<lambda>H X W.
     (\<forall>h \<in> H. h < m) \<and> (\<forall>a. m = AccountLock a \<longrightarrow> X a = Some True) \<and>
     disciplined p (insert m H) X W)"
| "disciplined (Unlock m p) = (\<lambda>H X W.
     m \<in> H \<and> disciplined p (H - {m}) (forget m X) (unread m W))"
| "disciplined (Lookup a k) = (\<lambda>H X W.
     BankLock \<in> H \<and>
     (case X a of
        Some b \<Rightarrow> disciplined (k b) H X W
      | None \<Rightarrow> disciplined (k True) H (X(a \<mapsto> True)) W \<and>
                disciplined (k False) H (X(a \<mapsto> False)) W))"
| "disciplined (Insert a p) = (\<lambda>H X W.
     BankLock \<in> H \<and> X a = Some False \<and> disciplined p H (X(a \<mapsto> True)) W)"
| "disciplined (Load a k) = (\<lambda>H X W.
     AccountLock a \<in> H \<and>
     (case W a of
        Some w \<Rightarrow> disciplined (k w) H X W
      | None \<Rightarrow> (\<forall>w. disciplined (k w) H X (W(a \<mapsto> w)))))"
| "disciplined (Store a w p) = (\<lambda>H X W.
     AccountLock a \<in> H \<and> disciplined p H X (W(a \<mapsto> w)))"
| "disciplined (Ret r) = (\<lambda>H X W. H = {})"
| "disciplined (Panic f) = (\<lambda>H X W. H = {})"

fun admissible :: "bankMethod \<Rightarrow> bool" where
  "admissible (WithdrawCall a x) = (0 \<le> sint x)"
| "admissible _ = True"

text \<open>Every method is disciplined, \<open>Withdraw\<close> when it takes out a non-negative amount.\<close>

lemma body_disciplined:
  "admissible c \<Longrightarrow> disciplined (body c) {} (\<lambda>a. None) (\<lambda>a. None)"
  by (cases c) (auto simp: bank_method_defs forget_def unread_def)

end
