(* ===== verification/BankSystem.thy ===== *)
theory BankSystem
  imports Bank
begin

text \<open>
  Goroutines that call the bank's methods at the same time: goroutine \<open>i\<close> is the program
  it still has to run, and one step runs one instruction of one goroutine. The lock
  discipline is kept by every step; with the order of the mutexes it excludes deadlock,
  and as no method loops, every call returns. A \<open>Withdraw\<close> of a negative amount breaks it.
\<close>

record bankSystem =
  accounts :: Bank
  owner :: "mutex \<Rightarrow> nat option"
  threads :: "nat \<Rightarrow> prog"

definition go_on :: "nat \<Rightarrow> prog \<Rightarrow> bankSystem \<Rightarrow> bankSystem" where
  "go_on i p st = st\<lparr>threads := (threads st)(i := p)\<rparr>"

fun instr :: "nat \<Rightarrow> prog \<Rightarrow> bankSystem \<Rightarrow> bankSystem option" where
  "instr i (Lock m p) st =
     (if owner st m = None then Some (go_on i p (st\<lparr>owner := (owner st)(m := Some i)\<rparr>)) else None)"
| "instr i (Unlock m p) st =
     Some (if owner st m = None
           then go_on i (Panic (ExplicitPanic ''sync: unlock of unlocked mutex'')) st
           else go_on i p (st\<lparr>owner := (owner st)(m := None)\<rparr>))"
| "instr i (Lookup a k) st = Some (go_on i (k (accounts st a \<noteq> None)) st)"
| "instr i (Insert a p) st = Some (go_on i p (st\<lparr>accounts := (accounts st)(a \<mapsto> 0)\<rparr>))"
| "instr i (Load a k) st =
     Some (case accounts st a of
             None \<Rightarrow> go_on i (Panic NilDereference) st
           | Some w \<Rightarrow> go_on i (k w) st)"
| "instr i (Store a w p) st =
     Some (case accounts st a of
             None \<Rightarrow> go_on i (Panic NilDereference) st
           | Some v \<Rightarrow> go_on i p (st\<lparr>accounts := (accounts st)(a \<mapsto> w)\<rparr>))"
| "instr i (Ret r) st = None"
| "instr i (Panic f) st = None"

definition bankStep :: "nat \<Rightarrow> nat \<Rightarrow> bankSystem \<Rightarrow> bankSystem option" where
  "bankStep n i st = (if i < n then instr i (threads st i) st else None)"

definition startBank :: "Bank \<Rightarrow> bankMethod list \<Rightarrow> bankSystem" where
  "startBank m cs =
     \<lparr>accounts = m, owner = (\<lambda>_. None),
      threads = (\<lambda>i. if i < length cs then body (cs ! i) else Ret RUnit)\<rparr>"

fun finished :: "prog \<Rightarrow> bool" where
  "finished (Ret r) = True"
| "finished (Panic f) = True"
| "finished _ = False"

section \<open>The discipline is kept\<close>

definition held :: "bankSystem \<Rightarrow> nat \<Rightarrow> mutex set" where
  "held st i = {m. owner st m = Some i}"

definition knows :: "bankSystem \<Rightarrow> nat \<Rightarrow> (int \<Rightarrow> bool option) \<Rightarrow> (int \<Rightarrow> 64 word option) \<Rightarrow> bool"
where
  "knows st i X W \<longleftrightarrow>
     (\<forall>a. X a = Some True \<longrightarrow> accounts st a \<noteq> None) \<and>
     (\<forall>a. X a = Some False \<longrightarrow> owner st BankLock = Some i \<and> accounts st a = None) \<and>
     (\<forall>a w. W a = Some w \<longrightarrow> owner st (AccountLock a) = Some i \<and> accounts st a = Some w)"

definition thread_ok :: "bankSystem \<Rightarrow> nat \<Rightarrow> bool" where
  "thread_ok st i \<longleftrightarrow> (\<exists>X W. disciplined (threads st i) (held st i) X W \<and> knows st i X W)"

definition bank_inv :: "nat \<Rightarrow> bankSystem \<Rightarrow> bool" where
  "bank_inv n st \<longleftrightarrow>
     (\<forall>i < n. thread_ok st i) \<and> (\<forall>m i. owner st m = Some i \<longrightarrow> i < n) \<and>
     (\<forall>a. owner st (AccountLock a) \<noteq> None \<longrightarrow> accounts st a \<noteq> None)"

lemma thread_okI:
  "disciplined (threads st i) H X W \<Longrightarrow> H = held st i \<Longrightarrow> knows st i X W \<Longrightarrow> thread_ok st i"
  by (auto simp: thread_ok_def)

lemma go_on_simps [simp]:
  "threads (go_on i p st) = (threads st)(i := p)" "owner (go_on i p st) = owner st"
  "accounts (go_on i p st) = accounts st"
  by (simp_all add: go_on_def)

text \<open>What a disciplined instruction does to the shared state.\<close>

lemma instr_self:
  assumes d: "disciplined p (held st i) X W" and k: "knows st i X W"
    and st: "instr i p st = Some st'"
    and acc: "\<forall>a. owner st (AccountLock a) \<noteq> None \<longrightarrow> accounts st a \<noteq> None"
  shows "thread_ok st' i"
proof (cases p)
  case (Lock m q)
  with st have st': "st' = go_on i q (st\<lparr>owner := (owner st)(m := Some i)\<rparr>)" and
    free: "owner st m = None" by (auto split: if_splits)
  from free k have "knows st' i X W" by (auto simp: knows_def st')
  moreover have "held st' i = insert m (held st i)" by (auto simp: held_def st')
  ultimately show ?thesis using d Lock by (intro thread_okI) (auto simp: st')
next
  case (Unlock m q)
  with d have own: "owner st m = Some i" by (auto simp: held_def)
  with st Unlock have st': "st' = go_on i q (st\<lparr>owner := (owner st)(m := None)\<rparr>)" by auto
  from k have "knows st' i (forget m X) (unread m W)"
    by (auto simp: knows_def st' forget_def unread_def split: if_splits)
  moreover have "held st' i = held st i - {m}" by (auto simp: held_def st')
  ultimately show ?thesis using d Unlock by (intro thread_okI) (auto simp: st')
next
  case (Lookup a c)
  with st have st': "st' = go_on i (c (accounts st a \<noteq> None)) st" by simp
  have h: "held st' i = held st i" by (simp add: held_def st')
  from d Lookup have own: "owner st BankLock = Some i" by (simp add: held_def)
  show ?thesis
  proof (cases "X a")
    case None
    define X' where "X' = X(a \<mapsto> accounts st a \<noteq> None)"
    from k own have "knows st' i X' W" by (auto simp: knows_def st' X'_def)
    moreover from d Lookup None have "disciplined (c (accounts st a \<noteq> None)) (held st i) X' W"
      by (cases "accounts st a") (auto simp: X'_def)
    ultimately show ?thesis using h by (intro thread_okI) (auto simp: st')
  next
    case (Some b)
    with k have "b = (accounts st a \<noteq> None)" by (cases b) (auto simp: knows_def)
    with Some d Lookup have "disciplined (c (accounts st a \<noteq> None)) (held st i) X W" by simp
    moreover from k have "knows st' i X W" by (simp add: knows_def st')
    ultimately show ?thesis using h by (intro thread_okI) (auto simp: st')
  qed
next
  case (Insert a q)
  with st have st': "st' = go_on i q (st\<lparr>accounts := (accounts st)(a \<mapsto> 0)\<rparr>)" by simp
  from d Insert k have "knows st' i (X(a \<mapsto> True)) W" by (fastforce simp: knows_def st')
  moreover have "held st' i = held st i" by (simp add: held_def st')
  ultimately show ?thesis using d Insert by (intro thread_okI) (auto simp: st')
next
  case (Load a c)
  with d have own: "owner st (AccountLock a) = Some i" by (simp add: held_def)
  with acc obtain w where w: "accounts st a = Some w" by force
  with st Load have st': "st' = go_on i (c w) st" by simp
  have h: "held st' i = held st i" by (simp add: held_def st')
  show ?thesis
  proof (cases "W a")
    case None
    from k own w have "knows st' i X (W(a \<mapsto> w))" by (simp add: knows_def st')
    with None d Load h show ?thesis by (intro thread_okI) (auto simp: st')
  next
    case (Some v)
    with k w have "v = w" by (auto simp: knows_def)
    with Some d Load have "disciplined (c w) (held st i) X W" by simp
    moreover from k have "knows st' i X W" by (simp add: knows_def st')
    ultimately show ?thesis using h by (intro thread_okI) (auto simp: st')
  qed
next
  case (Store a w q)
  with d have own: "owner st (AccountLock a) = Some i" by (simp add: held_def)
  with acc obtain v where v: "accounts st a = Some v" by force
  with st Store have st': "st' = go_on i q (st\<lparr>accounts := (accounts st)(a \<mapsto> w)\<rparr>)" by simp
  from k own v have "knows st' i X (W(a \<mapsto> w))" by (auto simp: knows_def st')
  moreover have "held st' i = held st i" by (simp add: held_def st')
  ultimately show ?thesis using d Store by (intro thread_okI) (auto simp: st')
qed (use st in simp_all)

text \<open>Nothing another goroutine knows or holds is touched.\<close>

definition untouched :: "bankSystem \<Rightarrow> bankSystem \<Rightarrow> nat \<Rightarrow> bool" where
  "untouched st st' j \<longleftrightarrow>
     threads st' j = threads st j \<and> held st' j = held st j \<and>
     (\<forall>a. accounts st a \<noteq> None \<longrightarrow> accounts st' a \<noteq> None) \<and>
     (owner st BankLock = Some j \<longrightarrow> (\<forall>a. (accounts st' a = None) = (accounts st a = None))) \<and>
     (\<forall>a. owner st (AccountLock a) = Some j \<longrightarrow> accounts st' a = accounts st a)"

lemma instr_others:
  assumes "disciplined p (held st i) X W" and "knows st i X W"
    and "instr i p st = Some st'" and "j \<noteq> i"
    and "\<forall>a. owner st (AccountLock a) \<noteq> None \<longrightarrow> accounts st a \<noteq> None"
  shows "untouched st st' j"
proof (cases p)
  case (Unlock m q)
  with assms(1) have "owner st m = Some i" by (simp add: held_def)
  with Unlock assms(3,4) show ?thesis by (auto simp: untouched_def held_def split: if_splits)
next
  case (Insert a q)
  with assms(1,2) have "owner st BankLock = Some i" "accounts st a = None"
    by (auto simp: held_def knows_def)
  moreover from this(2) assms(5) have "owner st (AccountLock a) = None" by blast
  ultimately show ?thesis using Insert assms(3,4) by (auto simp: untouched_def held_def)
next
  case (Store a w q)
  with assms(1) have "owner st (AccountLock a) = Some i" by (simp add: held_def)
  with Store assms(3,4) show ?thesis
    by (auto simp: untouched_def held_def split: option.splits if_splits)
qed (use assms(3,4) in \<open>auto simp: untouched_def held_def split: if_splits option.splits\<close>)

lemma untouched_knows: "untouched st st' j \<Longrightarrow> knows st j X W \<Longrightarrow> knows st' j X W"
proof -
  assume u: "untouched st st' j" and k: "knows st j X W"
  have "owner st' m = Some j \<longleftrightarrow> owner st m = Some j" for m
    using u by (auto simp: untouched_def held_def)
  with k u show ?thesis by (auto simp: knows_def untouched_def)
qed

lemma untouched_ok: "untouched st st' j \<Longrightarrow> thread_ok st j \<Longrightarrow> thread_ok st' j"
proof -
  assume u: "untouched st st' j" and "thread_ok st j"
  then obtain X W where d: "disciplined (threads st j) (held st j) X W" and k: "knows st j X W"
    by (auto simp: thread_ok_def)
  from d u untouched_knows [OF u k] show ?thesis
    by (intro thread_okI) (auto simp: untouched_def)
qed

lemma bank_step_inv:
  assumes inv: "bank_inv n st" and step: "bankStep n i st = Some st'"
  shows "bank_inv n st'"
proof -
  from step have i: "i < n" and st: "instr i (threads st i) st = Some st'"
    by (auto simp: bankStep_def split: if_splits)
  from inv i obtain X W where d: "disciplined (threads st i) (held st i) X W"
    and k: "knows st i X W" and acc: "\<forall>a. owner st (AccountLock a) \<noteq> None \<longrightarrow> accounts st a \<noteq> None"
    by (auto simp: bank_inv_def thread_ok_def)
  show ?thesis
    unfolding bank_inv_def
  proof (intro conjI allI impI)
    fix j assume "j < n"
    with inv have "thread_ok st j" by (simp add: bank_inv_def)
    then show "thread_ok st' j"
      using instr_self [OF d k st acc] untouched_ok [OF instr_others [OF d k st _ acc]]
      by (cases "j = i") blast+
  next
    fix m j assume "owner st' m = Some j"
    with st i inv show "j < n"
      by (cases "threads st i") (auto simp: bank_inv_def split: if_splits option.splits)
  next
    fix a assume "owner st' (AccountLock a) \<noteq> None"
    with st d k acc show "accounts st' a \<noteq> None"
      by (cases "threads st i") (auto simp: knows_def split: if_splits option.splits)
  qed
qed

definition bankInit :: "Bank \<Rightarrow> bankMethod list \<Rightarrow> bankSystem \<Rightarrow> bool" where
  "bankInit m cs st \<longleftrightarrow> st = startBank m cs"

lemma bank_init_inv:
  assumes "\<forall>c \<in> set cs. admissible c" and "bankInit m cs st"
  shows "bank_inv (length cs) st"
proof -
  have "thread_ok (startBank m cs) i" if "i < length cs" for i
  proof (rule thread_okI [of _ _ "{}" "\<lambda>a. None" "\<lambda>a. None"])
    show "disciplined (threads (startBank m cs) i) {} (\<lambda>a. None) (\<lambda>a. None)"
      using assms(1) that by (auto simp: startBank_def intro: body_disciplined)
  qed (auto simp: startBank_def held_def knows_def)
  with assms(2) show ?thesis by (auto simp: bank_inv_def bankInit_def startBank_def)
qed

text \<open>
  The calls of a client that withdraws only non-negative amounts: \<open>accepted cs\<close> makes
  the calls of \<open>cs\<close> an initial state exactly when it is one.
\<close>

definition safeInit :: "Bank \<Rightarrow> bankMethod list \<Rightarrow> bankSystem \<Rightarrow> bool" where
  "safeInit m cs st \<longleftrightarrow> (\<forall>c \<in> set cs. admissible c) \<and> bankInit m cs st"

interpretation bank: invariant "safeInit m cs" "bankStep (length cs)" "bank_inv (length cs)"
  for m cs
  by unfold_locales (auto simp: safeInit_def intro: bank_init_inv bank_step_inv)

section \<open>No deadlock\<close>

lemma blocked_at_lock:
  "instr i p st = None \<Longrightarrow> \<not> finished p \<Longrightarrow> \<exists>m q. p = Lock m q \<and> owner st m \<noteq> None"
  by (cases p) (auto split: if_splits)

lemma no_deadlock:
  assumes inv: "bank_inv n st" and stuck: "\<forall>i < n. bankStep n i st = None" and "i < n"
  shows "finished (threads st i)"
proof (rule ccontr)
  assume nf: "\<not> finished (threads st i)"
  define S where "S = {m. \<exists>j q. j < n \<and> threads st j = Lock m q}"
  have at: "\<exists>m q. threads st j = Lock m q \<and> owner st m \<noteq> None"
    if "j < n" "\<not> finished (threads st j)" for j
    using blocked_at_lock [of j "threads st j" st] stuck that by (auto simp: bankStep_def)
  have "S \<subseteq> (\<lambda>j. case threads st j of Lock m q \<Rightarrow> m) ` {..<n}"
    by (force simp: S_def)
  then have fin: "finite S" by (rule finite_subset) simp
  from at [OF \<open>i < n\<close> nf] \<open>i < n\<close> have "S \<noteq> {}" by (auto simp: S_def)
  with fin have max: "Max S \<in> S" "\<forall>m \<in> S. m \<le> Max S" by auto
  then obtain j q where j: "j < n" "threads st j = Lock (Max S) q" by (auto simp: S_def)
  with at [of j] have "owner st (Max S) \<noteq> None" by auto
  then obtain k where k: "owner st (Max S) = Some k" by blast
  with inv have "k < n" by (auto simp: bank_inv_def)
  with inv obtain X W where d: "disciplined (threads st k) (held st k) X W"
    by (auto simp: bank_inv_def thread_ok_def)
  from k have h: "Max S \<in> held st k" by (simp add: held_def)
  then have "\<not> finished (threads st k)" using d by (cases "threads st k") auto
  from at [OF \<open>k < n\<close> this] obtain m p where m: "threads st k = Lock m p" by blast
  with d h have "Max S < m" by auto
  moreover from m \<open>k < n\<close> have "m \<in> S" by (auto simp: S_def)
  ultimately show False using max(2) by fastforce
qed

section \<open>Every call returns\<close>

text \<open>\<open>within p k\<close>: no path through \<open>p\<close> runs more than \<open>k\<close> instructions.\<close>

primrec within :: "prog \<Rightarrow> nat \<Rightarrow> bool" where
  "within (Lock m p) = (\<lambda>k. 0 < k \<and> within p (k - 1))"
| "within (Unlock m p) = (\<lambda>k. 0 < k \<and> within p (k - 1))"
| "within (Lookup a c) = (\<lambda>k. 0 < k \<and> (\<forall>b. within (c b) (k - 1)))"
| "within (Insert a p) = (\<lambda>k. 0 < k \<and> within p (k - 1))"
| "within (Load a c) = (\<lambda>k. 0 < k \<and> (\<forall>w. within (c w) (k - 1)))"
| "within (Store a w p) = (\<lambda>k. 0 < k \<and> within p (k - 1))"
| "within (Ret r) = (\<lambda>k. True)"
| "within (Panic f) = (\<lambda>k. True)"

lemma body_within: "within (body c) 13"
  by (cases c) (auto simp: bank_method_defs)

definition credit :: "nat \<Rightarrow> bankSystem \<Rightarrow> nat \<Rightarrow> bool" where
  "credit n st C \<longleftrightarrow> (\<exists>c. (\<forall>i < n. within (threads st i) (c i)) \<and> sum c {..<n} = C)"

lemma instr_within:
  "instr i p st = Some st' \<Longrightarrow> within p k \<Longrightarrow>
     0 < k \<and> within (threads st' i) (k - 1) \<and> (\<forall>j. j \<noteq> i \<longrightarrow> threads st' j = threads st j)"
  by (cases p) (auto split: if_splits option.splits)

lemma credit_step:
  assumes "credit n st C" and "bankStep n i st = Some st'"
  shows "0 < C \<and> credit n st' (C - 1)"
proof -
  from assms(1) obtain c where c: "\<forall>i < n. within (threads st i) (c i)" "sum c {..<n} = C"
    by (auto simp: credit_def)
  from assms(2) have i: "i < n" and st: "instr i (threads st i) st = Some st'"
    by (auto simp: bankStep_def split: if_splits)
  from instr_within [OF st] c(1) i have w: "0 < c i" "within (threads st' i) (c i - 1)"
    "\<forall>j. j \<noteq> i \<longrightarrow> threads st' j = threads st j" by blast+
  let ?c = "c(i := c i - 1)"
  have "\<forall>j < n. within (threads st' j) (?c j)" using c(1) w(2,3) by simp
  moreover have "sum c {..<n} = c i + sum c ({..<n} - {i})" and
    "sum ?c {..<n} = c i - 1 + sum c ({..<n} - {i})"
    using i by (auto simp: sum.remove [of "{..<n}" i])
  ultimately show ?thesis using c(2) w(1) unfolding credit_def by auto
qed

lemma credit_run:
  "credit n st C \<Longrightarrow> run_actions (bankStep n) sched st = Some st' \<Longrightarrow> length sched \<le> C"
proof (induction sched arbitrary: st C)
  case (Cons i sched)
  then obtain u where u: "bankStep n i st = Some u" "run_actions (bankStep n) sched u = Some st'"
    by (auto split: option.splits)
  from credit_step [OF Cons.prems(1) u(1)] Cons.IH [OF _ u(2)] show ?case by fastforce
qed simp

lemma credit_start: "credit (length cs) (startBank m cs) (13 * length cs)"
  unfolding credit_def
  by (intro exI [of _ "\<lambda>i. 13"]) (simp add: startBank_def body_within)

lemma start_reachable:
  "\<forall>c \<in> set cs. admissible c \<Longrightarrow> reachable (safeInit m cs) (bankStep n) (startBank m cs)"
  by (rule reach_init) (simp add: safeInit_def bankInit_def)

lemma run_bank_inv:
  assumes "\<forall>c \<in> set cs. admissible c"
    and "run_actions (bankStep (length cs)) sched (startBank m cs) = Some st"
  shows "bank_inv (length cs) st"
  by (rule bank.reachable_inv [OF reachable_run [OF start_reachable [OF assms(1)] assms(2)]])


definition demoCalls :: "bankMethod list" where
  "demoCalls = [CreateAccountCall 1, CreateAccountCall 2, TransferCall 1 2 5 True,
                TransferCall 2 1 3 False]"

definition demoSchedule :: "nat list" where
  "demoSchedule = [0, 0, 0, 0, 1, 1, 1, 1, 2, 2, 2, 2, 3, 3, 3, 3, 3, 3, 2]"

text \<open>Two opposite transfers, the second of which gets both mutexes first.\<close>

lemma demoSchedule_run:
  "run_actions (bankStep 4) demoSchedule (startBank BankInit demoCalls) = None \<and>
   (case run_actions (bankStep 4) (butlast demoSchedule) (startBank BankInit demoCalls) of
      None \<Rightarrow> False
    | Some st \<Rightarrow> owner st (AccountLock 1) = Some 3 \<and> owner st (AccountLock 2) = Some 3 \<and>
        finished (threads st 0) \<and> \<not> finished (threads st 2))"
  by code_simp


text \<open>The mutex that protects what a goroutine is about to read or write.\<close>

fun accessing :: "prog \<Rightarrow> mutex option" where
  "accessing (Lookup a k) = Some BankLock"
| "accessing (Insert a p) = Some BankLock"
| "accessing (Load a k) = Some (AccountLock a)"
| "accessing (Store a w p) = Some (AccountLock a)"
| "accessing _ = None"


lemma racing_run:
  "case run_actions (bankStep 4) [0, 0, 0, 0, 1, 1] (startBank BankInit demoCalls) of
     None \<Rightarrow> False | Some st \<Rightarrow> accessing (threads st 1) = Some BankLock"
  by code_simp


section \<open>The withdrawal that keeps its mutex\<close>

definition leakCalls :: "bankMethod list" where
  "leakCalls = [CreateAccountCall 1, CreateAccountCall 2, TransferCall 1 2 5 True,
                WithdrawCall 1 (-10), GetBalanceCall 1]"

definition leakSchedule :: "nat list" where
  "leakSchedule = replicate 4 0 @ replicate 4 1 @ replicate 13 2 @ replicate 7 3 @ replicate 3 4"

lemma leak_run:
  "case run_actions (bankStep 5) leakSchedule (startBank BankInit leakCalls) of
     None \<Rightarrow> False
   | Some st \<Rightarrow> owner st (AccountLock 1) = Some 3 \<and> \<not> finished (threads st 4) \<and>
       list_all (\<lambda>i. bankStep 5 i st = None) [0..<5] \<and>
       (case threads st 3 of Ret r \<Rightarrow> r = RBool False | _ \<Rightarrow> False)"
  by code_simp

text \<open>\<open>Withdraw\<close> of a negative amount from an overdrawn account returns false with the
  account's mutex still locked; the next call on that account never returns.\<close>

theorem withdraw_leaks_lock:
  "\<exists>sched st. run_actions (bankStep 5) sched (startBank BankInit leakCalls) = Some st \<and>
     threads st 3 = Ret (RBool False) \<and> owner st (AccountLock 1) = Some 3 \<and>
     \<not> finished (threads st 4) \<and> (\<forall>i. bankStep 5 i st = None)"
proof -
  obtain st where st: "run_actions (bankStep 5) leakSchedule (startBank BankInit leakCalls) = Some st"
    "owner st (AccountLock 1) = Some 3" "\<not> finished (threads st 4)"
    "list_all (\<lambda>i. bankStep 5 i st = None) [0..<5]"
    "case threads st 3 of Ret r \<Rightarrow> r = RBool False | _ \<Rightarrow> False"
    using leak_run by (auto split: option.splits)
  have "bankStep 5 i st = None" for i
    using st(4) by (cases "i < 5") (auto simp: list_all_iff bankStep_def)
  moreover have "threads st 3 = Ret (RBool False)" using st(5) by (auto split: prog.splits)
  ultimately show ?thesis using st(1-3) by blast
qed

end
