(* ===== verification/BankLinear.thy ===== *)
theory BankLinear
  imports BankSystem
begin

text \<open>
  The bank's methods are atomic: concurrent calls have the outcomes, and leave the
  accounts, of the same calls made one after the other in some order. A call takes effect
  at the step after which it takes no more mutexes; from then on it works on what its
  mutexes protect, so what is left of it can be thought of as done.
\<close>

primrec nolock :: "prog \<Rightarrow> bool" where
  "nolock (Lock m p) = False"
| "nolock (Unlock m p) = nolock p"
| "nolock (Lookup a k) = (nolock (k True) \<and> nolock (k False))"
| "nolock (Insert a p) = nolock p"
| "nolock (Load a k) = (\<forall>w. nolock (k w))"
| "nolock (Store a w p) = nolock p"
| "nolock (Ret r) = True"
| "nolock (Panic f) = True"

text \<open>What a program does when it runs alone.\<close>

primrec solo :: "prog \<Rightarrow> Bank \<Rightarrow> result go \<times> Bank" where
  "solo (Lock m p) = (\<lambda>M. solo p M)"
| "solo (Unlock m p) = (\<lambda>M. solo p M)"
| "solo (Lookup a k) = (\<lambda>M. solo (k (M a \<noteq> None)) M)"
| "solo (Insert a p) = (\<lambda>M. solo p (M(a \<mapsto> 0)))"
| "solo (Load a k) = (\<lambda>M. case M a of None \<Rightarrow> (Inl NilDereference, M) | Some w \<Rightarrow> solo (k w) M)"
| "solo (Store a w p) =
     (\<lambda>M. case M a of None \<Rightarrow> (Inl NilDereference, M) | Some v \<Rightarrow> solo p (M(a \<mapsto> w)))"
| "solo (Ret r) = (\<lambda>M. (Inr r, M))"
| "solo (Panic f) = (\<lambda>M. (Inl f, M))"

definition fits :: "Bank \<Rightarrow> (int \<Rightarrow> bool option) \<Rightarrow> bool" where
  "fits M X \<longleftrightarrow> (\<forall>a b. X a = Some b \<longrightarrow> (M a \<noteq> None) = b)"

definition fits_held :: "Bank \<Rightarrow> mutex set \<Rightarrow> (int \<Rightarrow> 64 word option) \<Rightarrow> bool" where
  "fits_held M H W \<longleftrightarrow>
     (\<forall>a w. W a = Some w \<longrightarrow> M a = Some w) \<and> (\<forall>a. AccountLock a \<in> H \<longrightarrow> M a \<noteq> None)"

text \<open>\<open>inside H M a\<close>: the mutexes \<open>H\<close> protect the entry of account \<open>a\<close>.\<close>

definition inside :: "mutex set \<Rightarrow> Bank \<Rightarrow> int \<Rightarrow> bool" where
  "inside H M a \<longleftrightarrow> AccountLock a \<in> H \<or> BankLock \<in> H \<and> M a = None"

definition agree :: "mutex set \<Rightarrow> Bank \<Rightarrow> Bank \<Rightarrow> bool" where
  "agree H M M' \<longleftrightarrow>
     (\<forall>a. AccountLock a \<in> H \<longrightarrow> M a = M' a) \<and> (BankLock \<in> H \<longrightarrow> (\<forall>a. (M a = None) = (M' a = None)))"

lemma solo_keeps: "M a \<noteq> None \<Longrightarrow> snd (solo p M) a \<noteq> None"
  by (induction p arbitrary: M) (auto split: option.splits)

lemma fits_False: "fits M X \<Longrightarrow> X a = Some False \<Longrightarrow> M a = None"
  unfolding fits_def by blast

lemma fits_look: "fits M X \<Longrightarrow> fits M (X(a \<mapsto> M a \<noteq> None))"
  by (simp add: fits_def)

lemma nolock_look: "nolock (Lookup a k) \<Longrightarrow> nolock (k b)"
  by (cases b) auto

lemma disciplined_look:
  "disciplined (Lookup a k) H X W \<Longrightarrow> X a = None \<Longrightarrow> disciplined (k b) H (X(a \<mapsto> b)) W"
  by (cases b) auto

lemma fits_insert: "fits M X \<Longrightarrow> fits (M(a \<mapsto> w)) (X(a \<mapsto> True))"
  by (simp add: fits_def)

lemma fits_store: "fits M X \<Longrightarrow> M a \<noteq> None \<Longrightarrow> fits (M(a \<mapsto> w)) X"
  by (auto simp: fits_def)

lemma fits_held_insert: "fits_held M H W \<Longrightarrow> M a = None \<Longrightarrow> fits_held (M(a \<mapsto> w)) H W"
  by (force simp: fits_held_def)

lemma fits_held_store: "fits_held M H W \<Longrightarrow> fits_held (M(a \<mapsto> w)) H (W(a \<mapsto> w))"
  by (simp add: fits_held_def)

lemma fits_held_load: "fits_held M H W \<Longrightarrow> M a = Some w \<Longrightarrow> fits_held M H (W(a \<mapsto> w))"
  by (simp add: fits_held_def)

lemma fits_drop: "fits M X \<Longrightarrow> fits M (forget m X)"
  by (auto simp: fits_def forget_def split: if_splits)

lemma fits_held_drop: "fits_held M H W \<Longrightarrow> fits_held M (H - D) (unread m W)"
  by (auto simp: fits_held_def unread_def split: if_splits)

lemma solo_outside:
  assumes "disciplined p H X W" and "nolock p" and "fits M X" and "fits_held M H W"
    and "\<not> inside H M a"
  shows "snd (solo p M) a = M a"
  using assms
proof (induction p arbitrary: H X W M)
  case (Unlock m p)
  have "snd (solo p M) a = M a"
    by (rule Unlock.IH [of "H - {m}" "forget m X" "unread m W"])
      (use Unlock.prems in \<open>auto simp: inside_def intro: fits_drop fits_held_drop\<close>)
  then show ?case by simp
next
  case (Lookup b k)
  show ?case
  proof (cases "X b")
    case None
    have "snd (solo (k (M b \<noteq> None)) M) a = M a"
    proof (rule Lookup.IH [OF _ disciplined_look [OF Lookup.prems(1) None]])
      show "fits M (X(b \<mapsto> M b \<noteq> None))" by (rule fits_look [OF Lookup.prems(3)])
      show "nolock (k (M b \<noteq> None))" by (rule nolock_look [OF Lookup.prems(2)])
    qed (use Lookup.prems in auto)
    then show ?thesis by simp
  next
    case (Some c)
    with Lookup.prems(3) have "c = (M b \<noteq> None)" by (auto simp: fits_def)
    with Some Lookup show ?thesis by auto
  qed
next
  case (Insert b p)
  from Insert.prems have b: "M b = None" by (auto intro: fits_False)
  with Insert.prems have "b \<noteq> a" by (auto simp: inside_def)
  have d: "disciplined p H (X(b \<mapsto> True)) W" "nolock p" using Insert.prems by auto
  have "\<not> inside H (M(b \<mapsto> 0)) a" using Insert.prems(5) \<open>b \<noteq> a\<close> by (simp add: inside_def)
  from Insert.IH [OF d fits_insert [OF Insert.prems(3)] fits_held_insert [OF Insert.prems(4) b] this]
  show ?case using \<open>b \<noteq> a\<close> by (simp add: fun_upd_def)
next
  case (Load b k)
  from Load.prems obtain w where w: "M b = Some w" by (auto simp: fits_held_def)
  show ?case
  proof (cases "W b")
    case None
    with Load.prems have d: "disciplined (k w) H X (W(b \<mapsto> w))" "nolock (k w)" by auto
    from Load.IH [OF _ d Load.prems(3) fits_held_load [OF Load.prems(4) w] Load.prems(5)] w
    show ?thesis by simp
  next
    case (Some v)
    with Load.prems w have "v = w" by (auto simp: fits_held_def)
    with Some Load w show ?thesis by auto
  qed
next
  case (Store b w p)
  from Store.prems have ba: "b \<noteq> a" and b: "AccountLock b \<in> H" by (auto simp: inside_def)
  from Store.prems b obtain v where v: "M b = Some v" by (auto simp: fits_held_def)
  have d: "disciplined p H X (W(b \<mapsto> w))" "nolock p" using Store.prems by auto
  have "\<not> inside H (M(b \<mapsto> w)) a" using Store.prems(5) ba by (simp add: inside_def)
  from Store.IH [OF d fits_store [OF Store.prems(3)] fits_held_store [OF Store.prems(4)] this] v ba
  show ?case by (simp add: fun_upd_def)
qed auto

lemma agree_drop: "agree H M M' \<Longrightarrow> agree (H - D) M M'"
  by (auto simp: agree_def)

lemma inside_agree: "agree H M M' \<Longrightarrow> inside H M a = inside H M' a"
  by (auto simp: agree_def inside_def)

lemma solo_agree:
  assumes "disciplined p H X W" and "nolock p" and "agree H M M'"
    and "fits M X" and "fits_held M H W" and "fits M' X" and "fits_held M' H W"
  shows "fst (solo p M) = fst (solo p M') \<and>
    (\<forall>a. inside H M a \<longrightarrow> snd (solo p M) a = snd (solo p M') a)"
  using assms
proof (induction p arbitrary: H X W M M')
  case (Unlock m p)
  have d: "disciplined p (H - {m}) (forget m X) (unread m W)" "nolock p"
    using Unlock.prems by auto
  have f: "fits M (forget m X)" "fits_held M (H - {m}) (unread m W)"
      "fits M' (forget m X)" "fits_held M' (H - {m}) (unread m W)"
    using Unlock.prems(4-7) by (auto intro: fits_drop fits_held_drop)
  note IH = Unlock.IH [OF d agree_drop [OF Unlock.prems(3)] f]
  have "snd (solo p M) a = snd (solo p M') a" if a: "inside H M a" for a
  proof (cases "inside (H - {m}) M a")
    case False
    then have "\<not> inside (H - {m}) M' a"
      using inside_agree [OF agree_drop [OF Unlock.prems(3)]] by simp
    with False solo_outside [OF d] f have "snd (solo p M) a = M a" "snd (solo p M') a = M' a"
      by blast+
    moreover have "M a = M' a"
      using a Unlock.prems(3) unfolding inside_def agree_def by metis
    ultimately show ?thesis by simp
  qed (use IH in blast)
  with IH show ?case by simp
next
  case (Lookup b k)
  from Lookup.prems(1,3) have same: "(M b \<noteq> None) = (M' b \<noteq> None)" by (auto simp: agree_def)
  show ?case
  proof (cases "X b")
    case None
    have "fst (solo (k (M b \<noteq> None)) M) = fst (solo (k (M b \<noteq> None)) M') \<and>
      (\<forall>a. inside H M a \<longrightarrow> snd (solo (k (M b \<noteq> None)) M) a = snd (solo (k (M b \<noteq> None)) M') a)"
    proof (rule Lookup.IH [OF _ disciplined_look [OF Lookup.prems(1) None]])
      show "fits M (X(b \<mapsto> M b \<noteq> None))" by (rule fits_look [OF Lookup.prems(4)])
      show "nolock (k (M b \<noteq> None))" by (rule nolock_look [OF Lookup.prems(2)])
      show "fits M' (X(b \<mapsto> M b \<noteq> None))"
        unfolding same by (rule fits_look [OF Lookup.prems(6)])
    qed (use Lookup.prems in auto)
    with same show ?thesis by simp
  next
    case (Some c)
    with Lookup.prems(4) have "c = (M b \<noteq> None)" by (auto simp: fits_def)
    with Some Lookup.prems have "disciplined (k (M b \<noteq> None)) H X W" "nolock (k (M b \<noteq> None))"
      by auto
    from Lookup.IH [OF _ this Lookup.prems(3-7)] same show ?thesis by simp
  qed
next
  case (Insert b p)
  from Insert.prems have bl: "BankLock \<in> H" "M b = None" "M' b = None"
    by (auto intro: fits_False)
  have na: "AccountLock b \<notin> H" using Insert.prems(5) bl by (auto simp: fits_held_def)
  let ?M = "M(b \<mapsto> 0)" and ?M' = "M'(b \<mapsto> 0)"
  have d: "disciplined p H (X(b \<mapsto> True)) W" "nolock p" using Insert.prems by auto
  have f: "fits ?M (X(b \<mapsto> True))" "fits_held ?M H W"
      "fits ?M' (X(b \<mapsto> True))" "fits_held ?M' H W" "agree H ?M ?M'"
    using Insert.prems(3-7) bl na
    by (auto simp: agree_def intro: fits_insert fits_held_insert)
  note IH = Insert.IH [OF d f(5,1-4)]
  have "snd (solo p ?M) a = snd (solo p ?M') a" if a: "inside H M a" for a
  proof (cases "a = b")
    case True
    have "\<not> inside H ?M b" "\<not> inside H ?M' b" using na by (auto simp: inside_def)
    with True solo_outside [OF d f(1,2), of b] solo_outside [OF d f(3,4), of b] show ?thesis
      by simp
  next
    case False
    with a have "inside H ?M a" by (simp add: inside_def)
    with IH show ?thesis by blast
  qed
  with IH show ?case by (simp add: fun_upd_def)
next
  case (Load b k)
  from Load.prems obtain w where w: "M b = Some w" "M' b = Some w"
    by (auto simp: fits_held_def agree_def)
  show ?case
  proof (cases "W b")
    case None
    with Load.prems have d: "disciplined (k w) H X (W(b \<mapsto> w))" "nolock (k w)" by auto
    from Load.IH [OF _ d Load.prems(3,4) fits_held_load [OF Load.prems(5) w(1)] Load.prems(6)
        fits_held_load [OF Load.prems(7) w(2)]] w
    show ?thesis by simp
  next
    case (Some v)
    with Load.prems(5) w have "v = w" by (auto simp: fits_held_def)
    with Some Load.prems have "disciplined (k w) H X W" "nolock (k w)" by auto
    from Load.IH [OF _ this Load.prems(3-7)] w show ?thesis by simp
  qed
next
  case (Store b w p)
  from Store.prems obtain v where v: "M b = Some v" "M' b = Some v"
    by (auto simp: fits_held_def agree_def)
  let ?M = "M(b \<mapsto> w)" and ?M' = "M'(b \<mapsto> w)"
  have d: "disciplined p H X (W(b \<mapsto> w))" "nolock p" "AccountLock b \<in> H"
    using Store.prems by auto
  have f: "fits ?M X" "fits_held ?M H (W(b \<mapsto> w))" "fits ?M' X"
      "fits_held ?M' H (W(b \<mapsto> w))" "agree H ?M ?M'"
    using Store.prems(3-7) v
    by (auto simp: agree_def intro: fits_store fits_held_store)
  note IH = Store.IH [OF d(1,2) f(5,1-4)]
  have "inside H ?M a = inside H M a" for a using d(3) v by (auto simp: inside_def)
  with IH v show ?case by (simp add: fun_upd_def)
qed (auto simp: inside_def)

section \<open>Each method implements its one-step effect\<close>

definition settled :: "bankMethod \<Rightarrow> (int \<Rightarrow> bool option) \<Rightarrow> prog \<Rightarrow> bool" where
  "settled c X p \<longleftrightarrow> (\<forall>M. fits M X \<longrightarrow> solo p M = specOp c M)"

text \<open>
  \<open>impl p c X\<close>: until it takes no more mutexes, \<open>p\<close> only looks accounts up; what is left
  then has the effect of the call \<open>c\<close> on every map that fits what was looked up.
\<close>

primrec impl :: "prog \<Rightarrow> bankMethod \<Rightarrow> (int \<Rightarrow> bool option) \<Rightarrow> bool" where
  "impl (Lock m p) = (\<lambda>c X. impl p c X)"
| "impl (Unlock m p) = (\<lambda>c X.
     if nolock p then settled c X (Unlock m p) else impl p c (forget m X))"
| "impl (Lookup a k) = (\<lambda>c X.
     if nolock (k True) \<and> nolock (k False) then settled c X (Lookup a k)
     else case X a of
         Some b \<Rightarrow> impl (k b) c X
       | None \<Rightarrow> impl (k True) c (X(a \<mapsto> True)) \<and> impl (k False) c (X(a \<mapsto> False)))"
| "impl (Insert a p) = (\<lambda>c X. nolock p \<and> settled c X (Insert a p))"
| "impl (Load a k) = (\<lambda>c X. (\<forall>w. nolock (k w)) \<and> settled c X (Load a k))"
| "impl (Store a w p) = (\<lambda>c X. nolock p \<and> settled c X (Store a w p))"
| "impl (Ret r) = (\<lambda>c X. settled c X (Ret r))"
| "impl (Panic f) = (\<lambda>c X. settled c X (Panic f))"

lemma impl_settled: "impl p c X \<Longrightarrow> nolock p \<Longrightarrow> settled c X p"
  by (cases p) auto

lemma fits_SomeD: "fits M X \<Longrightarrow> X a = Some True \<Longrightarrow> \<exists>w. M a = Some w"
  unfolding fits_def by blast

lemmas impl_simps = settled_def fits_def forget_def bank_method_defs

lemma body_impl:
  assumes "admissible c"
  shows "impl (body c) c (\<lambda>a. None)"
proof (cases c)
  case (CreateAccountCall a)
  then show ?thesis by (simp add: impl_simps split: option.splits)
next
  case (DepositCall a x)
  then show ?thesis by (auto simp: impl_simps split: option.splits)
next
  case (WithdrawCall a x)
  with assms show ?thesis by (auto simp: impl_simps split: option.splits)
next
  case (TransferCall a b x ov)
  show ?thesis
  proof (cases "a = b")
    case True
    with TransferCall show ?thesis by (auto simp: impl_simps split: option.splits)
  next
    case False
    with TransferCall show ?thesis
      by (auto simp: impl_simps fun_upd_twist split: option.splits)
  qed
next
  case (DepositAndCompareCall a x y)
  then show ?thesis by (auto simp: impl_simps split: option.splits)
next
  case (GetBalanceCall a)
  then show ?thesis by (auto simp: impl_simps split: option.splits)
qed

section \<open>Serial executions\<close>

fun serialState :: "bankMethod list \<Rightarrow> nat list \<Rightarrow> Bank \<Rightarrow> Bank" where
  "serialState cs [] M = M"
| "serialState cs (i # order) M = serialState cs order (snd (specOp (cs ! i) M))"

fun serialOutcome :: "bankMethod list \<Rightarrow> nat list \<Rightarrow> Bank \<Rightarrow> nat \<Rightarrow> result go option" where
  "serialOutcome cs [] M j = None"
| "serialOutcome cs (i # order) M j =
     (if i = j then Some (fst (specOp (cs ! i) M))
      else serialOutcome cs order (snd (specOp (cs ! i) M)) j)"

lemma serialState_append [simp]:
  "serialState cs (order @ [i]) M = snd (specOp (cs ! i) (serialState cs order M))"
  by (induction order arbitrary: M) auto

lemma serialOutcome_append:
  "serialOutcome cs (order @ [i]) M j =
     (if j \<in> set order then serialOutcome cs order M j
      else if i = j then Some (fst (specOp (cs ! i) (serialState cs order M))) else None)"
  by (induction order arbitrary: M) auto

section \<open>Concurrent executions are serial\<close>

definition effect :: "bankSystem \<Rightarrow> nat \<Rightarrow> result go \<times> Bank" where
  "effect st i = solo (threads st i) (accounts st)"

definition working :: "bankSystem \<Rightarrow> nat \<Rightarrow> int \<Rightarrow> bool" where
  "working st i a \<longleftrightarrow> nolock (threads st i) \<and> inside (held st i) (accounts st) a"

text \<open>The accounts once every call that has taken effect is through with its work.\<close>

definition settles :: "nat \<Rightarrow> bankSystem \<Rightarrow> Bank \<Rightarrow> bool" where
  "settles n st m \<longleftrightarrow>
     (\<forall>i < n. \<forall>a. working st i a \<longrightarrow> m a = snd (effect st i) a) \<and>
     (\<forall>a. (\<forall>i < n. \<not> working st i a) \<longrightarrow> m a = accounts st a)"

definition lin_inv :: "bankMethod list \<Rightarrow> Bank \<Rightarrow> bankSystem \<Rightarrow> bool" where
  "lin_inv cs M st \<longleftrightarrow>
     (\<exists>order. distinct order \<and> set order = {i. i < length cs \<and> nolock (threads st i)} \<and>
        settles (length cs) st (serialState cs order M) \<and>
        (\<forall>i \<in> set order. serialOutcome cs order M i = Some (fst (effect st i)))) \<and>
     (\<forall>i < length cs. \<not> nolock (threads st i) \<longrightarrow>
        (\<exists>X. impl (threads st i) (cs ! i) X \<and> knows st i X (\<lambda>a. None)))"

lemma bank_inv_thread:
  assumes "bank_inv n st" and "i < n"
  obtains X W where "disciplined (threads st i) (held st i) X W" "knows st i X W"
    "fits (accounts st) X" "fits_held (accounts st) (held st i) W"
proof -
  from assms obtain X W where d: "disciplined (threads st i) (held st i) X W" "knows st i X W"
    by (auto simp: bank_inv_def thread_ok_def)
  have "fits (accounts st) X"
    unfolding fits_def
  proof (intro allI impI)
    fix a b assume "X a = Some b"
    with d(2) show "(accounts st a \<noteq> None) = b" by (cases b) (auto simp: knows_def)
  qed
  moreover from d(2) assms(1) have "fits_held (accounts st) (held st i) W"
    by (auto simp: fits_held_def knows_def held_def bank_inv_def)
  ultimately show thesis using d that by blast
qed

lemma working_unique:
  assumes "bank_inv n st" and "inside (held st i) (accounts st) a"
    and "inside (held st j) (accounts st) a"
  shows "i = j"
  using assms by (auto simp: inside_def held_def bank_inv_def)

text \<open>One step of a program alone, and what a step of another leaves of its effect.\<close>

lemma effect_self:
  assumes "instr i (threads st i) st = Some st'"
    and "disciplined (threads st i) (held st i) X W"
  shows "effect st' i = effect st i"
  using assms
  by (cases "threads st i")
    (auto simp: effect_def held_def split: if_splits option.splits)

lemma effect_other:
  assumes inv: "bank_inv n st" and inv': "bank_inv n st'" and j: "j < n"
    and u: "untouched st st' j" and nl: "nolock (threads st j)"
  shows "fst (effect st' j) = fst (effect st j) \<and>
    (\<forall>a. working st' j a = working st j a) \<and>
    (\<forall>a. working st j a \<longrightarrow> snd (effect st' j) a = snd (effect st j) a)"
proof -
  from bank_inv_thread [OF inv j] obtain X W where
    d: "disciplined (threads st j) (held st j) X W" "knows st j X W"
      "fits (accounts st) X" "fits_held (accounts st) (held st j) W" .
  from untouched_knows [OF u d(2)] have k': "knows st' j X W" .
  from u have same: "threads st' j = threads st j" "held st' j = held st j"
    by (simp_all add: untouched_def)
  have f': "fits (accounts st') X"
    unfolding fits_def
  proof (intro allI impI)
    fix a b assume "X a = Some b"
    with k' show "(accounts st' a \<noteq> None) = b" by (cases b) (auto simp: knows_def)
  qed
  have "fits_held (accounts st') (held st' j) W"
    using k' inv' by (auto simp: fits_held_def knows_def held_def bank_inv_def)
  then have g': "fits_held (accounts st') (held st j) W" by (simp add: same)
  have ag: "agree (held st j) (accounts st) (accounts st')"
    using u by (auto simp: untouched_def agree_def held_def)
  from solo_agree [OF d(1) nl ag d(3,4) f' g'] inside_agree [OF ag] same show ?thesis
    by (simp add: effect_def working_def)
qed

lemma nolock_step: "instr i p st = Some st' \<Longrightarrow> nolock p \<Longrightarrow> nolock (threads st' i)"
proof (cases p)
  case (Lookup a k)
  assume "instr i p st = Some st'" "nolock p"
  with Lookup nolock_look [of a k "accounts st a \<noteq> None"] show ?thesis by auto
qed (auto split: if_splits option.splits)

lemma held_step:
  "instr i p st = Some st' \<Longrightarrow> nolock p \<Longrightarrow> held st' i \<subseteq> held st i"
  by (cases p) (auto simp: held_def split: if_splits option.splits)

lemma accounts_step:
  assumes "instr i p st = Some st'" and "disciplined p (held st i) X W" and "fits (accounts st) X"
    and "\<not> inside (held st i) (accounts st) a"
  shows "accounts st' a = accounts st a"
  using assms fits_False [OF assms(3)]
  by (cases p) (auto simp: inside_def split: if_splits option.splits)

lemma accounts_grow:
  "instr i p st = Some st' \<Longrightarrow> accounts st' a = None \<Longrightarrow> accounts st a = None"
  by (cases p) (auto split: if_splits option.splits)

lemma settles_keep:
  assumes "settles n st m" and "accounts st a \<noteq> None"
  shows "m a \<noteq> None"
proof (cases "\<exists>i < n. working st i a")
  case True
  then obtain i where "i < n" "working st i a" by blast
  with assms(1) have "m a = snd (effect st i) a" by (simp add: settles_def)
  with solo_keeps [of "accounts st" a, OF assms(2)] show ?thesis by (simp add: effect_def)
qed (use assms in \<open>auto simp: settles_def\<close>)

text \<open>A goroutine that has taken effect goes on: nothing changes.\<close>

lemma settles_working:
  assumes inv: "bank_inv n st" and inv': "bank_inv n st'" and i: "i < n"
    and st: "instr i (threads st i) st = Some st'" and nl: "nolock (threads st i)"
    and others: "\<forall>j < n. j \<noteq> i \<longrightarrow> untouched st st' j" and m: "settles n st m"
  shows "settles n st' m"
proof -
  from bank_inv_thread [OF inv i] obtain X W where
    d: "disciplined (threads st i) (held st i) X W" "fits (accounts st) X" by blast
  have nl': "nolock (threads st' i)"
    by (rule nolock_step [OF st nl])
  note e = effect_self [OF st d(1)]
  have wi: "working st i a" if "working st' i a" for a
    using that nl held_step [OF st nl] accounts_grow [OF st]
    by (auto simp: working_def inside_def)
  have wj: "(working st' j a = working st j a) \<and> 
      (working st j a \<longrightarrow> snd (effect st' j) a = snd (effect st j) a)" if "j < n" "j \<noteq> i" for j a
  proof (cases "nolock (threads st j)")
    case True
    from effect_other [OF inv inv' that(1) _ True] others that show ?thesis by blast
  next
    case False
    with others that show ?thesis by (auto simp: working_def untouched_def)
  qed
  have out: "snd (effect st' i) a = accounts st' a" if "\<not> working st' i a" for a
  proof -
    from bank_inv_thread [OF inv' i] obtain X' W' where
      "disciplined (threads st' i) (held st' i) X' W'" "fits (accounts st') X'"
      "fits_held (accounts st') (held st' i) W'" by blast
    from solo_outside [OF this(1) nl' this(2,3), of a] that nl' show ?thesis
      by (simp add: effect_def working_def)
  qed
  show ?thesis
    unfolding settles_def
  proof (intro conjI allI impI)
    fix j a assume j: "j < n" and w: "working st' j a"
    show "m a = snd (effect st' j) a"
    proof (cases "j = i")
      case True
      with w wi m i e show ?thesis by (simp add: settles_def)
    next
      case False
      with w wj [OF j] m j show ?thesis by (simp add: settles_def)
    qed
  next
    fix a assume none: "\<forall>j < n. \<not> working st' j a"
    show "m a = accounts st' a"
    proof (cases "working st i a")
      case True
      with m i have "m a = snd (effect st i) a" by (simp add: settles_def)
      with e out none i show ?thesis by simp
    next
      case False
      with none wj have "\<forall>j < n. \<not> working st j a" by metis
      with m have "m a = accounts st a" by (simp add: settles_def)
      moreover from False nl have "\<not> inside (held st i) (accounts st) a"
        by (simp add: working_def)
      from accounts_step [OF st d this] have "accounts st' a = accounts st a" .
      ultimately show ?thesis by simp
    qed
  qed
qed

text \<open>Before it takes effect, a goroutine leaves the accounts alone and keeps to its call.\<close>

lemma impl_step:
  assumes "instr i p st = Some st'" and "impl p c X" and "knows st i X (\<lambda>a. None)"
    and "\<not> nolock p" and "disciplined p (held st i) Y W"
  shows "accounts st' = accounts st \<and>
    (\<exists>X'. impl (threads st' i) c X' \<and> knows st' i X' (\<lambda>a. None))"
proof (cases p)
  case (Lock l q)
  with assms(1) have st': "st' = go_on i q (st\<lparr>owner := (owner st)(l := Some i)\<rparr>)" and
    "owner st l = None" by (auto split: if_splits)
  with assms(3) have "knows st' i X (\<lambda>a. None)" by (auto simp: knows_def)
  with Lock assms(2) show ?thesis by (auto simp: st')
next
  case (Unlock l q)
  with assms(5) have "owner st l = Some i" by (simp add: held_def)
  with Unlock assms(1) have st': "st' = go_on i q (st\<lparr>owner := (owner st)(l := None)\<rparr>)" by auto
  from assms(3) have "knows st' i (forget l X) (\<lambda>a. None)"
    by (auto simp: knows_def forget_def st' split: if_splits)
  with Unlock assms(2,4) show ?thesis by (auto simp: st')
next
  case (Lookup a k)
  with assms(1) have st': "st' = go_on i (k (accounts st a \<noteq> None)) st" by simp
  from assms(5) Lookup have own: "owner st BankLock = Some i" by (simp add: held_def)
  show ?thesis
  proof (cases "X a")
    case None
    define X' where "X' = X(a \<mapsto> accounts st a \<noteq> None)"
    from assms(3) own have "knows st' i X' (\<lambda>a. None)" by (auto simp: knows_def st' X'_def)
    moreover from assms(2,4) Lookup None have "impl (k (accounts st a \<noteq> None)) c X'"
      by (cases "accounts st a") (auto simp: X'_def)
    ultimately show ?thesis by (auto simp: st')
  next
    case (Some b)
    with assms(3) have "b = (accounts st a \<noteq> None)" by (cases b) (auto simp: knows_def)
    with Some assms(2,4) Lookup have "impl (k (accounts st a \<noteq> None)) c X" by auto
    moreover from assms(3) have "knows st' i X (\<lambda>a. None)" by (simp add: knows_def st')
    ultimately show ?thesis by (auto simp: st')
  qed
qed (use assms(2,4) in auto)

lemma fits_settled:
  assumes "knows st i X W" and "\<forall>a. accounts st a \<noteq> None \<longrightarrow> m a \<noteq> None"
    and "\<forall>a. inside (held st i) (accounts st) a \<longrightarrow> m a = accounts st a"
  shows "fits m X"
  unfolding fits_def
proof (intro allI impI)
  fix a b assume "X a = Some b"
  with assms show "(m a \<noteq> None) = b"
    by (cases b) (auto simp: knows_def inside_def held_def)
qed

text \<open>The step after which a goroutine takes no more mutexes is the one that counts.\<close>

lemma settles_effect:
  assumes inv: "bank_inv n st" and inv': "bank_inv n st'" and i: "i < n"
    and nl: "\<not> nolock (threads st i)" and nl': "nolock (threads st' i)"
    and acc: "accounts st' = accounts st"
    and im: "impl (threads st' i) c X'" and kn: "knows st' i X' (\<lambda>a. None)"
    and others: "\<forall>j < n. j \<noteq> i \<longrightarrow> untouched st st' j" and m: "settles n st m"
  shows "settles n st' (snd (specOp c m)) \<and> fst (effect st' i) = fst (specOp c m)"
proof -
  let ?H = "held st' i" and ?p = "threads st' i"
  from bank_inv_thread [OF inv' i] obtain X W where
    d: "disciplined ?p ?H X W" "knows st' i X W" "fits (accounts st') X"
      "fits_held (accounts st') ?H W" .
  have same: "working st' j a = working st j a" "effect st' j = effect st j"
    if "j < n" "j \<noteq> i" for j a
    using others that acc by (auto simp: untouched_def working_def effect_def)
  have wi: "\<not> working st i a" for a using nl by (simp add: working_def)
  have keep: "\<forall>a. accounts st' a \<noteq> None \<longrightarrow> m a \<noteq> None"
    using settles_keep [OF m] acc by simp
  have mine: "m a = accounts st' a" if "inside ?H (accounts st') a" for a
  proof -
    have "\<not> working st j a" if j: "j < n" for j
    proof (cases "j = i")
      case False
      have "inside (held st' j) (accounts st') a \<Longrightarrow> i = j"
        using working_unique [OF inv'] \<open>inside ?H (accounts st') a\<close> by blast
      with False same(1) [OF j False, of a] show ?thesis by (auto simp: working_def)
    qed (use wi in simp)
    with m acc show ?thesis by (simp add: settles_def)
  qed
  then have mine': "\<forall>a. inside ?H (accounts st') a \<longrightarrow> m a = accounts st' a" by blast
  have ag: "agree ?H m (accounts st')"
    unfolding agree_def
  proof (intro conjI allI impI)
    show "m a = accounts st' a" if "AccountLock a \<in> ?H" for a
      using mine that by (simp add: inside_def)
    show "(m a = None) = (accounts st' a = None)" if "BankLock \<in> ?H" for a
      using mine [of a] keep that by (auto simp: inside_def)
  qed
  have fh: "fits_held m ?H W"
    using d(2,4) mine by (auto simp: fits_held_def knows_def inside_def held_def)
  have sp: "solo ?p m = specOp c m"
    using impl_settled [OF im nl'] fits_settled [OF kn keep mine'] by (simp add: settled_def)
  from solo_agree [OF d(1) nl' ag fits_settled [OF d(2) keep mine'] fh d(3,4)]
  have eq: "fst (specOp c m) = fst (effect st' i)"
    "inside ?H m a \<Longrightarrow> snd (specOp c m) a = snd (effect st' i) a" for a
    by (simp_all add: sp effect_def)
  from solo_outside [OF d(1) nl' fits_settled [OF d(2) keep mine'] fh]
  have out: "snd (specOp c m) a = m a" if "\<not> inside ?H m a" for a
    using that by (simp add: sp)
  have in_m: "inside ?H m a = inside ?H (accounts st') a" for a by (rule inside_agree [OF ag])
  have "settles n st' (snd (specOp c m))"
    unfolding settles_def
  proof (intro conjI allI impI)
    fix j a assume j: "j < n" and w: "working st' j a"
    show "snd (specOp c m) a = snd (effect st' j) a"
    proof (cases "j = i")
      case True
      with w eq(2) [of a] in_m show ?thesis by (simp add: working_def)
    next
      case False
      from w have "inside (held st' j) (accounts st') a" by (simp add: working_def)
      with False working_unique [OF inv'] have "\<not> inside ?H (accounts st') a" by blast
      with out [of a] in_m have "snd (specOp c m) a = m a" by simp
      with m j w same [OF j False] show ?thesis by (simp add: settles_def)
    qed
  next
    fix a assume none: "\<forall>j < n. \<not> working st' j a"
    with i nl' have "\<not> inside ?H (accounts st') a" by (simp add: working_def)
    with out [of a] in_m have "snd (specOp c m) a = m a" by simp
    moreover from none same wi have "\<forall>j < n. \<not> working st j a" by metis
    with m acc have "m a = accounts st' a" by (simp add: settles_def)
    ultimately show "snd (specOp c m) a = accounts st' a" by simp
  qed
  with eq(1) show ?thesis by simp
qed

lemma settles_idle:
  assumes "settles n st m" and "accounts st' = accounts st" and "i < n"
    and "\<not> nolock (threads st i)" and "\<not> nolock (threads st' i)"
    and "\<forall>j < n. j \<noteq> i \<longrightarrow> untouched st st' j"
  shows "settles n st' m"
proof -
  have "working st' j a = working st j a \<and> effect st' j = effect st j \<or> j = i" if "j < n" for j a
    using assms(2,6) that by (auto simp: untouched_def working_def effect_def)
  moreover have "\<not> working st i a" "\<not> working st' i a" for a
    using assms(4,5) by (simp_all add: working_def)
  ultimately show ?thesis
    using assms(1,2) unfolding settles_def by metis
qed

lemma lin_step:
  assumes inv: "bank_inv (length cs) st" and lin: "lin_inv cs M st"
    and step: "bankStep (length cs) i st = Some st'"
  shows "lin_inv cs M st'"
proof -
  let ?n = "length cs"
  from step have i: "i < ?n" and st: "instr i (threads st i) st = Some st'"
    by (auto simp: bankStep_def split: if_splits)
  note inv' = bank_step_inv [OF inv step]
  from bank_inv_thread [OF inv i] obtain Y W where
    d: "disciplined (threads st i) (held st i) Y W" "knows st i Y W" by blast
  have acc: "\<forall>a. owner st (AccountLock a) \<noteq> None \<longrightarrow> accounts st a \<noteq> None"
    using inv by (simp add: bank_inv_def)
  have others: "\<forall>j < ?n. j \<noteq> i \<longrightarrow> untouched st st' j"
    using instr_others [OF d st _ acc] by blast
  then have thr: "threads st' j = threads st j" if "j < ?n" "j \<noteq> i" for j
    using that by (simp add: untouched_def)
  from lin obtain order where o: "distinct order"
      "set order = {i. i < ?n \<and> nolock (threads st i)}"
      "settles ?n st (serialState cs order M)"
      "\<forall>i \<in> set order. serialOutcome cs order M i = Some (fst (effect st i))"
    unfolding lin_inv_def by blast
  from lin have pend: "\<forall>j < ?n. \<not> nolock (threads st j) \<longrightarrow>
      (\<exists>X. impl (threads st j) (cs ! j) X \<and> knows st j X (\<lambda>a. None))"
    by (simp add: lin_inv_def)
  have pend': "\<exists>X. impl (threads st' j) (cs ! j) X \<and> knows st' j X (\<lambda>a. None)"
    if "j < ?n" "j \<noteq> i" "\<not> nolock (threads st' j)" for j
    using pend others thr that untouched_knows by metis
  have eff: "fst (effect st' j) = fst (effect st j)"
    if "j < ?n" "j \<noteq> i" "nolock (threads st j)" for j
    using effect_other [OF inv inv' that(1) _ that(3)] others that by blast
  show ?thesis
  proof (cases "nolock (threads st i)")
    case True
    from nolock_step [OF st True] have nl': "nolock (threads st' i)" .
    with True thr have "{j. j < ?n \<and> nolock (threads st' j)} = {j. j < ?n \<and> nolock (threads st j)}"
      by (metis (no_types, opaque_lifting))
    moreover have "settles ?n st' (serialState cs order M)"
      by (rule settles_working [OF inv inv' i st True others o(3)])
    moreover have "fst (effect st' j) = fst (effect st j)" if "j \<in> set order" for j
      using eff effect_self [OF st d(1)] o(2) that by (cases "j = i") auto
    moreover have "\<forall>j < ?n. \<not> nolock (threads st' j) \<longrightarrow>
        (\<exists>X. impl (threads st' j) (cs ! j) X \<and> knows st' j X (\<lambda>a. None))"
      using pend' nl' by metis
    ultimately show ?thesis
      unfolding lin_inv_def using o by (intro conjI exI [of _ order]) auto
  next
    case False
    from pend i False obtain X where X: "impl (threads st i) (cs ! i) X"
      "knows st i X (\<lambda>a. None)" by blast
    from impl_step [OF st X False d(1)] obtain X' where acc': "accounts st' = accounts st"
      and X': "impl (threads st' i) (cs ! i) X'" "knows st' i X' (\<lambda>a. None)" by blast
    have "i \<notin> set order" using o(2) False by simp
    show ?thesis
    proof (cases "nolock (threads st' i)")
      case True
      let ?order = "order @ [i]"
      from settles_effect [OF inv inv' i False True acc' X' others o(3)]
      have s: "settles ?n st' (serialState cs ?order M)"
        "fst (effect st' i) = fst (specOp (cs ! i) (serialState cs order M))" by simp_all
      have "set ?order = {j. j < ?n \<and> nolock (threads st' j)}"
        using o(2) i True thr by auto (metis thr)+
      moreover have "serialOutcome cs ?order M j = Some (fst (effect st' j))"
        if "j \<in> set ?order" for j
        using that o(2,4) eff s(2) \<open>i \<notin> set order\<close> by (auto simp: serialOutcome_append)
      moreover have "distinct ?order" using o(1) \<open>i \<notin> set order\<close> by simp
      ultimately show ?thesis
        unfolding lin_inv_def using s(1) pend' True
        by (intro conjI exI [of _ ?order]) (blast | metis)+
    next
      case nl': False
      have "set order = {j. j < ?n \<and> nolock (threads st' j)}"
        using o(2) False nl' thr by (auto) (metis thr)+
      moreover have "settles ?n st' (serialState cs order M)"
        by (rule settles_idle [OF o(3) acc' i False nl' others])
      moreover have "\<forall>j \<in> set order. serialOutcome cs order M j = Some (fst (effect st' j))"
      proof
        fix j assume j: "j \<in> set order"
        with \<open>i \<notin> set order\<close> o(2) have "j < ?n" "j \<noteq> i" "nolock (threads st j)" by auto
        from eff [OF this] o(4) j show "serialOutcome cs order M j = Some (fst (effect st' j))"
          by simp
      qed
      ultimately show ?thesis
        unfolding lin_inv_def using o(1) pend' X'
        by (intro conjI exI [of _ order]) (blast | metis)+
    qed
  qed
qed

lemma lin_start:
  assumes "\<forall>c \<in> set cs. admissible c"
  shows "lin_inv cs M (startBank M cs)"
proof -
  let ?st = "startBank M cs" and ?n = "length cs"
  let ?order = "filter (\<lambda>i. nolock (body (cs ! i))) [0..<?n]"
  have im: "impl (body (cs ! i)) (cs ! i) (\<lambda>a. None)" if "i < ?n" for i
    using assms that by (simp add: body_impl)
  have thr: "threads ?st i = body (cs ! i)" if "i < ?n" for i
    using that by (simp add: startBank_def)
  have nop: "specOp (cs ! i) N = solo (body (cs ! i)) N" if "i < ?n" "nolock (body (cs ! i))" for i N
    using impl_settled [OF im [OF that(1)] that(2)] by (simp add: settled_def fits_def)
  have ret: "solo (body c) N = (Inr (RBool False), N)" if "nolock (body c)" for c N
    using that by (cases c) (auto simp: bank_method_defs split: if_splits)
  have order: "\<forall>i \<in> set is. i < ?n \<and> nolock (body (cs ! i)) \<Longrightarrow>
      serialState cs is N = N \<and>
      (\<forall>i \<in> set is. serialOutcome cs is N i = Some (Inr (RBool False)))" for "is" N
    by (induction "is" arbitrary: N) (auto simp: nop ret)
  have so: "set ?order = {i. i < ?n \<and> nolock (threads ?st i)}" using thr by auto
  have "\<forall>i \<in> set ?order. i < ?n \<and> nolock (body (cs ! i))" by simp
  from order [OF this, of M] have ss: "serialState cs ?order M = M"
    "\<forall>i \<in> set ?order. serialOutcome cs ?order M i = Some (Inr (RBool False))" by blast+
  have "settles ?n ?st M"
    by (simp add: settles_def working_def inside_def held_def) (simp add: startBank_def)
  moreover have "\<forall>i \<in> set ?order. serialOutcome cs ?order M i = Some (fst (effect ?st i))"
    using ss(2) thr ret by (auto simp: effect_def)
  moreover have "\<forall>i < ?n. \<not> nolock (threads ?st i) \<longrightarrow>
      (\<exists>X. impl (threads ?st i) (cs ! i) X \<and> knows ?st i X (\<lambda>a. None))"
    using im thr by (intro allI impI exI [of _ "\<lambda>a. None"]) (simp add: knows_def)
  ultimately show ?thesis
    unfolding lin_inv_def using so ss(1)
    by (intro conjI exI [of _ ?order]) auto
qed

interpretation linear: invariant "safeInit m cs" "bankStep (length cs)"
  "\<lambda>st. bank_inv (length cs) st \<and> lin_inv cs m st"
  for m cs
proof unfold_locales
  show "bank_inv (length cs) st \<and> lin_inv cs m st" if "safeInit m cs st" for st
    using that lin_start bank_init_inv by (auto simp: safeInit_def bankInit_def)
qed (auto intro: bank_step_inv lin_step)

fun outcome :: "prog \<Rightarrow> result go option" where
  "outcome (Ret r) = Some (Inr r)"
| "outcome (Panic f) = Some (Inl f)"
| "outcome _ = None"

text \<open>C11. The bank is serializable: when concurrent calls (withdrawals of non-negative
  amounts) have all returned, there is an order of the calls such that making them one
  after the other, each in one step, gives every call the outcome it had and leaves the
  same balances.\<close>

theorem bank_serializable:
  assumes "\<forall>c \<in> set cs. admissible c"
    and "run_actions (bankStep (length cs)) sched (startBank m cs) = Some st"
    and "\<forall>i < length cs. finished (threads st i)"
  shows "\<exists>order. distinct order \<and> set order = {..<length cs} \<and>
    accounts st = serialState cs order m \<and>
    (\<forall>i < length cs. outcome (threads st i) = serialOutcome cs order m i)"
proof -
  let ?n = "length cs"
  from linear.reachable_inv [OF reachable_run [OF start_reachable [OF assms(1)] assms(2)]]
  have inv: "bank_inv ?n st" and lin: "lin_inv cs m st" by blast+
  have nl: "nolock (threads st i)" "outcome (threads st i) = Some (fst (effect st i))"
    "held st i = {}" if "i < ?n" for i
  proof -
    from bank_inv_thread [OF inv that] obtain X W where
      "disciplined (threads st i) (held st i) X W" by blast
    with assms(3) that show "nolock (threads st i)"
      "outcome (threads st i) = Some (fst (effect st i))" "held st i = {}"
      by (cases "threads st i"; force simp: effect_def)+
  qed
  from lin obtain order where o: "distinct order"
      "set order = {i. i < ?n \<and> nolock (threads st i)}"
      "settles ?n st (serialState cs order m)"
      "\<forall>i \<in> set order. serialOutcome cs order m i = Some (fst (effect st i))"
    unfolding lin_inv_def by blast
  from o(2) nl have "set order = {..<?n}" by auto
  moreover have "accounts st = serialState cs order m"
    using o(3) nl by (auto simp: settles_def working_def inside_def fun_eq_iff)
  moreover have "\<forall>i < ?n. outcome (threads st i) = serialOutcome cs order m i"
    using o(2,4) nl by auto
  ultimately show ?thesis using o(1) by blast
qed

definition serialDemo :: "nat list" where
  "serialDemo = replicate 4 0 @ replicate 4 1 @ [2, 2, 2, 2, 3, 3, 3, 3, 3, 3] @
     replicate 3 3 @ replicate 9 2"

lemma serialDemo_run:
  "case run_actions (bankStep 4) serialDemo (startBank BankInit demoCalls) of
     None \<Rightarrow> False | Some st \<Rightarrow> list_all (\<lambda>i. finished (threads st i)) [0..<4]"
  by code_simp

theorem bank_serializable_witness:
  "\<exists>st order. run_actions (bankStep 4) serialDemo (startBank BankInit demoCalls) = Some st \<and>
     set order = {..<4} \<and> accounts st = serialState demoCalls order BankInit"
proof -
  obtain st where st: "run_actions (bankStep 4) serialDemo (startBank BankInit demoCalls) = Some st"
    and "list_all (\<lambda>i. finished (threads st i)) [0..<4]"
    using serialDemo_run by (auto split: option.splits)
  then have f: "\<forall>i < 4. finished (threads st i)" by (auto simp: list_all_iff)
  have n: "length demoCalls = 4" by (simp add: demoCalls_def)
  have "\<forall>c \<in> set demoCalls. admissible c" by (simp add: demoCalls_def)
  from bank_serializable [OF this, unfolded n, OF st f] st show ?thesis by blast
qed

section \<open>Money is conserved\<close>

definition transferOnly :: "bankMethod \<Rightarrow> bool" where
  "transferOnly c = (case c of TransferCall a b x ov \<Rightarrow> True | GetBalanceCall a \<Rightarrow> True | _ \<Rightarrow> False)"

definition total :: "int set \<Rightarrow> Bank \<Rightarrow> 64 word" where
  "total A M = (\<Sum>a \<in> A. case M a of None \<Rightarrow> 0 | Some b \<Rightarrow> b)"

lemma total_update:
  "finite A \<Longrightarrow> a \<in> A \<Longrightarrow> M a = Some b \<Longrightarrow> total A (M(a \<mapsto> w)) = total A M - b + w"
  unfolding total_def by (subst (1 2) sum.remove [of A a]) (auto intro!: sum.cong)

lemma transfer_total:
  assumes "transferOnly c" and "finite A" and "dom M \<subseteq> A"
  shows "total A (snd (specOp c M)) = total A M \<and> dom (snd (specOp c M)) = dom M"
proof (cases c)
  case (TransferCall a b x ov)
  show ?thesis
  proof (cases "M a = None \<or> M b = None \<or> a = b")
    case True
    with TransferCall show ?thesis by (auto split: option.splits)
  next
    case False
    then obtain s r where sr: "M a = Some s" "M b = Some r" "a \<noteq> b" by auto
    with assms(3) have "a \<in> A" "b \<in> A" by auto
    with sr assms(2) have "total A (M(a \<mapsto> s - x, b \<mapsto> r + x)) = total A M"
      by (simp add: total_update)
    with TransferCall sr show ?thesis by auto
  qed
qed (use assms(1) in \<open>auto simp: transferOnly_def split: option.splits\<close>)

lemma serial_total:
  assumes "\<forall>c \<in> set cs. transferOnly c" and "finite A"
  shows "set order \<subseteq> {..<length cs} \<Longrightarrow> dom M \<subseteq> A \<Longrightarrow>
    total A (serialState cs order M) = total A M"
proof (induction order arbitrary: M)
  case (Cons i order)
  then have "transferOnly (cs ! i)" using assms(1) by simp
  from transfer_total [OF this assms(2) Cons.prems(2)] Cons show ?case by simp
qed simp

text \<open>C14. Concurrent transfers and balance queries neither create nor destroy money: when
  all have returned, the sum of the balances (of the machine integers, modulo 2 to the
  64) is what it was.\<close>

theorem transfers_conserve_money:
  assumes "\<forall>c \<in> set cs. transferOnly c"
    and "run_actions (bankStep (length cs)) sched (startBank m cs) = Some st"
    and "\<forall>i < length cs. finished (threads st i)"
    and "finite (dom m)"
  shows "total (dom m) (accounts st) = total (dom m) m"
proof -
  have "\<forall>c \<in> set cs. admissible c"
  proof
    fix c assume "c \<in> set cs"
    with assms(1) have "transferOnly c" by blast
    then show "admissible c" by (cases c) (auto simp: transferOnly_def)
  qed
  from linear.reachable_inv [OF reachable_run [OF start_reachable [OF this] assms(2)]]
  have inv: "bank_inv (length cs) st" and lin: "lin_inv cs m st" by blast+
  from lin obtain order where o: "set order = {i. i < length cs \<and> nolock (threads st i)}"
      "settles (length cs) st (serialState cs order m)"
    unfolding lin_inv_def by blast
  have "held st i = {}" if "i < length cs" for i
  proof -
    from bank_inv_thread [OF inv that] obtain X W where
      "disciplined (threads st i) (held st i) X W" by blast
    with assms(3) that show ?thesis by (cases "threads st i") force+
  qed
  with o(2) have "accounts st = serialState cs order m"
    by (auto simp: settles_def working_def inside_def fun_eq_iff)
  with serial_total [OF assms(1,4), of order m] o(1) show ?thesis by auto
qed

definition twoAccounts :: Bank where
  "twoAccounts = BankInit(1 \<mapsto> 10, 2 \<mapsto> 20)"

definition transferCalls :: "bankMethod list" where
  "transferCalls = [TransferCall 1 2 5 False, TransferCall 2 1 7 False]"

lemma transfers_run:
  "case run_actions (bankStep 2) (replicate 4 0 @ replicate 13 1 @ replicate 9 0)
        (startBank twoAccounts transferCalls) of
     None \<Rightarrow> False | Some st \<Rightarrow> list_all (\<lambda>i. finished (threads st i)) [0..<2]"
  by code_simp

theorem transfers_conserve_money_witness:
  "\<exists>sched st. run_actions (bankStep 2) sched (startBank twoAccounts transferCalls) = Some st \<and>
     total {1, 2} (accounts st) = 30"
proof -
  obtain sched st where st: "run_actions (bankStep 2) sched (startBank twoAccounts transferCalls)
      = Some st" and "list_all (\<lambda>i. finished (threads st i)) [0..<2]"
    using transfers_run by (auto split: option.splits)
  then have f: "\<forall>i < 2. finished (threads st i)" by (auto simp: list_all_iff)
  have n: "length transferCalls = 2" by (simp add: transferCalls_def)
  have "\<forall>c \<in> set transferCalls. transferOnly c" by (simp add: transferCalls_def transferOnly_def)
  moreover have d: "dom twoAccounts = {1, 2}" by (auto simp: twoAccounts_def BankInit_def)
  ultimately have "total {1, 2} (accounts st) = total {1, 2} twoAccounts"
    using transfers_conserve_money [of transferCalls sched twoAccounts st, unfolded n] st f
    by simp
  then show ?thesis using st by (auto simp: total_def twoAccounts_def BankInit_def)
qed

end
