(* ===== verification/GoStrings.thy ===== *)
theory GoStrings
  imports Prelude "HOL-Library.Char_ord" "HOL-Library.List_Lexorder"
begin

text \<open>
  The parts of Go's strconv, fmt, strings and sort the programs use, on strings as lists of
  bytes: decimal numbers as \<open>strconv.Itoa\<close> and \<open>%d\<close> print them and as \<open>fmt.Sscanf\<close> and
  \<open>strconv.Atoi\<close> read them, splitting, joining, and sorting by the order of the bytes.
\<close>

section \<open>Decimal numbers\<close>

definition digitChar :: "nat \<Rightarrow> char" where
  "digitChar d = char_of (48 + d)"

definition isDigit :: "char \<Rightarrow> bool" where
  "isDigit c \<longleftrightarrow> 48 \<le> (of_char c :: nat) \<and> (of_char c :: nat) \<le> 57"

definition digitVal :: "char \<Rightarrow> nat" where
  "digitVal c = of_char c - 48"

fun showNat :: "nat \<Rightarrow> string" where
  "showNat n = (if n < 10 then [digitChar n] else showNat (n div 10) @ [digitChar (n mod 10)])"

declare showNat.simps [simp del]

definition Itoa :: "int \<Rightarrow> string" where
  "Itoa n = (if n < 0 then CHR ''-'' # showNat (nat (- n)) else showNat (nat n))"

fun decimal :: "nat \<Rightarrow> string \<Rightarrow> nat" where
  "decimal n [] = n"
| "decimal n (c # cs) = decimal (10 * n + digitVal c) cs"

lemma decimal_append: "decimal n (xs @ ys) = decimal (decimal n xs) ys"
  by (induction n xs rule: decimal.induct) auto

lemma digitChar_val [simp]: "d < 10 \<Longrightarrow> digitVal (digitChar d) = d \<and> isDigit (digitChar d)"
  by (simp add: digitVal_def digitChar_def isDigit_def of_char_of)

lemma showNat_digits: "\<forall>c \<in> set (showNat n). isDigit c"
proof (induction n rule: showNat.induct)
  case (1 n)
  then show ?case by (subst showNat.simps) auto
qed

lemma showNat_nonempty [simp]: "showNat n \<noteq> []"
  by (subst showNat.simps) simp

lemma decimal_showNat [simp]: "decimal 0 (showNat n) = n"
proof (induction n rule: showNat.induct)
  case (1 n)
  then show ?case by (subst showNat.simps) (simp add: decimal_append)
qed

lemma showNat_inj [simp]: "showNat m = showNat n \<longleftrightarrow> m = n"
  by (metis decimal_showNat)

lemma takeWhile_showNat:
  "\<not> isDigit c \<Longrightarrow> takeWhile isDigit (showNat n @ c # r) = showNat n \<and>
     dropWhile isDigit (showNat n @ c # r) = c # r"
  using showNat_digits [of n] by (simp add: takeWhile_append dropWhile_append)

lemma takeWhile_showNat_end:
  "takeWhile isDigit (showNat n) = showNat n \<and> dropWhile isDigit (showNat n) = []"
  using showNat_digits [of n] by (simp add: takeWhile_eq_all_conv)

text \<open>An \<open>int\<close> has 64 bits; a number that does not fit is an error of the reader.\<close>

definition inInt :: "int \<Rightarrow> bool" where
  "inInt n \<longleftrightarrow> - (2 ^ 63) \<le> n \<and> n < 2 ^ 63"

text \<open>\<open>%d\<close> of Sscanf: blanks, an optional sign, then digits up to the first other byte.\<close>

definition isBlank :: "char \<Rightarrow> bool" where
  "isBlank c \<longleftrightarrow> c = CHR '' '' \<or> c = CHR 0x09"

definition unsignedPart :: "string \<Rightarrow> (nat \<times> string) option" where
  "unsignedPart s =
     (let ds = takeWhile isDigit s in
      if ds = [] then None else Some (decimal 0 ds, dropWhile isDigit s))"

definition scanInt :: "string \<Rightarrow> (int \<times> string) option" where
  "scanInt s0 =
     (let s = dropWhile isBlank s0;
          neg = (s \<noteq> [] \<and> hd s = CHR ''-'');
          signed = (s \<noteq> [] \<and> (hd s = CHR ''-'' \<or> hd s = CHR ''+''))
      in case unsignedPart (if signed then tl s else s) of
           None \<Rightarrow> None
         | Some (n, rest) \<Rightarrow>
             (let v = (if neg then - int n else int n) in
              if inInt v then Some (v, rest) else None))"

fun scanLiteral :: "string \<Rightarrow> string \<Rightarrow> string option" where
  "scanLiteral [] s = Some s"
| "scanLiteral (c # cs) (d # s) = (if c = d then scanLiteral cs s else None)"
| "scanLiteral (c # cs) [] = None"

text \<open>\<open>strconv.Atoi\<close>: an optional sign and digits only.\<close>

definition Atoi :: "string \<Rightarrow> int option" where
  "Atoi s =
     (let neg = (s \<noteq> [] \<and> hd s = CHR ''-'');
          signed = (s \<noteq> [] \<and> (hd s = CHR ''-'' \<or> hd s = CHR ''+''))
      in case unsignedPart (if signed then tl s else s) of
           Some (n, []) \<Rightarrow>
             (let v = (if neg then - int n else int n) in if inInt v then Some v else None)
         | _ \<Rightarrow> None)"

lemma digit_not_sign:
  assumes "isDigit c"
  shows "c \<noteq> CHR ''-'' \<and> c \<noteq> CHR ''+'' \<and> \<not> isBlank c"
  using assms by (auto simp: isDigit_def isBlank_def)

lemma showNat_Cons: obtains c cs where "showNat n = c # cs" "isDigit c"
  using showNat_digits [of n] showNat_nonempty [of n] by (cases "showNat n") auto

definition small :: "nat \<Rightarrow> bool" where
  "small n \<longleftrightarrow> int n < 2 ^ 63"

lemma small_le: "small n \<Longrightarrow> m \<le> n \<Longrightarrow> small m"
  unfolding small_def by linarith

lemma small_inInt: "small n \<Longrightarrow> inInt (int n)"
  unfolding small_def inInt_def by linarith

lemma scanInt_showNat:
  assumes "small n" and "\<not> isDigit c"
  shows "scanInt (showNat n @ c # r) = Some (int n, c # r)"
proof -
  obtain d ds where s: "showNat n = d # ds" "isDigit d" by (rule showNat_Cons)
  with digit_not_sign [OF s(2)] have "dropWhile isBlank (showNat n @ c # r) = showNat n @ c # r"
    "hd (showNat n @ c # r) \<noteq> CHR ''-''" "hd (showNat n @ c # r) \<noteq> CHR ''+''" by simp_all
  moreover have "unsignedPart (showNat n @ c # r) = Some (n, c # r)"
    using takeWhile_showNat [OF assms(2), of n r] by (simp add: unsignedPart_def)
  ultimately show ?thesis using small_inInt [OF assms(1)] by (simp add: scanInt_def Let_def)
qed

lemma Atoi_showNat: "small n \<Longrightarrow> Atoi (showNat n) = Some (int n)"
proof -
  assume b: "small n"
  obtain d ds where s: "showNat n = d # ds" "isDigit d" by (rule showNat_Cons)
  with digit_not_sign [OF s(2)] have
    "hd (showNat n) \<noteq> CHR ''-''" "hd (showNat n) \<noteq> CHR ''+''" by simp_all
  moreover have "unsignedPart (showNat n) = Some (n, [])"
    unfolding unsignedPart_def conjunct1 [OF takeWhile_showNat_end]
      conjunct2 [OF takeWhile_showNat_end] by simp
  ultimately show ?thesis using small_inInt [OF b] by (simp add: Atoi_def Let_def)
qed

section \<open>Splitting, joining, sorting\<close>

text \<open>\<open>strings.Split\<close> at a one-byte separator; there is always at least one field.\<close>

fun Split :: "string \<Rightarrow> char \<Rightarrow> string list" where
  "Split [] sep = [[]]"
| "Split (c # s) sep =
     (if c = sep then [] # Split s sep
      else case Split s sep of [] \<Rightarrow> [[c]] | f # fs \<Rightarrow> (c # f) # fs)"

fun Join :: "string list \<Rightarrow> string \<Rightarrow> string" where
  "Join [] sep = []"
| "Join [s] sep = s"
| "Join (s # t # ss) sep = s @ sep @ Join (t # ss) sep"

text \<open>\<open>strings.FieldsFunc\<close>: the maximal runs of characters that are not separators.\<close>

fun fieldsFrom :: "(char \<Rightarrow> bool) \<Rightarrow> string \<Rightarrow> string \<Rightarrow> string list" where
  "fieldsFrom f [] cur = (if cur = [] then [] else [rev cur])"
| "fieldsFrom f (c # s) cur =
     (if f c then (if cur = [] then fieldsFrom f s [] else rev cur # fieldsFrom f s [])
      else fieldsFrom f s (c # cur))"

definition FieldsFunc :: "string \<Rightarrow> (char \<Rightarrow> bool) \<Rightarrow> string list" where
  "FieldsFunc s f = fieldsFrom f s []"

text \<open>\<open>sort.Strings\<close>: equal strings are indistinguishable, so stability does not matter.\<close>

definition sortStrings :: "string list \<Rightarrow> string list" where
  "sortStrings ss = sort ss"

lemma sortStrings_perm: "mset xs = mset ys \<Longrightarrow> sortStrings xs = sortStrings ys"
  unfolding sortStrings_def by (rule properties_for_sort) simp_all

lemma concat_fieldsFrom:
  "\<forall>c \<in> set cur. \<not> f c \<Longrightarrow>
     concat (fieldsFrom f s cur) = rev cur @ filter (\<lambda>c. \<not> f c) s"
  by (induction f s cur rule: fieldsFrom.induct) auto

lemma Split_nonempty [simp]: "Split s sep \<noteq> []"
  by (induction s sep rule: Split.induct) (auto split: list.splits)

lemma Join_Split: "Join (Split s sep) [sep] = s"
proof (induction s sep rule: Split.induct)
  case (2 c s sep)
  show ?case
  proof (cases "Split s sep")
    case Nil
    then show ?thesis using Split_nonempty [of s sep] by simp
  next
    case (Cons f fs)
    with 2 show ?thesis by (cases fs) auto
  qed
qed simp

end
