(* ===== verification/Coordinator.thy ===== *)
theory Coordinator
  imports GoStrings
begin

text \<open>
  mr/coordinator.go and the messages of mr/rpc.go: the coordinator hands out map and
  reduce tasks and records their completion. Each RPC handler runs under the mutex, so it
  is one function of the state. \<open>now\<close> is the wall clock in nanoseconds since Go's zero
  time, which is the start time of a task nobody has taken.
\<close>

section \<open>Data\<close>

definition MapTask :: int where "MapTask = 0"
definition ReduceTask :: int where "ReduceTask = 1"
definition AllDone :: int where "AllDone = 2"
definition SleepABit :: int where "SleepABit = 3"

definition Unassigned :: int where "Unassigned = 3"
definition InProgress :: int where "InProgress = 4"
definition Completed :: int where "Completed = 5"

lemmas task_consts [simp] =
  MapTask_def ReduceTask_def AllDone_def SleepABit_def Unassigned_def InProgress_def Completed_def

record TypeAndTasks =
  Idx :: int
  AllFilenames :: "string list"
  Status :: int
  Type :: int
  StartTime :: int

record Coordinator =
  mapTasks :: "TypeAndTasks list"
  reduceTasks :: "TypeAndTasks list"
  nReduce :: int
  mapDone :: bool
  reduceDone :: bool

record RequestTaskReply =
  replyType :: int
  TaskIndex :: int
  Filenames :: "string list"
  NReduce :: int

record ReportTaskDoneArgs =
  doneType :: int
  doneIndex :: int
  IntermediateFilenames :: "string list"

definition zeroTaskReply :: RequestTaskReply where
  "zeroTaskReply = \<lparr>replyType = 0, TaskIndex = 0, Filenames = [], NReduce = 0\<rparr>"

section \<open>Handing out tasks\<close>

fun allTasksDone :: "TypeAndTasks list \<Rightarrow> bool" where
  "allTasksDone [] = True"
| "allTasksDone (task # ts) = (if Status task \<noteq> Completed then False else allTasksDone ts)"

definition allMapTasksDone :: "Coordinator \<Rightarrow> bool" where
  "allMapTasksDone c = allTasksDone (mapTasks c)"

definition allReduceTasksDone :: "Coordinator \<Rightarrow> bool" where
  "allReduceTasksDone c = allTasksDone (reduceTasks c)"

text \<open>The loop over the tasks: the first one that is free and has not started lately.\<close>

fun findTask :: "TypeAndTasks list \<Rightarrow> int \<Rightarrow> nat \<Rightarrow> nat option" where
  "findTask [] timeoutTime i = None"
| "findTask (task # ts) timeoutTime i =
     (if Status task = Unassigned \<and> StartTime task < timeoutTime then Some i
      else findTask ts timeoutTime (Suc i))"

definition take_task :: "TypeAndTasks list \<Rightarrow> nat \<Rightarrow> int \<Rightarrow> TypeAndTasks list" where
  "take_task ts i now = ts[i := (ts ! i)\<lparr>Status := InProgress, StartTime := now\<rparr>]"

definition offer :: "int \<Rightarrow> TypeAndTasks list \<Rightarrow> nat \<Rightarrow> int \<Rightarrow> RequestTaskReply" where
  "offer kind ts i nR =
     \<lparr>replyType = kind, TaskIndex = int i, Filenames = AllFilenames (ts ! i), NReduce = nR\<rparr>"

definition tenSeconds :: int where
  "tenSeconds = 10 * 1000000000"

definition RequestTask :: "int \<Rightarrow> Coordinator \<Rightarrow> Coordinator \<times> RequestTaskReply" where
  "RequestTask now c =
     (case (if \<not> allMapTasksDone c then findTask (mapTasks c) (now - tenSeconds) 0 else None) of
        Some i \<Rightarrow>
          (c\<lparr>mapTasks := take_task (mapTasks c) i now\<rparr>, offer MapTask (mapTasks c) i (nReduce c))
      | None \<Rightarrow>
         (let reply = (if \<not> allMapTasksDone c then zeroTaskReply\<lparr>replyType := SleepABit\<rparr>
                       else zeroTaskReply);
              c1 = (if allMapTasksDone c \<and> \<not> mapDone c then c\<lparr>mapDone := True\<rparr> else c)
          in if allMapTasksDone c1 \<and> \<not> allReduceTasksDone c1 then
               (case findTask (reduceTasks c1) (now - tenSeconds) 0 of
                  Some i \<Rightarrow>
                    (c1\<lparr>reduceTasks := take_task (reduceTasks c1) i now\<rparr>,
                     offer ReduceTask (reduceTasks c1) i (nReduce c1))
                | None \<Rightarrow>
                    (let reply1 = reply\<lparr>replyType := ReduceTask\<rparr>;
                         reply2 = reply1\<lparr>replyType := SleepABit\<rparr>
                     in (c1, reply2\<lparr>replyType := AllDone\<rparr>)))
             else (c1, reply\<lparr>replyType := AllDone\<rparr>)))"

section \<open>Recording completed tasks\<close>

text \<open>\<open>Sscanf(filename, "mr-%d-%d", &x, &y)\<close>.\<close>

definition scanTaskName :: "string \<Rightarrow> (int \<times> int) option" where
  "scanTaskName filename =
     (case scanLiteral ''mr-'' filename of
        None \<Rightarrow> None
      | Some s1 \<Rightarrow>
         (case scanInt s1 of
            None \<Rightarrow> None
          | Some (x, s2) \<Rightarrow>
             (case scanLiteral ''-'' s2 of
                None \<Rightarrow> None
              | Some s3 \<Rightarrow>
                 (case scanInt s3 of
                    None \<Rightarrow> None
                  | Some (y, _) \<Rightarrow> Some (x, y)))))"

definition extractReduceTaskIndex :: "string \<Rightarrow> int go" where
  "extractReduceTaskIndex filename =
     (case scanTaskName filename of
        None \<Rightarrow> Inl (Fatal ''Failed to parse filename'')
      | Some (x, y) \<Rightarrow> Inr y)"

fun addFiles :: "string list \<Rightarrow> TypeAndTasks list \<Rightarrow> TypeAndTasks list go" where
  "addFiles [] ts = Inr ts"
| "addFiles (filename # fs) ts =
     (case extractReduceTaskIndex filename of
        Inl e \<Rightarrow> Inl e
      | Inr reduceTaskIndex \<Rightarrow>
         (case go_index ts reduceTaskIndex of
            Inl e \<Rightarrow> Inl e
          | Inr t \<Rightarrow>
              addFiles fs (ts[nat reduceTaskIndex :=
                             t\<lparr>AllFilenames := AllFilenames t @ [filename]\<rparr>])))"

definition completeTask :: "TypeAndTasks list \<Rightarrow> int \<Rightarrow> TypeAndTasks list go" where
  "completeTask ts i =
     (case go_index ts i of
        Inl e \<Rightarrow> Inl e
      | Inr t \<Rightarrow> Inr (ts[nat i := t\<lparr>Status := Completed\<rparr>]))"

text \<open>The result is the coordinator, the reply's task type, and whether no error is returned.\<close>

definition ReportTaskDone ::
  "ReportTaskDoneArgs \<Rightarrow> Coordinator \<Rightarrow> (Coordinator \<times> int \<times> bool) go" where
  "ReportTaskDone args c =
     (if allMapTasksDone c \<and> allReduceTasksDone c then Inr (c, AllDone, True)
      else if doneType args = MapTask then
        (case completeTask (mapTasks c) (doneIndex args) of
           Inl e \<Rightarrow> Inl e
         | Inr mts \<Rightarrow>
            (case addFiles (IntermediateFilenames args) (reduceTasks c) of
               Inl e \<Rightarrow> Inl e
             | Inr rts \<Rightarrow> Inr (c\<lparr>mapTasks := mts, reduceTasks := rts\<rparr>, 0, True)))
      else if doneType args = ReduceTask then
        (case completeTask (reduceTasks c) (doneIndex args) of
           Inl e \<Rightarrow> Inl e
         | Inr rts \<Rightarrow> Inr (c\<lparr>reduceTasks := rts\<rparr>, 0, True))
      else Inr (c, 0, False))"

definition Example :: "int \<Rightarrow> int" where
  "Example X = X + 1"

fun statusLoop :: "TypeAndTasks list \<Rightarrow> bool" where
  "statusLoop [] = True"
| "statusLoop (task # ts) = (if Status task = Completed then statusLoop ts else False)"

definition Done :: "Coordinator \<Rightarrow> bool" where
  "Done c =
     (let mapTasksDone = statusLoop (mapTasks c)
      in if \<not> mapTasksDone then False
         else let reduceTasksDone = statusLoop (reduceTasks c)
              in if \<not> reduceTasksDone then False else mapTasksDone \<and> reduceTasksDone)"

definition MakeCoordinator :: "string list \<Rightarrow> nat \<Rightarrow> Coordinator" where
  "MakeCoordinator files nR =
     \<lparr>mapTasks = map (\<lambda>(i, file). \<lparr>Idx = int i, AllFilenames = [file], Status = Unassigned,
                                   Type = MapTask, StartTime = 0\<rparr>)
                     (enumerate 0 files),
      reduceTasks = map (\<lambda>i. \<lparr>Idx = int i, AllFilenames = [], Status = Unassigned,
                             Type = ReduceTask, StartTime = 0\<rparr>) [0..<nR],
      nReduce = int nR, mapDone = False, reduceDone = False\<rparr>"

text \<open>\<open>fmt.Sprintf("mr-%d-%d.json", taskIndex, i)\<close>, the name a worker gives.\<close>

definition intermediateName :: "nat \<Rightarrow> nat \<Rightarrow> string" where
  "intermediateName taskIndex i =
     ''mr-'' @ Itoa (int taskIndex) @ ''-'' @ Itoa (int i) @ ''.json''"

section \<open>Lemmas\<close>

lemma allTasksDone_iff: "allTasksDone ts \<longleftrightarrow> (\<forall>t \<in> set ts. Status t = Completed)"
  by (induction ts) auto

lemma statusLoop_iff: "statusLoop ts \<longleftrightarrow> (\<forall>t \<in> set ts. Status t = Completed)"
  by (induction ts) auto

lemma Done_iff: "Done c \<longleftrightarrow> allMapTasksDone c \<and> allReduceTasksDone c"
  by (simp add: Done_def Let_def statusLoop_iff allTasksDone_iff allMapTasksDone_def
      allReduceTasksDone_def)

lemma findTask_Some:
  "findTask ts tt k = Some i \<Longrightarrow>
     k \<le> i \<and> i < k + length ts \<and> Status (ts ! (i - k)) = Unassigned \<and>
     StartTime (ts ! (i - k)) < tt"
proof (induction ts tt k rule: findTask.induct)
  case (2 task ts tt k)
  show ?case
  proof (cases "Status task = Unassigned \<and> StartTime task < tt")
    case True
    with "2.prems" show ?thesis by simp
  next
    case False
    then have "findTask (task # ts) tt k = findTask ts tt (Suc k)" by auto
    with 2 False have "Suc k \<le> i \<and> i < Suc k + length ts \<and> Status (ts ! (i - Suc k)) = Unassigned \<and>
      StartTime (ts ! (i - Suc k)) < tt" by simp
    then show ?thesis by (simp add: nth_Cons' Suc_diff_le)
  qed
qed simp

lemma findTask_None:
  "findTask ts tt k = None \<longleftrightarrow>
     (\<forall>t \<in> set ts. Status t = Unassigned \<longrightarrow> tt \<le> StartTime t)"
  by (induction ts tt k rule: findTask.induct) auto

text \<open>The name of an intermediate file is read back.\<close>

lemma dot_not_digit: "\<not> isDigit (CHR ''.'')" "\<not> isDigit (CHR ''-'')"
  by (simp_all add: isDigit_def)

lemma scanTaskName_name:
  assumes "small x" and "small y"
  shows "scanTaskName (intermediateName x y) = Some (int x, int y)"
proof -
  have "scanLiteral ''mr-'' (intermediateName x y)
      = Some (showNat x @ CHR ''-'' # showNat y @ ''.json'')"
    by (simp add: intermediateName_def Itoa_def)
  moreover have "scanInt (showNat x @ CHR ''-'' # showNat y @ ''.json'')
      = Some (int x, CHR ''-'' # showNat y @ ''.json'')"
    by (rule scanInt_showNat [OF assms(1) dot_not_digit(2)])
  moreover have "scanInt (showNat y @ ''.json'') = Some (int y, ''.json'')"
    by (rule scanInt_showNat [OF assms(2) dot_not_digit(1)])
  ultimately show ?thesis by (simp add: scanTaskName_def)
qed

lemma extract_name:
  "small x \<Longrightarrow> small y \<Longrightarrow> extractReduceTaskIndex (intermediateName x y) = Inr (int y)"
  by (simp add: extractReduceTaskIndex_def scanTaskName_name)

lemma intermediateName_inj:
  assumes "intermediateName x y = intermediateName x' y'"
    and "small x" and "small y" and "small x'" and "small y'"
  shows "x = x' \<and> y = y'"
proof -
  from assms(1) have "scanTaskName (intermediateName x y) = scanTaskName (intermediateName x' y')"
    by (rule arg_cong)
  then show ?thesis
    unfolding scanTaskName_name [OF assms(2,3)] scanTaskName_name [OF assms(4,5)] by simp
qed

text \<open>A worker's report adds one file name to every reduce task, in order.\<close>

definition reportNames :: "nat \<Rightarrow> nat \<Rightarrow> string list" where
  "reportNames m nR = map (intermediateName m) [0..<nR]"

definition addFile :: "string \<Rightarrow> TypeAndTasks \<Rightarrow> TypeAndTasks" where
  "addFile f t = t\<lparr>AllFilenames := AllFilenames t @ [f]\<rparr>"

lemma addFiles_from:
  assumes "small m" and "small (length ts)"
  shows "k \<le> length ts \<Longrightarrow>
    addFiles (map (intermediateName m) [k..<length ts]) ts
      = Inr (take k ts @ map (\<lambda>(r, t). addFile (intermediateName m r) t)
                           (enumerate k (drop k ts)))"
  using assms(2)
proof (induction "length ts - k" arbitrary: k ts)
  case 0
  then show ?case by simp
next
  case (Suc d)
  then have k: "k < length ts" by simp
  from extract_name [of m k] assms(1) k small_le [OF Suc.prems(2), of k]
  have e: "extractReduceTaskIndex (intermediateName m k) = Inr (int k)" by simp
  let ?ts = "ts[k := addFile (intermediateName m k) (ts ! k)]"
  from Suc.hyps(2) k have "d = length ?ts - Suc k" "Suc k \<le> length ?ts" "small (length ?ts)"
    using Suc.prems(2) by simp_all
  note IH = Suc.hyps(1) [OF this]
  have "[k..<length ts] = k # [Suc k..<length ts]" using k by (simp add: upt_conv_Cons)
  moreover have "go_index ts (int k) = Inr (ts ! k)" using k by (simp add: go_index_def slen_def)
  ultimately have "addFiles (map (intermediateName m) [k..<length ts]) ts
      = addFiles (map (intermediateName m) [Suc k..<length ?ts]) ?ts"
    using e by (simp add: addFile_def)
  also have "\<dots> = Inr (take (Suc k) ?ts @ map (\<lambda>(r, t). addFile (intermediateName m r) t)
                           (enumerate (Suc k) (drop (Suc k) ?ts)))" by (rule IH)
  also have "take (Suc k) ?ts = take k ts @ [addFile (intermediateName m k) (ts ! k)]"
    using k by (simp add: take_Suc_conv_app_nth)
  also have "drop (Suc k) ?ts = drop (Suc k) ts" by simp
  finally show ?case using k by (simp add: Cons_nth_drop_Suc [symmetric])
qed

lemma addFiles_report:
  assumes "small m" and "small (length ts)"
  shows "addFiles (reportNames m (length ts)) ts
    = Inr (map (\<lambda>(r, t). addFile (intermediateName m r) t) (enumerate 0 ts))"
  using addFiles_from [OF assms, of 0] by (simp add: reportNames_def)

lemma completeTask_Inr:
  "completeTask ts i = Inr ts' \<longleftrightarrow>
     0 \<le> i \<and> i < slen ts \<and> ts' = ts[nat i := (ts ! nat i)\<lparr>Status := Completed\<rparr>]"
  by (auto simp: completeTask_def go_simps split: sum.splits)

end
