(* ===== verification/Worker.thy ===== *)
theory Worker
  imports Coordinator "HOL-Library.Word"
begin

unbundle bit_operations_syntax

text \<open>
  mr/worker.go: what a worker does with a task. The directory the programs share is a map
  from names to files; a file holds the text of an input, the key/value pairs a map task
  wrote for one reduce task (one JSON value each, so reading gives back what was written),
  or the lines a reduce task wrote. Go iterates over a map in no fixed order: \<open>iter\<close> is
  the order the runtime picks.
\<close>

record KeyValue =
  Key :: string
  Value :: string

datatype content = Text string | Pairs "KeyValue list" | Lines "(string \<times> string) list"

type_synonym dir = "string \<Rightarrow> content option"

type_synonym mapFun = "string \<Rightarrow> string \<Rightarrow> KeyValue list"
type_synonym reduceFun = "string \<Rightarrow> string list \<Rightarrow> string"

section \<open>The hash of a key\<close>

fun fnv1a :: "32 word \<Rightarrow> string \<Rightarrow> 32 word" where
  "fnv1a h [] = h"
| "fnv1a h (c # cs) = fnv1a ((h XOR of_nat (of_char c)) * 16777619) cs"

definition ihash :: "string \<Rightarrow> int" where
  "ihash key = uint (fnv1a 2166136261 key AND 0x7fffffff)"

lemma ihash_bounds: "0 \<le> ihash key \<and> ihash key < 2 ^ 31"
proof -
  have "uint (w AND 0x7fffffff :: 32 word) \<le> uint (0x7fffffff :: 32 word)" for w :: "32 word"
    by (simp add: uint_and AND_upper2)
  from this [of "fnv1a 2166136261 key"] show ?thesis by (simp add: ihash_def)
qed

section \<open>Map tasks\<close>

definition bucket :: "nat \<Rightarrow> nat \<Rightarrow> KeyValue list \<Rightarrow> KeyValue list" where
  "bucket nR i kva = filter (\<lambda>kv. ihash (Key kv) mod int nR = int i) kva"

fun writeBuckets :: "nat \<Rightarrow> nat \<Rightarrow> KeyValue list \<Rightarrow> nat list \<Rightarrow> dir \<Rightarrow> dir" where
  "writeBuckets taskIndex nR kva [] d = d"
| "writeBuckets taskIndex nR kva (i # is) d =
     writeBuckets taskIndex nR kva is
       (d(intermediateName taskIndex i \<mapsto> Pairs (bucket nR i kva)))"

definition doMap ::
  "nat \<Rightarrow> string \<Rightarrow> mapFun \<Rightarrow> nat \<Rightarrow> dir \<Rightarrow> (dir \<times> string list) go" where
  "doMap taskIndex filename mapf nR d =
     (case d filename of
        Some (Text txt) \<Rightarrow>
          (let kva = mapf filename txt
           in Inr (writeBuckets taskIndex nR kva [0..<nR] d, map (intermediateName taskIndex) [0..<nR]))
      | _ \<Rightarrow> Inl (Fatal ''cannot read''))"

section \<open>Reduce tasks\<close>

type_synonym groups = "(string \<times> string list) list"

fun addPair :: "KeyValue \<Rightarrow> groups \<Rightarrow> groups" where
  "addPair kv [] = [(Key kv, [Value kv])]"
| "addPair kv ((k, vs) # g) =
     (if k = Key kv then (k, vs @ [Value kv]) # g else (k, vs) # addPair kv g)"

fun addPairs :: "KeyValue list \<Rightarrow> groups \<Rightarrow> groups" where
  "addPairs [] g = g"
| "addPairs (kv # kvs) g = addPairs kvs (addPair kv g)"

fun collectFiles :: "dir \<Rightarrow> string list \<Rightarrow> groups \<Rightarrow> groups go" where
  "collectFiles d [] g = Inr g"
| "collectFiles d (f # fs) g =
     (case d f of
        Some (Pairs kvs) \<Rightarrow> collectFiles d fs (addPairs kvs g)
      | Some _ \<Rightarrow> collectFiles d fs g
      | None \<Rightarrow> Inl (Fatal ''cannot open''))"

definition outName :: "nat \<Rightarrow> string" where
  "outName taskIndex = ''mr-out-'' @ Itoa (int taskIndex)"

definition reduceLines :: "reduceFun \<Rightarrow> groups \<Rightarrow> (string \<times> string) list" where
  "reduceLines reducef g = map (\<lambda>(key, values). (key, reducef key values)) g"

definition doReduce ::
  "nat \<Rightarrow> string list \<Rightarrow> reduceFun \<Rightarrow> (groups \<Rightarrow> groups) \<Rightarrow> dir \<Rightarrow> dir go" where
  "doReduce taskIndex filenames reducef iter d =
     (case collectFiles d filenames [] of
        Inl e \<Rightarrow> Inl e
      | Inr kvMap \<Rightarrow> Inr (d(outName taskIndex \<mapsto> Lines (reduceLines reducef (iter kvMap)))))"

section \<open>What a worker does with a reply\<close>

datatype worker =
    Asking
  | Got RequestTaskReply
  | Finished ReportTaskDoneArgs
  | Exited
  | Crashed

text \<open>The switch of \<open>Worker\<close>'s loop on a reply of the coordinator.\<close>

definition dispatch :: "RequestTaskReply \<Rightarrow> worker" where
  "dispatch reply =
     (if replyType reply = MapTask
      then (if slen (Filenames reply) > 0 then Got reply else Asking)
      else if replyType reply = ReduceTask
      then (if slen (Filenames reply) > 0 then Got reply else Asking)
      else if replyType reply = AllDone then Exited
      else if replyType reply = SleepABit then Asking
      else Asking)"

text \<open>Running the task the worker has got, up to the report it will make.\<close>

definition performTask ::
  "mapFun \<Rightarrow> reduceFun \<Rightarrow> (groups \<Rightarrow> groups) \<Rightarrow> RequestTaskReply \<Rightarrow> dir
   \<Rightarrow> (dir \<times> ReportTaskDoneArgs) go" where
  "performTask mapf reducef iter reply d =
     (if replyType reply = MapTask
      then (case doMap (nat (TaskIndex reply)) (hd (Filenames reply)) mapf (nat (NReduce reply)) d of
              Inl e \<Rightarrow> Inl e
            | Inr (d', names) \<Rightarrow>
                Inr (d', \<lparr>doneType = MapTask, doneIndex = TaskIndex reply,
                         IntermediateFilenames = names\<rparr>))
      else (case doReduce (nat (TaskIndex reply)) (Filenames reply) reducef iter d of
              Inl e \<Rightarrow> Inl e
            | Inr d' \<Rightarrow>
                Inr (d', \<lparr>doneType = replyType reply, doneIndex = TaskIndex reply,
                         IntermediateFilenames = []\<rparr>)))"

section \<open>Lemmas\<close>

definition valuesOf :: "string \<Rightarrow> KeyValue list \<Rightarrow> string list" where
  "valuesOf k kvs = map Value (filter (\<lambda>kv. Key kv = k) kvs)"

lemma valuesOf_append [simp]: "valuesOf k (xs @ ys) = valuesOf k xs @ valuesOf k ys"
  by (simp add: valuesOf_def)

text \<open>\<open>grouped kvs g\<close>: the groups hold each key of \<open>kvs\<close> once, with its values in order.\<close>

definition grouped :: "KeyValue list \<Rightarrow> groups \<Rightarrow> bool" where
  "grouped kvs g \<longleftrightarrow>
     distinct (map fst g) \<and> fst ` set g = Key ` set kvs \<and>
     (\<forall>(k, vs) \<in> set g. vs = valuesOf k kvs)"

lemma addPair_keys: "fst ` set (addPair kv g) = insert (Key kv) (fst ` set g)"
  by (induction kv g rule: addPair.induct) auto

lemma addPair_distinct: "distinct (map fst g) \<Longrightarrow> distinct (map fst (addPair kv g))"
proof (induction kv g rule: addPair.induct)
  case (2 kv k vs g)
  have "k \<notin> fst ` set (addPair kv g)" if "k \<noteq> Key kv"
    using that 2(2) addPair_keys [of kv g] by auto
  with 2 show ?case by auto
qed simp

lemma addPair_values:
  "distinct (map fst g) \<Longrightarrow> (k, vs) \<in> set (addPair kv g) \<Longrightarrow>
     (if k = Key kv
      then (k \<in> fst ` set g \<and> (\<exists>us. (k, us) \<in> set g \<and> vs = us @ [Value kv])) \<or>
           (k \<notin> fst ` set g \<and> vs = [Value kv])
      else (k, vs) \<in> set g)"
  by (induction kv g rule: addPair.induct) (force split: if_splits)+

lemma grouped_Nil [simp]: "grouped [] []"
  by (simp add: grouped_def)

lemma grouped_addPair:
  assumes "grouped kvs g"
  shows "grouped (kvs @ [kv]) (addPair kv g)"
proof -
  have v: "vs = valuesOf k (kvs @ [kv])" if m: "(k, vs) \<in> set (addPair kv g)" for k vs
  proof (cases "k = Key kv")
    case True
    with addPair_values [OF _ m] assms consider
        us where "(k, us) \<in> set g" "vs = us @ [Value kv]"
      | "k \<notin> fst ` set g" "vs = [Value kv]"
      by (auto simp: grouped_def)
    then show ?thesis
    proof cases
      case 1
      with assms True show ?thesis by (auto simp: grouped_def valuesOf_def)
    next
      case 2
      with assms have "k \<notin> Key ` set kvs" by (simp add: grouped_def)
      then have "valuesOf k kvs = []" by (auto simp: valuesOf_def filter_empty_conv)
      with 2 True show ?thesis by (simp add: valuesOf_def)
    qed
  next
    case False
    with addPair_values [OF _ m] assms have "(k, vs) \<in> set g" by (simp add: grouped_def)
    with assms False show ?thesis by (auto simp: grouped_def valuesOf_def)
  qed
  moreover have "fst ` set (addPair kv g) = Key ` set (kvs @ [kv])"
    using assms by (simp add: addPair_keys grouped_def)
  ultimately show ?thesis
    using addPair_distinct assms by (auto simp: grouped_def)
qed

lemma grouped_addPairs: "grouped kvs g \<Longrightarrow> grouped (kvs @ more_kvs) (addPairs more_kvs g)"
proof (induction more_kvs arbitrary: kvs g)
  case (Cons kv more_kvs)
  from Cons.IH [OF grouped_addPair [OF Cons.prems]] show ?case by simp
qed simp

lemma collectFiles_grouped:
  "\<forall>f \<in> set fs. d f = Some (Pairs (c f)) \<Longrightarrow> grouped kvs g \<Longrightarrow>
     \<exists>g'. collectFiles d fs g = Inr g' \<and> grouped (kvs @ concat (map c fs)) g'"
proof (induction fs arbitrary: kvs g)
  case (Cons f fs)
  from Cons.IH [OF _ grouped_addPairs [OF Cons.prems(2)]] Cons.prems(1) show ?case by fastforce
qed simp

lemma writeBuckets_other:
  "\<forall>i \<in> set is. f \<noteq> intermediateName m i \<Longrightarrow> writeBuckets m nR kva is d f = d f"
  by (induction m nR kva "is" d rule: writeBuckets.induct) auto

lemma writeBuckets_bucket:
  assumes "i \<in> set is" and "\<forall>i \<in> set is. small i" and "small m"
  shows "writeBuckets m nR kva is d (intermediateName m i) = Some (Pairs (bucket nR i kva))"
  using assms
proof (induction m nR kva "is" d rule: writeBuckets.induct)
  case (2 m nR kva j "is" d)
  show ?case
  proof (cases "i \<in> set is")
    case True
    with 2 show ?thesis by (simp add: fun_upd_def)
  next
    case False
    with 2(2) have "i = j" by simp
    have "\<forall>k \<in> set is. intermediateName m i \<noteq> intermediateName m k"
      using False 2(3,4) \<open>i = j\<close> intermediateName_inj by (metis list.set_intros)
    with \<open>i = j\<close> show ?thesis by (simp add: writeBuckets_other)
  qed
qed simp

end
