(* ===== verification/MrSequential.thy ===== *)
theory MrSequential
  imports Worker
begin

text \<open>
  mr-main/mrsequential.go, the sequential MapReduce that defines what a job's output is,
  and the contract of an application under which the distributed job agrees with it. The
  library's \<open>sort.Sort\<close> is not stable: \<open>sorter\<close> is any function that permutes its
  argument into an order that \<open>ByKey.Less\<close> accepts.
\<close>

definition ByKey_Len :: "KeyValue list \<Rightarrow> int" where
  "ByKey_Len a = slen a"

definition ByKey_Swap :: "KeyValue list \<Rightarrow> nat \<Rightarrow> nat \<Rightarrow> KeyValue list" where
  "ByKey_Swap a i j = (a[i := a ! j])[j := a ! i]"

definition ByKey_Less :: "KeyValue list \<Rightarrow> nat \<Rightarrow> nat \<Rightarrow> bool" where
  "ByKey_Less a i j \<longleftrightarrow> Key (a ! i) < Key (a ! j)"

definition inOrder :: "KeyValue list \<Rightarrow> bool" where
  "inOrder a \<longleftrightarrow> (\<forall>i j. i < j \<and> j < length a \<longrightarrow> \<not> ByKey_Less a j i)"

definition sorts :: "(KeyValue list \<Rightarrow> KeyValue list) \<Rightarrow> bool" where
  "sorts sorter \<longleftrightarrow> (\<forall>a. mset (sorter a) = mset a \<and> inOrder (sorter a))"

fun readInputs :: "mapFun \<Rightarrow> dir \<Rightarrow> string list \<Rightarrow> KeyValue list \<Rightarrow> KeyValue list go" where
  "readInputs mapf d [] intermediate = Inr intermediate"
| "readInputs mapf d (f # fs) intermediate =
     (case d f of
        Some (Text txt) \<Rightarrow> readInputs mapf d fs (intermediate @ mapf f txt)
      | _ \<Rightarrow> Inl (Fatal ''cannot open''))"

text \<open>One turn of the loop takes the run of pairs with the key of the first one.\<close>

function reduceRuns :: "reduceFun \<Rightarrow> KeyValue list \<Rightarrow> (string \<times> string) list" where
  "reduceRuns reducef [] = []"
| "reduceRuns reducef (kv # rest) =
     (let run = kv # takeWhile (\<lambda>x. Key x = Key kv) rest;
          output = reducef (Key kv) (map Value run)
      in (Key kv, output) # reduceRuns reducef (dropWhile (\<lambda>x. Key x = Key kv) rest))"
  by pat_completeness auto
termination
  by (relation "measure (\<lambda>(r, xs). length xs)") (auto simp: le_imp_less_Suc length_dropWhile_le)

definition mrsequential ::
  "mapFun \<Rightarrow> reduceFun \<Rightarrow> (KeyValue list \<Rightarrow> KeyValue list) \<Rightarrow> string list \<Rightarrow> dir \<Rightarrow> dir go" where
  "mrsequential mapf reducef sorter files d =
     (case readInputs mapf d files [] of
        Inl e \<Rightarrow> Inl e
      | Inr intermediate \<Rightarrow>
          Inr (d(''mr-out-0'' \<mapsto> Lines (reduceRuns reducef (sorter intermediate)))))"

section \<open>The output of the sequential program\<close>

text \<open>\<open>outputOf reducef kvs ls\<close>: the lines \<open>ls\<close> hold every key of \<open>kvs\<close> once, reduced.\<close>

definition outputOf :: "reduceFun \<Rightarrow> KeyValue list \<Rightarrow> (string \<times> string) list \<Rightarrow> bool" where
  "outputOf reducef kvs ls \<longleftrightarrow>
     distinct ls \<and> set ls = (\<lambda>k. (k, reducef k (valuesOf k kvs))) ` Key ` set kvs"

lemma outputOf_mset: "outputOf r kvs ls \<Longrightarrow> outputOf r kvs ls' \<Longrightarrow> mset ls = mset ls'"
  unfolding outputOf_def by (metis set_eq_iff_mset_eq_distinct)

lemma inOrder_sorted: "inOrder a \<longleftrightarrow> sorted (map Key a)"
  by (force simp: inOrder_def ByKey_Less_def sorted_iff_nth_mono_less not_less)

lemma takeWhile_run:
  assumes "sorted (map Key (kv # rest))"
  shows "takeWhile (\<lambda>x. Key x = Key kv) rest = filter (\<lambda>x. Key x = Key kv) rest \<and>
    dropWhile (\<lambda>x. Key x = Key kv) rest = filter (\<lambda>x. Key x \<noteq> Key kv) rest"
  using assms
proof (induction rest)
  case (Cons x rest)
  show ?case
  proof (cases "Key x = Key kv")
    case True
    with Cons show ?thesis by simp
  next
    case False
    with Cons.prems have "Key kv < Key x" by (auto simp: order.strict_iff_order)
    with Cons.prems have "\<forall>y \<in> set (x # rest). Key y \<noteq> Key kv" by auto
    then have "filter (\<lambda>x. Key x = Key kv) (x # rest) = []"
      "filter (\<lambda>x. Key x \<noteq> Key kv) (x # rest) = x # rest"
      by (simp_all add: filter_empty_conv del: filter.simps)
    with False show ?thesis by simp
  qed
qed simp

lemma reduceRuns_output: "sorted (map Key xs) \<Longrightarrow> outputOf reducef xs (reduceRuns reducef xs)"
proof (induction reducef xs rule: reduceRuns.induct)
  case (2 reducef kv rest)
  note run = takeWhile_run [OF 2(2)]
  let ?rest = "filter (\<lambda>x. Key x \<noteq> Key kv) rest"
  have "sorted (map Key ?rest)" using 2(2) by (simp add: sorted_filter)
  with 2(1) run have IH: "outputOf reducef ?rest (reduceRuns reducef ?rest)" by simp
  have v: "valuesOf k ?rest = valuesOf k (kv # rest)" if "k \<noteq> Key kv" for k
    using that by (auto simp: valuesOf_def intro!: arg_cong [of _ _ "map Value"] filter_cong)
  have keys: "Key ` set (kv # rest) = insert (Key kv) (Key ` set ?rest)" by auto
  have "set (reduceRuns reducef ?rest)
      = (\<lambda>k. (k, reducef k (valuesOf k (kv # rest)))) ` Key ` set ?rest"
    using IH v by (auto simp: outputOf_def image_image intro!: image_cong)
  moreover have "reduceRuns reducef (kv # rest)
      = (Key kv, reducef (Key kv) (valuesOf (Key kv) (kv # rest))) # reduceRuns reducef ?rest"
    using run by (simp add: valuesOf_def)
  ultimately show ?case
    using IH unfolding outputOf_def keys by (auto simp: image_image)
qed (simp add: outputOf_def)

lemma readInputs_all:
  "\<forall>f \<in> set files. \<exists>txt. d f = Some (Text txt) \<Longrightarrow>
     readInputs mapf d files acc
       = Inr (acc @ concat (map (\<lambda>f. case d f of Some (Text txt) \<Rightarrow> mapf f txt | _ \<Rightarrow> []) files))"
  by (induction files arbitrary: acc) auto

section \<open>What an application must guarantee\<close>

text \<open>
  The values of a key reach \<open>Reduce\<close> in an order that depends on the schedule: an
  application may not depend on it.
\<close>

locale mr_app =
  fixes reducef :: reduceFun
  assumes order_free: "mset vs = mset vs' \<Longrightarrow> reducef k vs = reducef k vs'"
begin

lemma outputOf_perm:
  assumes "mset kvs = mset kvs'" and "outputOf reducef kvs ls"
  shows "outputOf reducef kvs' ls"
proof -
  have "mset (valuesOf k kvs) = mset (valuesOf k kvs')" for k
    using assms(1) by (simp add: valuesOf_def mset_filter)
  then have "reducef k (valuesOf k kvs) = reducef k (valuesOf k kvs')" for k
    by (rule order_free)
  moreover have "set kvs = set kvs'" using assms(1) by (rule mset_eq_setD)
  ultimately show ?thesis using assms(2) by (simp add: outputOf_def)
qed

lemma sequential_output:
  assumes "sorts sorter"
  shows "outputOf reducef kvs (reduceRuns reducef (sorter kvs))"
  using assms reduceRuns_output [of "sorter kvs" reducef] outputOf_perm [of "sorter kvs" kvs]
  by (simp add: sorts_def inOrder_sorted)

end

section \<open>The output of the distributed job\<close>

lemma bucket_keys:
  "kv \<in> set (bucket nR r kvs) \<longleftrightarrow> kv \<in> set kvs \<and> ihash (Key kv) mod int nR = int r"
  by (auto simp: bucket_def)

lemma valuesOf_bucket:
  "ihash k mod int nR = int r \<Longrightarrow> valuesOf k (bucket nR r kvs) = valuesOf k kvs"
  by (auto simp: valuesOf_def bucket_def intro!: arg_cong [of _ _ "map Value"] filter_cong)

lemma grouped_output:
  assumes "grouped kvs g" and "mset g' = mset g"
  shows "outputOf reducef kvs (reduceLines reducef g')"
proof -
  have set: "set g' = set g" using assms(2) by (rule mset_eq_setD)
  have "mset (map fst g') = mset (map fst g)" using assms(2) by (metis mset_map)
  with assms(1) have "distinct (map fst g')"
    unfolding grouped_def using mset_eq_imp_distinct_iff by blast
  moreover have "map fst (reduceLines reducef g') = map fst g'"
    by (simp add: reduceLines_def case_prod_beta comp_def)
  ultimately have "distinct (reduceLines reducef g')" by (metis distinct_map)
  moreover have "set (reduceLines reducef g') = (\<lambda>(k, vs). (k, reducef k vs)) ` set g"
    by (simp add: reduceLines_def set)
  moreover have "(\<lambda>(k, vs). (k, reducef k vs)) ` set g
      = (\<lambda>x. (fst x, reducef (fst x) (valuesOf (fst x) kvs))) ` set g"
    by (rule image_cong [OF refl]) (use assms(1) in \<open>auto simp: grouped_def\<close>)
  moreover have "\<dots> = (\<lambda>k. (k, reducef k (valuesOf k kvs))) ` fst ` set g"
    by (simp only: image_image)
  moreover from assms(1) have "fst ` set g = Key ` set kvs" by (simp add: grouped_def)
  ultimately show ?thesis by (simp only: outputOf_def)
qed

text \<open>The outputs of all reduce tasks together are the output for all pairs.\<close>

lemma outputs_union:
  assumes "0 < nR" and "\<forall>r < nR. outputOf reducef (bucket nR r kvs) (out r)"
  shows "outputOf reducef kvs (concat (map out [0..<nR]))"
proof -
  have keys: "k \<in> Key ` set kvs \<and> ihash k mod int nR = int r"
    if "(k, v) \<in> set (out r)" "r < nR" for k v r
    using assms(2) that by (fastforce simp: outputOf_def bucket_keys)
  have "distinct (concat (map out [0..<n]))" if "n \<le> nR" for n
    using that
  proof (induction n)
    case (Suc n)
    have "x \<notin> set (out n)" if "x \<in> set (out r)" "r < n" for x r
    proof
      assume n: "x \<in> set (out n)"
      have "ihash (fst x) mod int nR = int r" "ihash (fst x) mod int nR = int n"
        using keys [of "fst x" "snd x" r] keys [of "fst x" "snd x" n] that n Suc.prems by simp_all
      with that(2) show False by simp
    qed
    then have "set (concat (map out [0..<n])) \<inter> set (out n) = {}" by auto
    with Suc assms(2) show ?case by (auto simp: outputOf_def)
  qed simp
  then have "distinct (concat (map out [0..<nR]))" by simp
  moreover have "set (concat (map out [0..<nR]))
      = (\<lambda>k. (k, reducef k (valuesOf k kvs))) ` Key ` set kvs"
  proof
    show "set (concat (map out [0..<nR]))
        \<subseteq> (\<lambda>k. (k, reducef k (valuesOf k kvs))) ` Key ` set kvs"
      using assms(2) by (fastforce simp: outputOf_def bucket_keys valuesOf_bucket)
    show "(\<lambda>k. (k, reducef k (valuesOf k kvs))) ` Key ` set kvs
        \<subseteq> set (concat (map out [0..<nR]))"
    proof
      fix x assume "x \<in> (\<lambda>k. (k, reducef k (valuesOf k kvs))) ` Key ` set kvs"
      then obtain kv where kv: "kv \<in> set kvs" "x = (Key kv, reducef (Key kv) (valuesOf (Key kv) kvs))"
        by auto
      define r where "r = nat (ihash (Key kv) mod int nR)"
      have r: "r < nR" "ihash (Key kv) mod int nR = int r"
        using assms(1) by (auto simp: r_def nat_less_iff)
      with kv(1) have "kv \<in> set (bucket nR r kvs)" by (simp add: bucket_keys)
      with assms(2) r have "(Key kv, reducef (Key kv) (valuesOf (Key kv) (bucket nR r kvs)))
          \<in> set (out r)" by (auto simp: outputOf_def)
      with kv(2) r show "x \<in> set (concat (map out [0..<nR]))"
        by (auto simp: valuesOf_bucket)
    qed
  qed
  ultimately show ?thesis by (simp add: outputOf_def)
qed

end
