(* ===== verification/MrApps.thy ===== *)
theory MrApps
  imports MrSequential
begin

text \<open>
  The applications of mr-main/mrapps as \<open>Map\<close>/\<open>Reduce\<close> pairs. Texts are ASCII: a rune is a
  byte, and \<open>unicode.IsLetter\<close> accepts the Latin letters. \<open>crash.go\<close> decides at random
  whether a call ends the process; the number drawn is an argument. Each \<open>Reduce\<close> whose
  result is independent of the order of its values is an interpretation of \<open>mr_app\<close>.
\<close>

definition IsLetter :: "char \<Rightarrow> bool" where
  "IsLetter r \<longleftrightarrow> (let n = of_char r :: nat in 65 \<le> n \<and> n \<le> 90 \<or> 97 \<le> n \<and> n \<le> 122)"

section \<open>Word count\<close>

definition wordsOf :: "string \<Rightarrow> string list" where
  "wordsOf contents = FieldsFunc contents (\<lambda>r. \<not> IsLetter r)"

definition wc_Map :: mapFun where
  "wc_Map filename contents = map (\<lambda>w. \<lparr>Key = w, Value = ''1''\<rparr>) (wordsOf contents)"

definition wc_Reduce :: reduceFun where
  "wc_Reduce key values = Itoa (slen values)"

interpretation wc: mr_app wc_Reduce
  by unfold_locales (auto simp: wc_Reduce_def slen_def dest: mset_eq_length)

section \<open>Index\<close>

text \<open>The keys of the set \<open>m\<close> come in an order \<open>iter\<close> of the runtime.\<close>

definition indexer_Map :: "(string list \<Rightarrow> string list) \<Rightarrow> mapFun" where
  "indexer_Map iter document value =
     map (\<lambda>w. \<lparr>Key = w, Value = document\<rparr>) (iter (remdups (wordsOf value)))"

definition indexer_Reduce :: reduceFun where
  "indexer_Reduce key values =
     (let values = sortStrings values in Itoa (slen values) @ '' '' @ Join values '','')"

interpretation indexer: mr_app indexer_Reduce
  by unfold_locales (auto simp: indexer_Reduce_def Let_def dest: sortStrings_perm)

section \<open>Credit scores\<close>

fun credit_line :: "string list \<Rightarrow> KeyValue list" where
  "credit_line [userID, agency, year, scoreStr] =
     (if scoreStr = ''Credit Score'' then []
      else case Atoi scoreStr of
             None \<Rightarrow> []
           | Some score \<Rightarrow>
               (if year = ''2023'' \<and> score > 400 then [\<lparr>Key = agency, Value = ''1''\<rparr>] else []))"
| "credit_line _ = []"

definition credit_Map :: mapFun where
  "credit_Map filename contents =
     concat (map (\<lambda>line. credit_line (Split line (CHR '',''))) (Split contents (CHR 0x0A)))"

fun countOnes :: "string list \<Rightarrow> int \<Rightarrow> int" where
  "countOnes [] n = n"
| "countOnes (value # vs) n = countOnes vs (if value = ''1'' then n + 1 else n)"

definition credit_Reduce :: reduceFun where
  "credit_Reduce key values = Itoa (countOnes values 0)"

lemma countOnes: "countOnes vs n = n + int (size (filter_mset (\<lambda>v. v = ''1'') (mset vs)))"
  by (induction vs n rule: countOnes.induct) simp_all

interpretation credit: mr_app credit_Reduce
  by unfold_locales (simp add: credit_Reduce_def countOnes)

section \<open>Tests of the framework\<close>

definition nocrash_Map :: mapFun where
  "nocrash_Map filename contents =
     [\<lparr>Key = ''a'', Value = filename\<rparr>, \<lparr>Key = ''b'', Value = Itoa (slen filename)\<rparr>,
      \<lparr>Key = ''c'', Value = Itoa (slen contents)\<rparr>, \<lparr>Key = ''d'', Value = ''xyzzy''\<rparr>]"

definition nocrash_Reduce :: reduceFun where
  "nocrash_Reduce key values = (let vv = sortStrings values in Join vv '' '')"

text \<open>\<open>maybeCrash\<close> of crash.go: None when the process exits.\<close>

definition maybeCrash :: "int \<Rightarrow> unit option" where
  "maybeCrash rr = (if rr < 330 then None else Some ())"

definition crash_Map :: "int \<Rightarrow> string \<Rightarrow> string \<Rightarrow> KeyValue list option" where
  "crash_Map rr filename contents =
     (case maybeCrash rr of
        None \<Rightarrow> None
      | Some _ \<Rightarrow> Some
          [\<lparr>Key = ''a'', Value = filename\<rparr>, \<lparr>Key = ''b'', Value = Itoa (slen filename)\<rparr>,
           \<lparr>Key = ''c'', Value = Itoa (slen contents)\<rparr>, \<lparr>Key = ''d'', Value = ''xyzzy''\<rparr>])"

definition crash_Reduce :: "int \<Rightarrow> string \<Rightarrow> string list \<Rightarrow> string option" where
  "crash_Reduce rr key values =
     (case maybeCrash rr of None \<Rightarrow> None | Some _ \<Rightarrow> Some (let vv = sortStrings values in Join vv '' ''))"

definition early_exit_Map :: mapFun where
  "early_exit_Map filename contents = [\<lparr>Key = filename, Value = ''1''\<rparr>]"

definition early_exit_Reduce :: reduceFun where
  "early_exit_Reduce key values = Itoa (slen values)"

interpretation nocrash: mr_app nocrash_Reduce
  by unfold_locales (auto simp: nocrash_Reduce_def dest: sortStrings_perm)

interpretation early_exit: mr_app early_exit_Reduce
  by unfold_locales (auto simp: early_exit_Reduce_def slen_def dest: mset_eq_length)

text \<open>When it does not exit, the crashing application computes what the other one does.\<close>

lemma crash_as_nocrash:
  "crash_Map rr f c = (if rr < 330 then None else Some (nocrash_Map f c))"
  "crash_Reduce rr k vs = (if rr < 330 then None else Some (nocrash_Reduce k vs))"
  by (simp_all add: crash_Map_def crash_Reduce_def maybeCrash_def nocrash_Map_def nocrash_Reduce_def)

section \<open>What the applications compute\<close>

lemma valuesOf_wc: "valuesOf w (wc_Map f s) = replicate (count_list (wordsOf s) w) ''1''"
proof -
  have "valuesOf w (map (\<lambda>w. \<lparr>Key = w, Value = ''1''\<rparr>) ws) = replicate (count_list ws w) ''1''" for ws
    by (induction ws) (simp_all add: valuesOf_def)
  then show ?thesis by (simp add: wc_Map_def)
qed

lemma fieldsFrom_runs:
  "\<forall>c \<in> set cur. \<not> f c \<Longrightarrow> \<forall>w \<in> set (fieldsFrom f s cur). w \<noteq> [] \<and> (\<forall>c \<in> set w. \<not> f c)"
proof (induction s arbitrary: cur)
  case (Cons c s)
  have nil: "\<forall>w \<in> set (fieldsFrom f s []). w \<noteq> [] \<and> (\<forall>c \<in> set w. \<not> f c)"
    by (rule Cons.IH) simp
  show ?case
  proof (cases "f c")
    case True
    with nil Cons.prems show ?thesis by (cases "cur = []") (simp_all only: fieldsFrom.simps if_True if_False list.set ball_simps set_rev rev_is_Nil_conv not_False_eq_True simp_thms)
  next
    case False
    with Cons.prems have "\<forall>c \<in> set (c # cur). \<not> f c" by simp
    from Cons.IH [OF this] False show ?thesis by (simp only: fieldsFrom.simps if_False)
  qed
qed simp

lemma wordsOf_letters:
  "\<forall>w \<in> set (wordsOf s). w \<noteq> [] \<and> (\<forall>c \<in> set w. IsLetter c)"
proof -
  have "\<forall>c \<in> set []. \<not> \<not> IsLetter c" by simp
  from fieldsFrom_runs [of "[]" "\<lambda>r. \<not> IsLetter r", OF this]
  show ?thesis by (simp add: wordsOf_def FieldsFunc_def)
qed

lemma concat_wordsOf: "concat (wordsOf s) = filter IsLetter s"
proof -
  have "\<forall>c \<in> set []. \<not> \<not> IsLetter c" by simp
  from concat_fieldsFrom [of "[]" "\<lambda>r. \<not> IsLetter r", OF this]
  show ?thesis by (simp add: wordsOf_def FieldsFunc_def)
qed


text \<open>The lines of a credit file that count for an agency.\<close>

definition counted :: "string \<Rightarrow> string \<Rightarrow> bool" where
  "counted agency line \<longleftrightarrow>
     (\<exists>userID scoreStr score. Split line (CHR '','') = [userID, agency, ''2023'', scoreStr] \<and>
        Atoi scoreStr = Some score \<and> 400 < score)"

lemma Atoi_header: "Atoi ''Credit Score'' = None"
  by code_simp

lemma credit_line_values:
  "valuesOf a (credit_line (Split line (CHR '',''))) = (if counted a line then [''1''] else [])"
proof (cases "\<exists>userID agency year scoreStr. Split line (CHR '','') = [userID, agency, year, scoreStr]")
  case True
  then obtain u ag y sc where s: "Split line (CHR '','') = [u, ag, y, sc]" by blast
  show ?thesis
    using Atoi_header by (cases "Atoi sc") (auto simp: s counted_def valuesOf_def)
next
  case False
  then have "credit_line (Split line (CHR '','')) = []"
    by (cases "Split line (CHR '','')" rule: credit_line.cases) auto
  moreover from False have "\<not> counted a line" by (auto simp: counted_def)
  ultimately show ?thesis by (simp add: valuesOf_def)
qed

text \<open>The credit application prints for every agency the number of lines with four
  fields whose third is 2023 and whose fourth is a number above 400.\<close>

theorem credit_counts_lines:
  "credit_Reduce a (valuesOf a (credit_Map f s))
     = Itoa (int (length (filter (counted a) (Split s (CHR 0x0A)))))"
proof -
  have "valuesOf a (concat (map (\<lambda>line. credit_line (Split line (CHR '',''))) ls))
      = replicate (length (filter (counted a) ls)) ''1''" for ls
  proof (induction ls)
    case (Cons l ls)
    then show ?case by (simp add: credit_line_values)
  qed (simp add: valuesOf_def)
  moreover have "filter_mset (\<lambda>v. v = ''1'') (replicate_mset n ''1'') = replicate_mset n ''1''" for n
    by (induction n) simp_all
  ultimately show ?thesis by (simp add: credit_Map_def credit_Reduce_def countOnes)
qed

end
