(* ===== verification/MapReduce.thy ===== *)
theory MapReduce
  imports MrApps
begin

text \<open>
  A MapReduce job: the coordinator, the directory and the workers, each of which asks for
  a task, performs it, and reports it (\<open>Worker\<close>'s loop, one RPC or task per step), or
  crashes. Any interleaving is a list of actions. The invariant names the order in which
  the map tasks were reported; it determines every file name list of the coordinator.
\<close>

record job =
  coord :: Coordinator
  disk :: dir
  workers :: "nat \<Rightarrow> worker"

datatype jobAction = Ask nat int | Work nat | Report nat | CrashWorker nat

definition setWorker :: "nat \<Rightarrow> worker \<Rightarrow> job \<Rightarrow> job" where
  "setWorker w x j = j\<lparr>workers := (workers j)(w := x)\<rparr>"

fun jobStep ::
  "mapFun \<Rightarrow> reduceFun \<Rightarrow> (groups \<Rightarrow> groups) \<Rightarrow> jobAction \<Rightarrow> job \<Rightarrow> job option" where
  "jobStep mapf reducef iter (Ask w now) j =
     (case workers j w of
        Asking \<Rightarrow>
          (let (c, reply) = RequestTask now (coord j)
           in Some (setWorker w (dispatch reply) (j\<lparr>coord := c\<rparr>)))
      | _ \<Rightarrow> None)"
| "jobStep mapf reducef iter (Work w) j =
     (case workers j w of
        Got reply \<Rightarrow>
          (case performTask mapf reducef iter reply (disk j) of
             Inl _ \<Rightarrow> Some (setWorker w Crashed j)
           | Inr (d, args) \<Rightarrow> Some (setWorker w (Finished args) (j\<lparr>disk := d\<rparr>)))
      | _ \<Rightarrow> None)"
| "jobStep mapf reducef iter (Report w) j =
     (case workers j w of
        Finished args \<Rightarrow>
          (case ReportTaskDone args (coord j) of
             Inl _ \<Rightarrow> None
           | Inr (c, kind, ok) \<Rightarrow>
               Some (setWorker w (if kind = AllDone then Exited else Asking) (j\<lparr>coord := c\<rparr>)))
      | _ \<Rightarrow> None)"
| "jobStep mapf reducef iter (CrashWorker w) j = Some (setWorker w Crashed j)"

definition startJob :: "string list \<Rightarrow> nat \<Rightarrow> dir \<Rightarrow> job" where
  "startJob files nR d =
     \<lparr>coord = MakeCoordinator files nR, disk = d, workers = (\<lambda>w. Asking)\<rparr>"

section \<open>Requests\<close>

text \<open>The four outcomes of a request.\<close>

lemma RequestTask_cases:
  assumes "RequestTask now c = (c', reply)"
  obtains (giveMap) i where "i < length (mapTasks c)" "Status (mapTasks c ! i) = Unassigned"
      "c' = c\<lparr>mapTasks := take_task (mapTasks c) i now\<rparr>"
      "reply = offer MapTask (mapTasks c) i (nReduce c)"
  | (giveReduce) i where "allMapTasksDone c" "i < length (reduceTasks c)"
      "Status (reduceTasks c ! i) = Unassigned"
      "mapTasks c' = mapTasks c" "reduceTasks c' = take_task (reduceTasks c) i now"
      "nReduce c' = nReduce c" "reply = offer ReduceTask (reduceTasks c) i (nReduce c)"
  | (idle) "mapTasks c' = mapTasks c" "reduceTasks c' = reduceTasks c" "nReduce c' = nReduce c"
      "replyType reply = AllDone"
proof -
  let ?f = "if \<not> allMapTasksDone c then findTask (mapTasks c) (now - tenSeconds) 0 else None"
  show thesis
  proof (cases ?f)
    case (Some i)
    then have "findTask (mapTasks c) (now - tenSeconds) 0 = Some i" by (simp split: if_splits)
    from findTask_Some [OF this] giveMap [of i] assms Some show thesis
      by (auto simp: RequestTask_def)
  next
    case None
    define c1 where "c1 = (if allMapTasksDone c \<and> \<not> mapDone c then c\<lparr>mapDone := True\<rparr> else c)"
    have c1: "mapTasks c1 = mapTasks c" "reduceTasks c1 = reduceTasks c" "nReduce c1 = nReduce c"
      by (auto simp: c1_def)
    then have ad: "allMapTasksDone c1 = allMapTasksDone c" by (simp add: allMapTasksDone_def)
    show thesis
    proof (cases "findTask (reduceTasks c1) (now - tenSeconds) 0")
      case fNone: None
      from None assms fNone have "c' = c1 \<and> replyType reply = AllDone"
        by (auto simp: RequestTask_def Let_def c1_def [symmetric] split: if_splits)
      show thesis by (rule idle) (use \<open>c' = c1 \<and> replyType reply = AllDone\<close> c1 in simp_all)
    next
      case (Some i)
      from findTask_Some [OF Some] have i: "i < length (reduceTasks c)"
        "Status (reduceTasks c ! i) = Unassigned" by (auto simp: c1)
      show thesis
      proof (cases "allMapTasksDone c1 \<and> \<not> allReduceTasksDone c1")
        case True
        with None Some assms have "c' = c1\<lparr>reduceTasks := take_task (reduceTasks c1) i now\<rparr>"
          "reply = offer ReduceTask (reduceTasks c1) i (nReduce c1)"
          by (auto simp: RequestTask_def Let_def c1_def [symmetric])
        with True i giveReduce [of i] ad show thesis by (simp add: c1)
      next
        case False
        with None assms have "c' = c1" "replyType reply = AllDone"
          by (auto simp: RequestTask_def Let_def c1_def [symmetric])
        show thesis
          by (rule idle) (use \<open>c' = c1\<close> \<open>replyType reply = AllDone\<close> c1 in simp_all)
      qed
    qed
  qed
qed

text \<open>The coordinator never tells a worker to sleep: the \<open>SleepABit\<close> it prepares when
  every task is taken is overwritten with \<open>AllDone\<close>, so a worker that asks while others
  are still at work exits although the job is not done.\<close>

theorem RequestTask_never_sleeps:
  "replyType (snd (RequestTask now c)) \<noteq> SleepABit"
proof -
  obtain c' reply where r: "RequestTask now c = (c', reply)" by fastforce
  from r have "replyType reply \<noteq> SleepABit"
    by (cases rule: RequestTask_cases) (simp_all add: offer_def)
  with r show ?thesis by simp
qed

section \<open>The invariant of a job\<close>

definition pairsOf :: "mapFun \<Rightarrow> string list \<Rightarrow> dir \<Rightarrow> nat \<Rightarrow> KeyValue list" where
  "pairsOf mapf files d0 m =
     (case d0 (files ! m) of Some (Text txt) \<Rightarrow> mapf (files ! m) txt | _ \<Rightarrow> [])"

definition mapped :: "mapFun \<Rightarrow> string list \<Rightarrow> nat \<Rightarrow> dir \<Rightarrow> nat \<Rightarrow> dir \<Rightarrow> bool" where
  "mapped mapf files nR d0 m d \<longleftrightarrow>
     (\<forall>r < nR. d (intermediateName m r) = Some (Pairs (bucket nR r (pairsOf mapf files d0 m))))"

definition allPairs :: "mapFun \<Rightarrow> string list \<Rightarrow> dir \<Rightarrow> nat list \<Rightarrow> KeyValue list" where
  "allPairs mapf files d0 order = concat (map (pairsOf mapf files d0) order)"

definition reduced ::
  "mapFun \<Rightarrow> reduceFun \<Rightarrow> string list \<Rightarrow> nat \<Rightarrow> dir \<Rightarrow> nat list \<Rightarrow> nat \<Rightarrow> dir \<Rightarrow> bool" where
  "reduced mapf reducef files nR d0 order r d \<longleftrightarrow>
     (\<exists>g g'. grouped (bucket nR r (allPairs mapf files d0 order)) g \<and> mset g' = mset g \<and>
        d (outName r) = Some (Lines (reduceLines reducef g')))"

text \<open>The task a worker has, as its kind and index.\<close>

fun holds :: "worker \<Rightarrow> (int \<times> int) option" where
  "holds (Got reply) = Some (replyType reply, TaskIndex reply)"
| "holds (Finished args) = Some (doneType args, doneIndex args)"
| "holds _ = None"

definition completedMaps :: "Coordinator \<Rightarrow> nat set" where
  "completedMaps c = {i. i < length (mapTasks c) \<and> Status (mapTasks c ! i) = Completed}"

definition tasks_ok :: "string list \<Rightarrow> nat \<Rightarrow> nat list \<Rightarrow> Coordinator \<Rightarrow> bool" where
  "tasks_ok files nR order c \<longleftrightarrow>
     length (mapTasks c) = length files \<and> length (reduceTasks c) = nR \<and> nReduce c = int nR \<and>
     (\<forall>i < length files. AllFilenames (mapTasks c ! i) = [files ! i]) \<and>
     distinct order \<and>
     set order = completedMaps c \<and>
     (\<forall>r < nR. AllFilenames (reduceTasks c ! r) = map (\<lambda>m. intermediateName m r) order) \<and>
     (\<forall>r < nR. Status (reduceTasks c ! r) \<noteq> Unassigned \<longrightarrow> allMapTasksDone c)"

definition busy :: "Coordinator \<Rightarrow> int \<Rightarrow> int \<Rightarrow> bool" where
  "busy c kind i \<longleftrightarrow>
     kind = MapTask \<and> 0 \<le> i \<and> i < slen (mapTasks c) \<and>
       Status (mapTasks c ! nat i) = InProgress \<or>
     kind = ReduceTask \<and> 0 \<le> i \<and> i < slen (reduceTasks c) \<and>
       Status (reduceTasks c ! nat i) = InProgress"

definition disk_ok ::
  "mapFun \<Rightarrow> reduceFun \<Rightarrow> string list \<Rightarrow> nat \<Rightarrow> dir \<Rightarrow> nat list \<Rightarrow> Coordinator \<Rightarrow> dir \<Rightarrow> bool"
where
  "disk_ok mapf reducef files nR d0 order c d \<longleftrightarrow>
     (\<forall>f \<in> set files. d f = d0 f) \<and>
     (\<forall>m \<in> set order. mapped mapf files nR d0 m d) \<and>
     (\<forall>r < nR. Status (reduceTasks c ! r) = Completed \<longrightarrow>
        reduced mapf reducef files nR d0 order r d)"

fun worker_ok ::
  "mapFun \<Rightarrow> reduceFun \<Rightarrow> string list \<Rightarrow> nat \<Rightarrow> dir \<Rightarrow> nat list \<Rightarrow> Coordinator \<Rightarrow> dir
   \<Rightarrow> worker \<Rightarrow> bool" where
  "worker_ok mapf reducef files nR d0 order c d (Got reply) =
     (busy c (replyType reply) (TaskIndex reply) \<and>
      (replyType reply = MapTask \<longrightarrow>
         Filenames reply = [files ! nat (TaskIndex reply)] \<and> NReduce reply = int nR) \<and>
      (replyType reply = ReduceTask \<longrightarrow>
         Filenames reply = AllFilenames (reduceTasks c ! nat (TaskIndex reply))))"
| "worker_ok mapf reducef files nR d0 order c d (Finished args) =
     (busy c (doneType args) (doneIndex args) \<and>
      (doneType args = MapTask \<longrightarrow>
         IntermediateFilenames args = reportNames (nat (doneIndex args)) nR \<and>
         mapped mapf files nR d0 (nat (doneIndex args)) d) \<and>
      (doneType args = ReduceTask \<longrightarrow>
         reduced mapf reducef files nR d0 order (nat (doneIndex args)) d))"
| "worker_ok mapf reducef files nR d0 order c d _ = True"

definition exclusive :: "(nat \<Rightarrow> worker) \<Rightarrow> bool" where
  "exclusive ws \<longleftrightarrow> (\<forall>v w t. holds (ws v) = Some t \<longrightarrow> holds (ws w) = Some t \<longrightarrow> v = w)"

definition job_inv ::
  "mapFun \<Rightarrow> reduceFun \<Rightarrow> string list \<Rightarrow> nat \<Rightarrow> dir \<Rightarrow> nat list \<Rightarrow> job \<Rightarrow> bool" where
  "job_inv mapf reducef files nR d0 order j \<longleftrightarrow>
     tasks_ok files nR order (coord j) \<and>
     disk_ok mapf reducef files nR d0 order (coord j) (disk j) \<and>
     (\<forall>w. worker_ok mapf reducef files nR d0 order (coord j) (disk j) (workers j w)) \<and>
     exclusive (workers j)"

text \<open>A job as it may be started: few enough tasks, and inputs that are readable text files
  under names no task writes.\<close>

definition job_start :: "string list \<Rightarrow> nat \<Rightarrow> dir \<Rightarrow> bool" where
  "job_start files nR d0 \<longleftrightarrow>
     small (length files) \<and> small nR \<and>
     (\<forall>f \<in> set files. take 3 f \<noteq> ''mr-'' \<and> (\<exists>txt. d0 f = Some (Text txt)))"

lemma allMapTasksDone_iff:
  "allMapTasksDone c \<longleftrightarrow> (\<forall>i < length (mapTasks c). Status (mapTasks c ! i) = Completed)"
  by (simp add: allMapTasksDone_def allTasksDone_iff all_set_conv_all_nth)

lemma allMapTasksDone_completed:
  "allMapTasksDone c \<longleftrightarrow> completedMaps c = {..<length (mapTasks c)}"
  by (auto simp: allMapTasksDone_iff completedMaps_def)

lemma holds_busy:
  "worker_ok mapf reducef files nR d0 order c d x \<Longrightarrow> holds x = Some (kind, i) \<Longrightarrow> busy c kind i"
  by (cases x) auto

lemma names_differ:
  "take 3 f \<noteq> ''mr-'' \<Longrightarrow> f \<noteq> intermediateName m r \<and> f \<noteq> outName r"
  by (auto simp: intermediateName_def outName_def)

lemma outName_intermediate: "outName r \<noteq> intermediateName m s"
proof -
  obtain c cs where c: "showNat m = c # cs" "isDigit c" by (rule showNat_Cons)
  then have "c \<noteq> CHR ''o''" by (auto simp: isDigit_def)
  with c show ?thesis by (simp add: outName_def intermediateName_def Itoa_def)
qed

lemma outName_inj: "outName r = outName s \<longleftrightarrow> r = s"
  by (simp add: outName_def Itoa_def)

section \<open>Each step keeps the invariant\<close>

lemma take_task_simps [simp]:
  "length (take_task ts i now) = length ts"
  "i < length ts \<Longrightarrow> AllFilenames (take_task ts i now ! k) = AllFilenames (ts ! k)"
  "i < length ts \<Longrightarrow> Status (take_task ts i now ! k) = (if k = i then InProgress else Status (ts ! k))"
  by (auto simp: take_task_def nth_list_update)

text \<open>A worker's knowledge survives what others do to the coordinator and the directory.\<close>

lemma worker_ok_mono:
  assumes "worker_ok mapf reducef files nR d0 order c d x"
    and "\<forall>kind i. holds x = Some (kind, i) \<longrightarrow> busy c kind i \<longrightarrow> busy c' kind i"
    and "\<forall>r < length (reduceTasks c). AllFilenames (reduceTasks c' ! r) = AllFilenames (reduceTasks c ! r)"
    and "\<forall>m. holds x = Some (MapTask, int m) \<longrightarrow> mapped mapf files nR d0 m d \<longrightarrow>
           mapped mapf files nR d0 m d'"
    and "\<forall>r. holds x = Some (ReduceTask, int r) \<longrightarrow>
           reduced mapf reducef files nR d0 order r d \<longrightarrow>
           reduced mapf reducef files nR d0 order r d'"
  shows "worker_ok mapf reducef files nR d0 order c' d' x"
proof (cases x)
  case (Got reply)
  with assms(1) have b: "busy c (replyType reply) (TaskIndex reply)" by simp
  have "AllFilenames (reduceTasks c' ! nat (TaskIndex reply))
      = AllFilenames (reduceTasks c ! nat (TaskIndex reply))" if "replyType reply = ReduceTask"
    using b that assms(3) by (auto simp: busy_def slen_def)
  with assms(1,2) Got show ?thesis by auto
next
  case (Finished args)
  with assms(1) have b: "busy c (doneType args) (doneIndex args)" by simp
  then have "doneIndex args = int (nat (doneIndex args))" by (auto simp: busy_def)
  with Finished have h: "doneType args = MapTask \<Longrightarrow> holds x = Some (MapTask, int (nat (doneIndex args)))"
    "doneType args = ReduceTask \<Longrightarrow> holds x = Some (ReduceTask, int (nat (doneIndex args)))"
    by simp_all
  from b assms(2) Finished have "busy c' (doneType args) (doneIndex args)" by simp
  with assms(1) Finished h assms(4,5) show ?thesis by auto
qed auto

lemma exclusive_set:
  assumes "exclusive ws"
    and "\<forall>t. holds x = Some t \<longrightarrow> (\<forall>v. v \<noteq> w \<longrightarrow> holds (ws v) \<noteq> Some t)"
  shows "exclusive (ws(w := x))"
  using assms unfolding exclusive_def by (metis fun_upd_apply)

lemma ask_inv:
  assumes inv: "job_inv mapf reducef files nR d0 order j" and w: "workers j w = Asking"
    and rt: "RequestTask now (coord j) = (c', reply)"
  shows "job_inv mapf reducef files nR d0 order (setWorker w (dispatch reply) (j\<lparr>coord := c'\<rparr>))"
proof -
  let ?c = "coord j"
  from inv have t: "tasks_ok files nR order ?c"
    and d: "disk_ok mapf reducef files nR d0 order ?c (disk j)"
    and wk: "\<And>v. worker_ok mapf reducef files nR d0 order ?c (disk j) (workers j v)"
    and ex: "exclusive (workers j)" by (auto simp: job_inv_def)
  have free: "holds (workers j v) \<noteq> Some (kind, i)" if "\<not> busy ?c kind i" for v kind i
    using holds_busy [OF wk] that by blast
  have goal: ?thesis
    if "tasks_ok files nR order c'" "disk_ok mapf reducef files nR d0 order c' (disk j)"
      and mono: "\<forall>kind i. busy ?c kind i \<longrightarrow> busy c' kind i"
      and names: "\<forall>r < length (reduceTasks ?c).
        AllFilenames (reduceTasks c' ! r) = AllFilenames (reduceTasks ?c ! r)"
      and new: "worker_ok mapf reducef files nR d0 order c' (disk j) (dispatch reply)"
      and fresh: "\<forall>kind i. holds (dispatch reply) = Some (kind, i) \<longrightarrow> \<not> busy ?c kind i"
  proof -
    have "worker_ok mapf reducef files nR d0 order c' (disk j) (workers j v)" for v
      by (rule worker_ok_mono [OF wk]) (use mono names in auto)
    moreover have "exclusive ((workers j)(w := dispatch reply))"
      using fresh free by (intro exclusive_set [OF ex]) auto
    ultimately show ?thesis using that(1,2) new by (simp add: job_inv_def setWorker_def)
  qed
  from rt show ?thesis
  proof (cases rule: RequestTask_cases)
    case (giveMap i)
    with t have i: "i < length files" "i < length (mapTasks ?c)" by (simp_all add: tasks_ok_def)
    have r: "reply = offer MapTask (mapTasks ?c) i (nReduce ?c)" "dispatch reply = Got reply"
      using giveMap t by (auto simp: offer_def dispatch_def tasks_ok_def)
    show ?thesis
    proof (rule goal)
      have "completedMaps c' = completedMaps ?c"
        using giveMap i by (auto simp: completedMaps_def)
      moreover have "\<not> allMapTasksDone ?c"
        using giveMap i by (auto simp: allMapTasksDone_iff)
      ultimately show "tasks_ok files nR order c'"
        using t giveMap i by (simp add: tasks_ok_def)
      show "disk_ok mapf reducef files nR d0 order c' (disk j)"
        using d giveMap by (simp add: disk_ok_def)
      show "\<forall>kind i. busy ?c kind i \<longrightarrow> busy c' kind i"
        using giveMap i by (auto simp: busy_def slen_def)
      show "worker_ok mapf reducef files nR d0 order c' (disk j) (dispatch reply)"
        using r t i giveMap by (simp add: offer_def busy_def slen_def tasks_ok_def)
      show "\<forall>kind i. holds (dispatch reply) = Some (kind, i) \<longrightarrow> \<not> busy ?c kind i"
        using r giveMap by (simp add: offer_def busy_def)
    qed (use giveMap in simp)
  next
    case (giveReduce i)
    with t have i: "i < nR" "i < length (reduceTasks ?c)" by (simp_all add: tasks_ok_def)
    have m: "completedMaps c' = completedMaps ?c" "allMapTasksDone c'"
      using giveReduce by (simp_all add: completedMaps_def allMapTasksDone_def)
    show ?thesis
    proof (rule goal)
      from t giveReduce i m show "tasks_ok files nR order c'" by (simp add: tasks_ok_def)
      show "disk_ok mapf reducef files nR d0 order c' (disk j)"
        using d giveReduce i by (simp add: disk_ok_def)
      show "\<forall>kind i. busy ?c kind i \<longrightarrow> busy c' kind i"
        using giveReduce i by (auto simp: busy_def slen_def)
      show "worker_ok mapf reducef files nR d0 order c' (disk j) (dispatch reply)"
        using t i giveReduce by (simp add: dispatch_def offer_def busy_def slen_def tasks_ok_def)
      show "\<forall>kind i. holds (dispatch reply) = Some (kind, i) \<longrightarrow> \<not> busy ?c kind i"
        using giveReduce by (simp add: dispatch_def offer_def busy_def)
    qed (use giveReduce i in simp)
  next
    case idle
    then have e: "dispatch reply = Exited" by (simp add: dispatch_def)
    have m: "completedMaps c' = completedMaps ?c" "allMapTasksDone c' = allMapTasksDone ?c"
      using idle by (simp_all add: completedMaps_def allMapTasksDone_def)
    show ?thesis
      by (rule goal) (use idle t d e m in \<open>simp_all add: tasks_ok_def disk_ok_def busy_def\<close>)
  qed
qed

lemma job_inv_crash:
  assumes "job_inv mapf reducef files nR d0 order j"
  shows "job_inv mapf reducef files nR d0 order (setWorker w Crashed j)"
proof -
  from assms have "exclusive ((workers j)(w := Crashed))"
    by (intro exclusive_set) (auto simp: job_inv_def)
  with assms show ?thesis by (simp add: job_inv_def setWorker_def)
qed

text \<open>Performing a map task writes its buckets and touches nothing else that counts.\<close>

lemma work_map_dir:
  assumes start: "job_start files nR d0" and i: "i < length files"
    and d': "d' = writeBuckets i nR kva [0..<nR] d"
  shows "\<forall>f \<in> set files. d' f = d f" and "\<forall>r. d' (outName r) = d (outName r)"
    and "m < length files \<Longrightarrow> m \<noteq> i \<Longrightarrow> mapped mapf files nR d0 m d \<Longrightarrow> mapped mapf files nR d0 m d'"
    and "kva = pairsOf mapf files d0 i \<Longrightarrow> mapped mapf files nR d0 i d'"
proof -
  have sm: "small k" if "k < length files" for k
    using start that by (auto simp: job_start_def intro: small_le)
  have sr: "small r" if "r < nR" for r
    using start that by (auto simp: job_start_def intro: small_le)
  show "\<forall>f \<in> set files. d' f = d f"
  proof
    fix f assume "f \<in> set files"
    with start have "take 3 f \<noteq> ''mr-''" by (simp add: job_start_def)
    with names_differ show "d' f = d f" unfolding d' by (intro writeBuckets_other) blast
  qed
  show "\<forall>r. d' (outName r) = d (outName r)"
    unfolding d' using outName_intermediate by (auto intro: writeBuckets_other)
  show "mapped mapf files nR d0 m d'"
    if "m < length files" "m \<noteq> i" "mapped mapf files nR d0 m d"
  proof -
    have "d' (intermediateName m r) = d (intermediateName m r)" if "r < nR" for r
      unfolding d'
    proof (rule writeBuckets_other, intro ballI notI)
      fix k assume "k \<in> set [0..<nR]" "intermediateName m r = intermediateName i k"
      with intermediateName_inj [OF this(2)] sm sr i \<open>m < length files\<close> \<open>r < nR\<close> \<open>m \<noteq> i\<close>
      show False by simp
    qed
    with that show ?thesis by (simp add: mapped_def)
  qed
  show "mapped mapf files nR d0 i d'" if "kva = pairsOf mapf files d0 i"
    unfolding mapped_def d' that
    by (intro allI impI writeBuckets_bucket) (use sr sm [OF i] in auto)
qed

lemma reduced_cong:
  "d' (outName r) = d (outName r) \<Longrightarrow>
     reduced mapf reducef files nR d0 order r d' = reduced mapf reducef files nR d0 order r d"
  by (simp add: reduced_def)

lemma bucket_concat: "bucket nR r (concat xs) = concat (map (bucket nR r) xs)"
  by (induction xs) (simp_all add: bucket_def)

text \<open>Performing a reduce task reads the buckets of all map tasks.\<close>

lemma work_reduce_dir:
  assumes start: "job_start files nR d0" and r: "r < nR"
    and m: "\<forall>m \<in> set order. mapped mapf files nR d0 m d"
    and iter: "\<forall>g. mset (iter g) = mset g"
    and red: "doReduce r (map (\<lambda>m. intermediateName m r) order) reducef iter d = Inr d'"
  shows "\<forall>f \<in> set files. d' f = d f" and "mapped mapf files nR d0 k d \<Longrightarrow> mapped mapf files nR d0 k d'"
    and "s \<noteq> r \<Longrightarrow> d' (outName s) = d (outName s)"
    and "reduced mapf reducef files nR d0 order r d'"
proof -
  let ?names = "map (\<lambda>m. intermediateName m r) order"
  have "\<exists>g. collectFiles d ?names [] = Inr g \<and> grouped (bucket nR r (allPairs mapf files d0 order)) g"
  proof -
    define c where "c f = (case d f of Some (Pairs kvs) \<Rightarrow> kvs | _ \<Rightarrow> [])" for f
    have "d (intermediateName k r) = Some (Pairs (bucket nR r (pairsOf mapf files d0 k)))"
      if "k \<in> set order" for k
      using m r that by (simp add: mapped_def)
    then have c: "c (intermediateName k r) = bucket nR r (pairsOf mapf files d0 k)"
      "d (intermediateName k r) = Some (Pairs (c (intermediateName k r)))" if "k \<in> set order" for k
      using that by (simp_all add: c_def)
    have "concat (map c ?names) = bucket nR r (allPairs mapf files d0 order)"
      using c(1) by (simp add: allPairs_def bucket_concat comp_def cong: map_cong)
    moreover have "\<forall>f \<in> set ?names. d f = Some (Pairs (c f))" using c(2) by simp
    ultimately show ?thesis using collectFiles_grouped [of ?names d c "[]" "[]"] by simp
  qed
  then obtain g where g: "collectFiles d ?names [] = Inr g"
    "grouped (bucket nR r (allPairs mapf files d0 order)) g" by blast
  with red have d': "d' = d(outName r \<mapsto> Lines (reduceLines reducef (iter g)))"
    by (simp add: doReduce_def)
  show "\<forall>f \<in> set files. d' f = d f"
  proof
    fix f assume "f \<in> set files"
    with start have "take 3 f \<noteq> ''mr-''" by (simp add: job_start_def)
    with names_differ show "d' f = d f" unfolding d' by auto
  qed
  show "mapped mapf files nR d0 k d \<Longrightarrow> mapped mapf files nR d0 k d'"
    using outName_intermediate by (simp add: mapped_def d') metis
  show "s \<noteq> r \<Longrightarrow> d' (outName s) = d (outName s)" by (simp add: d' outName_inj)
  show "reduced mapf reducef files nR d0 order r d'"
    using g(2) iter by (auto simp: reduced_def d')
qed

lemma work_inv:
  assumes start: "job_start files nR d0" and iter: "\<forall>g. mset (iter g) = mset g"
    and inv: "job_inv mapf reducef files nR d0 order j" and w: "workers j w = Got reply"
    and pt: "performTask mapf reducef iter reply (disk j) = Inr (d', args)"
  shows "job_inv mapf reducef files nR d0 order (setWorker w (Finished args) (j\<lparr>disk := d'\<rparr>))"
proof -
  let ?c = "coord j" and ?d = "disk j"
  from inv have t: "tasks_ok files nR order ?c"
    and d: "disk_ok mapf reducef files nR d0 order ?c ?d"
    and wk: "\<And>v. worker_ok mapf reducef files nR d0 order ?c ?d (workers j v)"
    and ex: "exclusive (workers j)" by (auto simp: job_inv_def)
  from wk [of w] w have g: "busy ?c (replyType reply) (TaskIndex reply)"
      "replyType reply = MapTask \<longrightarrow>
         Filenames reply = [files ! nat (TaskIndex reply)] \<and> NReduce reply = int nR"
      "replyType reply = ReduceTask \<longrightarrow>
         Filenames reply = AllFilenames (reduceTasks ?c ! nat (TaskIndex reply))" by simp_all
  have hold: "holds (workers j w) = Some (replyType reply, TaskIndex reply)" using w by simp
  have others: "holds (workers j v) \<noteq> Some (replyType reply, TaskIndex reply)" if "v \<noteq> w" for v
    using ex hold that unfolding exclusive_def by blast
  have args: "doneType args = replyType reply" "doneIndex args = TaskIndex reply"
    using pt by (auto simp: performTask_def split: if_splits sum.splits)
  have goal: ?thesis
    if "disk_ok mapf reducef files nR d0 order ?c d'"
      and o: "\<And>v. v \<noteq> w \<Longrightarrow> worker_ok mapf reducef files nR d0 order ?c d' (workers j v)"
      and "worker_ok mapf reducef files nR d0 order ?c d' (Finished args)"
  proof -
    have "exclusive ((workers j)(w := Finished args))"
      using others by (intro exclusive_set [OF ex]) (simp add: args)
    with that t show ?thesis by (simp add: job_inv_def setWorker_def)
  qed
  define i where "i = nat (TaskIndex reply)"
  have ti: "TaskIndex reply = int i" using g(1) by (auto simp: busy_def i_def)
  from g(1) consider (m) "replyType reply = MapTask" "i < length (mapTasks ?c)"
      "Status (mapTasks ?c ! i) = InProgress"
    | (r) "replyType reply = ReduceTask" "i < length (reduceTasks ?c)"
      "Status (reduceTasks ?c ! i) = InProgress"
    by (auto simp: busy_def i_def slen_def nat_less_iff)
  then show ?thesis
  proof cases
    case m
    then have i: "i < length files" "i \<notin> set order"
      using t by (auto simp: tasks_ok_def completedMaps_def)
    from i(1) have "files ! i \<in> set files" by simp
    with start obtain tx where "d0 (files ! i) = Some (Text tx)"
      unfolding job_start_def by blast
    moreover from d i(1) have "?d (files ! i) = d0 (files ! i)" by (simp add: disk_ok_def)
    ultimately have p: "d' = writeBuckets i nR (pairsOf mapf files d0 i) [0..<nR] ?d"
      "IntermediateFilenames args = reportNames i nR"
      using pt m(1) g(2) ti i(1)
      by (auto simp: performTask_def doMap_def pairsOf_def reportNames_def Let_def)
    note dir = work_map_dir [OF start i(1) p(1)]
    show ?thesis
    proof (rule goal)
      show "disk_ok mapf reducef files nR d0 order ?c d'"
        unfolding disk_ok_def
      proof (intro conjI ballI allI impI)
        show "d' f = d0 f" if "f \<in> set files" for f
          using dir(1) d that by (simp add: disk_ok_def)
        show "mapped mapf files nR d0 k d'" if "k \<in> set order" for k
          using dir(3) [of k mapf] d that i(2) t
          by (auto simp: disk_ok_def tasks_ok_def completedMaps_def)
        show "reduced mapf reducef files nR d0 order s d'"
          if "s < nR" "Status (reduceTasks ?c ! s) = Completed" for s
          using that d reduced_cong [of d' s ?d] dir(2) by (simp add: disk_ok_def)
      qed
      show "worker_ok mapf reducef files nR d0 order ?c d' (workers j v)" if "v \<noteq> w" for v
      proof (rule worker_ok_mono [OF wk])
        show "\<forall>k. holds (workers j v) = Some (MapTask, int k) \<longrightarrow>
            mapped mapf files nR d0 k ?d \<longrightarrow> mapped mapf files nR d0 k d'"
        proof (intro allI impI)
          fix k assume h: "holds (workers j v) = Some (MapTask, int k)"
            and mk: "mapped mapf files nR d0 k ?d"
          from holds_busy [OF wk h] t have "k < length files"
            by (auto simp: busy_def slen_def tasks_ok_def)
          moreover from others [OF that] h m(1) ti have "k \<noteq> i" by auto
          ultimately show "mapped mapf files nR d0 k d'" using dir(3) mk by blast
        qed
        show "\<forall>s. holds (workers j v) = Some (ReduceTask, int s) \<longrightarrow>
            reduced mapf reducef files nR d0 order s ?d \<longrightarrow>
            reduced mapf reducef files nR d0 order s d'"
          using reduced_cong [where d' = d' and d = ?d] dir(2) by blast
      qed auto
      show "worker_ok mapf reducef files nR d0 order ?c d' (Finished args)"
        using args g(1) m(1) ti p(2) dir(4) by simp
    qed
  next
    case r
    then have i: "i < nR" using t by (simp add: tasks_ok_def)
    with r t have names: "AllFilenames (reduceTasks ?c ! i) = map (\<lambda>m. intermediateName m i) order"
      by (simp add: tasks_ok_def)
    with pt r(1) g(3) ti have red:
      "doReduce i (map (\<lambda>m. intermediateName m i) order) reducef iter ?d = Inr d'"
      by (auto simp: performTask_def split: sum.splits)
    have "\<forall>m \<in> set order. mapped mapf files nR d0 m ?d" using d by (simp add: disk_ok_def)
    note dir = work_reduce_dir [OF start i this iter red]
    show ?thesis
    proof (rule goal)
      show "disk_ok mapf reducef files nR d0 order ?c d'"
        unfolding disk_ok_def
      proof (intro conjI ballI allI impI)
        show "d' f = d0 f" if "f \<in> set files" for f
          using dir(1) d that by (simp add: disk_ok_def)
        show "mapped mapf files nR d0 k d'" if "k \<in> set order" for k
          using dir(2) d that by (simp add: disk_ok_def)
        show "reduced mapf reducef files nR d0 order s d'"
          if "s < nR" "Status (reduceTasks ?c ! s) = Completed" for s
          using that d reduced_cong [of d' s ?d] dir(3) [of s] r(3) by (cases "s = i") (auto simp: disk_ok_def)
      qed
      show "worker_ok mapf reducef files nR d0 order ?c d' (workers j v)" if "v \<noteq> w" for v
      proof (rule worker_ok_mono [OF wk])
        show "\<forall>s. holds (workers j v) = Some (ReduceTask, int s) \<longrightarrow>
            reduced mapf reducef files nR d0 order s ?d \<longrightarrow>
            reduced mapf reducef files nR d0 order s d'"
        proof (intro allI impI)
          fix s assume h: "holds (workers j v) = Some (ReduceTask, int s)"
            and rs: "reduced mapf reducef files nR d0 order s ?d"
          from others [OF that] h r(1) ti have "s \<noteq> i" by auto
          with rs reduced_cong [of d' s ?d] dir(3) [of s] show "reduced mapf reducef files nR d0 order s d'" by simp
        qed
      qed (use dir(2) in auto)
      show "worker_ok mapf reducef files nR d0 order ?c d' (Finished args)"
        using args g(1) r(1) ti dir(4) by simp
    qed
  qed
qed

text \<open>A worker that has a map task knows nothing of the order or of the reduce tasks.\<close>

lemma worker_ok_map:
  assumes "worker_ok mapf reducef files nR d0 order c d x"
    and "\<forall>kind i. holds x = Some (kind, i) \<longrightarrow> kind = MapTask \<and> busy c' kind i"
  shows "worker_ok mapf reducef files nR d0 order' c' d x"
  using assms by (cases x) auto

lemma drop_worker:
  assumes ex: "exclusive (workers j)" and x: "holds x = None"
    and "tasks_ok files nR order' c'" and "disk_ok mapf reducef files nR d0 order' c' (disk j)"
    and o: "\<And>v. v \<noteq> w \<Longrightarrow> worker_ok mapf reducef files nR d0 order' c' (disk j) (workers j v)"
  shows "job_inv mapf reducef files nR d0 order' (setWorker w x (j\<lparr>coord := c'\<rparr>))"
proof -
  have "worker_ok mapf reducef files nR d0 order' c' (disk j) x" using x by (cases x) auto
  moreover have "exclusive ((workers j)(w := x))" using x by (intro exclusive_set [OF ex]) simp
  ultimately show ?thesis using assms(3,4) o by (simp add: job_inv_def setWorker_def)
qed

lemma report_map_inv:
  assumes start: "job_start files nR d0" and inv: "job_inv mapf reducef files nR d0 order j"
    and w: "workers j w = Finished args" and m: "doneType args = MapTask" and x: "holds x = None"
    and rt: "completeTask (mapTasks (coord j)) (doneIndex args) = Inr mts"
      "addFiles (IntermediateFilenames args) (reduceTasks (coord j)) = Inr rts"
  shows "job_inv mapf reducef files nR d0 (order @ [nat (doneIndex args)])
    (setWorker w x (j\<lparr>coord := (coord j)\<lparr>mapTasks := mts, reduceTasks := rts\<rparr>\<rparr>))"
proof -
  let ?c = "coord j" and ?d = "disk j" and ?c' = "(coord j)\<lparr>mapTasks := mts, reduceTasks := rts\<rparr>"
  define i where "i = nat (doneIndex args)"
  from inv have t: "tasks_ok files nR order ?c"
    and d: "disk_ok mapf reducef files nR d0 order ?c ?d"
    and wk: "\<And>v. worker_ok mapf reducef files nR d0 order ?c ?d (workers j v)"
    and ex: "exclusive (workers j)" by (auto simp: job_inv_def)
  from wk [of w] w m have g: "busy ?c MapTask (doneIndex args)"
    "IntermediateFilenames args = reportNames i nR" "mapped mapf files nR d0 i ?d"
    by (simp_all add: i_def)
  from g(1) have i: "i < length (mapTasks ?c)" "Status (mapTasks ?c ! i) = InProgress"
    "doneIndex args = int i" by (auto simp: busy_def i_def slen_def nat_less_iff)
  with t have i': "i < length files" "i \<notin> set order"
    by (auto simp: tasks_ok_def completedMaps_def)
  from rt(1) have mts: "mts = (mapTasks ?c)[i := (mapTasks ?c ! i)\<lparr>Status := Completed\<rparr>]"
    unfolding completeTask_Inr i_def by blast
  have len: "length (reduceTasks ?c) = nR" using t by (simp add: tasks_ok_def)
  from start i'(1) have "small i" "small nR" by (auto simp: job_start_def intro: small_le)
  from addFiles_report [of i "reduceTasks ?c", unfolded len, OF this] rt(2) g(2)
  have rts: "rts = map (\<lambda>(r, t). addFile (intermediateName i r) t) (enumerate 0 (reduceTasks ?c))"
    by simp
  then have rlen: "length rts = nR" and
    rnth: "rts ! r = addFile (intermediateName i r) (reduceTasks ?c ! r)" if "r < nR" for r
    using len that by (simp_all add: nth_enumerate_eq)
  have rlen': "length rts = nR" using rts len by simp
  from i have nd: "\<not> allMapTasksDone ?c" by (auto simp: allMapTasksDone_iff)
  have un: "Status (reduceTasks ?c ! r) = Unassigned" if "r < nR" for r
    using t nd that by (auto simp: tasks_ok_def)
  have un': "Status (rts ! r) = Unassigned" if "r < nR" for r
    using un [OF that] rnth [OF that] by (simp add: addFile_def)
  have cm: "completedMaps ?c' = insert i (completedMaps ?c)"
    using i by (auto simp: completedMaps_def mts nth_list_update)
  show ?thesis
    unfolding i_def [symmetric]
  proof (rule drop_worker [OF ex x])
    show "tasks_ok files nR (order @ [i]) ?c'"
      unfolding tasks_ok_def
    proof (intro conjI allI impI)
      show "length (mapTasks ?c') = length files" "nReduce ?c' = int nR"
        using t by (simp_all add: tasks_ok_def mts)
      show "length (reduceTasks ?c') = nR" by (simp add: rlen')
      show "AllFilenames (mapTasks ?c' ! k) = [files ! k]" if "k < length files" for k
        using t that i(1) by (cases "k = i") (simp_all add: tasks_ok_def mts)
      show "distinct (order @ [i])" using t i'(2) by (simp add: tasks_ok_def)
      show "set (order @ [i]) = completedMaps ?c'" using t cm by (simp add: tasks_ok_def)
      show "AllFilenames (reduceTasks ?c' ! r) = map (\<lambda>m. intermediateName m r) (order @ [i])"
        if "r < nR" for r
        using t rnth [OF that] that by (simp add: tasks_ok_def addFile_def)
      show "allMapTasksDone ?c'" if "r < nR" "Status (reduceTasks ?c' ! r) \<noteq> Unassigned" for r
        using un' [OF that(1)] that(2) by simp
    qed
    show "disk_ok mapf reducef files nR d0 (order @ [i]) ?c' ?d"
      using d g(3) un' by (auto simp: disk_ok_def)
    show "worker_ok mapf reducef files nR d0 (order @ [i]) ?c' ?d (workers j v)" if "v \<noteq> w" for v
    proof (rule worker_ok_map [OF wk], intro allI impI)
      fix kind k assume h: "holds (workers j v) = Some (kind, k)"
      have b: "busy ?c kind k" by (rule holds_busy [OF wk h])
      have "holds (workers j w) = Some (MapTask, int i)" using w m i(3) by simp
      with ex h that have "(kind, k) \<noteq> (MapTask, int i)" unfolding exclusive_def by metis
      moreover have "kind = MapTask" using b un len by (auto simp: busy_def slen_def nat_less_iff)
      ultimately have "nat k \<noteq> i" using b by (auto simp: busy_def)
      with b \<open>kind = MapTask\<close> show "kind = MapTask \<and> busy ?c' kind k"
        by (auto simp: busy_def mts slen_def)
    qed
  qed
qed

lemma report_reduce_inv:
  assumes inv: "job_inv mapf reducef files nR d0 order j"
    and w: "workers j w = Finished args" and m: "doneType args = ReduceTask" and x: "holds x = None"
    and rt: "completeTask (reduceTasks (coord j)) (doneIndex args) = Inr rts"
  shows "job_inv mapf reducef files nR d0 order
    (setWorker w x (j\<lparr>coord := (coord j)\<lparr>reduceTasks := rts\<rparr>\<rparr>))"
proof -
  let ?c = "coord j" and ?d = "disk j" and ?c' = "(coord j)\<lparr>reduceTasks := rts\<rparr>"
  define i where "i = nat (doneIndex args)"
  from inv have t: "tasks_ok files nR order ?c"
    and d: "disk_ok mapf reducef files nR d0 order ?c ?d"
    and wk: "\<And>v. worker_ok mapf reducef files nR d0 order ?c ?d (workers j v)"
    and ex: "exclusive (workers j)" by (auto simp: job_inv_def)
  from wk [of w] w m have g: "busy ?c ReduceTask (doneIndex args)"
    "reduced mapf reducef files nR d0 order i ?d" by (simp_all add: i_def)
  from g(1) have i: "i < length (reduceTasks ?c)" "Status (reduceTasks ?c ! i) = InProgress"
    "doneIndex args = int i" by (auto simp: busy_def i_def slen_def nat_less_iff)
  from rt have rts: "rts = (reduceTasks ?c)[i := (reduceTasks ?c ! i)\<lparr>Status := Completed\<rparr>]"
    unfolding completeTask_Inr i_def by blast
  have st: "AllFilenames (rts ! r) = AllFilenames (reduceTasks ?c ! r)"
    "Status (rts ! r) = (if r = i then Completed else Status (reduceTasks ?c ! r))" for r
    using i by (auto simp: rts nth_list_update)
  have same: "completedMaps ?c' = completedMaps ?c" "allMapTasksDone ?c' = allMapTasksDone ?c"
    by (simp_all add: completedMaps_def allMapTasksDone_def)
  show ?thesis
  proof (rule drop_worker [OF ex x])
    have "\<forall>r < nR. Status (rts ! r) \<noteq> Unassigned \<longrightarrow> allMapTasksDone ?c'"
      using t i st(2) same(2) by (auto simp: tasks_ok_def)
    with t same(1) st(1) show "tasks_ok files nR order ?c'"
      by (simp add: tasks_ok_def rts)
    show "disk_ok mapf reducef files nR d0 order ?c' ?d"
      using d g(2) st(2) by (auto simp: disk_ok_def)
    show "worker_ok mapf reducef files nR d0 order ?c' ?d (workers j v)" if "v \<noteq> w" for v
    proof (rule worker_ok_mono [OF wk])
      show "\<forall>kind k. holds (workers j v) = Some (kind, k) \<longrightarrow> busy ?c kind k \<longrightarrow> busy ?c' kind k"
      proof (intro allI impI)
        fix kind k assume h: "holds (workers j v) = Some (kind, k)" and b: "busy ?c kind k"
        have "holds (workers j w) = Some (ReduceTask, int i)" using w m i(3) by simp
        with ex h that have "(kind, k) \<noteq> (ReduceTask, int i)" unfolding exclusive_def by metis
        with b have "kind = ReduceTask \<longrightarrow> nat k \<noteq> i" by (auto simp: busy_def)
        with b st(2) show "busy ?c' kind k" by (auto simp: busy_def rts)
      qed
    qed (use st(1) in auto)
  qed
qed

lemma ReportTaskDone_cases:
  assumes "ReportTaskDone args c = Inr (c', kind, ok)"
  obtains (same) "c' = c"
  | (reportMap) mts rts where "doneType args = MapTask"
      "completeTask (mapTasks c) (doneIndex args) = Inr mts"
      "addFiles (IntermediateFilenames args) (reduceTasks c) = Inr rts"
      "c' = c\<lparr>mapTasks := mts, reduceTasks := rts\<rparr>"
  | (reportReduce) rts where "doneType args = ReduceTask"
      "completeTask (reduceTasks c) (doneIndex args) = Inr rts"
      "c' = c\<lparr>reduceTasks := rts\<rparr>"
proof (cases "allMapTasksDone c \<and> allReduceTasksDone c")
  case True
  with assms show thesis by (simp add: ReportTaskDone_def same)
next
  case nd: False
  show thesis
  proof (cases "doneType args = MapTask")
    case True
    with assms nd show thesis
      by (cases "completeTask (mapTasks c) (doneIndex args)";
          cases "addFiles (IntermediateFilenames args) (reduceTasks c)")
        (simp_all add: ReportTaskDone_def reportMap)
  next
    case nm: False
    with assms nd show thesis
      by (cases "completeTask (reduceTasks c) (doneIndex args)"; cases "doneType args = ReduceTask")
        (simp_all add: ReportTaskDone_def same reportReduce)
  qed
qed

lemma report_inv:
  assumes start: "job_start files nR d0" and inv: "job_inv mapf reducef files nR d0 order j"
    and w: "workers j w = Finished args"
    and rt: "ReportTaskDone args (coord j) = Inr (c', kind, ok)" and x: "holds x = None"
  shows "\<exists>order'. job_inv mapf reducef files nR d0 order' (setWorker w x (j\<lparr>coord := c'\<rparr>))"
proof -
  from inv have wk: "worker_ok mapf reducef files nR d0 order (coord j) (disk j) (workers j v)" for v
    by (simp add: job_inv_def)
  from rt show ?thesis
  proof (cases rule: ReportTaskDone_cases)
    case same
    have "job_inv mapf reducef files nR d0 order (setWorker w x (j\<lparr>coord := coord j\<rparr>))"
      using inv wk by (intro drop_worker x) (auto simp: job_inv_def)
    with same show ?thesis by blast
  next
    case (reportMap mts rts)
    from report_map_inv [OF start inv w reportMap(1) x reportMap(2,3)] reportMap(4)
    show ?thesis by blast
  next
    case (reportReduce rts)
    from report_reduce_inv [OF inv w reportReduce(1) x reportReduce(2)] reportReduce(3)
    show ?thesis by blast
  qed
qed

lemma job_step_inv:
  assumes start: "job_start files nR d0" and iter: "\<forall>g. mset (iter g) = mset g"
    and inv: "job_inv mapf reducef files nR d0 order j"
    and step: "jobStep mapf reducef iter a j = Some j'"
  shows "\<exists>order'. job_inv mapf reducef files nR d0 order' j'"
  using step
proof (cases a)
  case (Ask w now)
  with step show ?thesis
    by (auto split: worker.splits prod.splits intro: ask_inv [OF inv])
next
  case (Work w)
  with step show ?thesis
    by (auto split: worker.splits sum.splits intro: job_inv_crash [OF inv] work_inv [OF start iter inv])
next
  case (Report w)
  with step obtain args c' kind ok where "workers j w = Finished args"
    "ReportTaskDone args (coord j) = Inr (c', kind, ok)"
    "j' = setWorker w (if kind = AllDone then Exited else Asking) (j\<lparr>coord := c'\<rparr>)"
    by (auto split: worker.splits sum.splits)
  with report_inv [OF start inv] show ?thesis by simp
next
  case (CrashWorker w)
  with step show ?thesis by (auto intro: job_inv_crash [OF inv])
qed

lemma job_start_inv: "job_inv mapf reducef files nR d0 [] (startJob files nR d0)"
proof -
  have "tasks_ok files nR [] (MakeCoordinator files nR)"
    by (auto simp: tasks_ok_def MakeCoordinator_def completedMaps_def nth_enumerate_eq)
  moreover have "disk_ok mapf reducef files nR d0 [] (MakeCoordinator files nR) d0"
    by (simp add: disk_ok_def MakeCoordinator_def)
  ultimately show ?thesis by (simp add: job_inv_def startJob_def exclusive_def)
qed

definition jobInit :: "string list \<Rightarrow> nat \<Rightarrow> dir \<Rightarrow> job \<Rightarrow> bool" where
  "jobInit files nR d0 j \<longleftrightarrow> job_start files nR d0 \<and> j = startJob files nR d0"

text \<open>Go promises of a map's iteration only that it visits every entry once.\<close>

definition anyOrder :: "(groups \<Rightarrow> groups) \<Rightarrow> bool" where
  "anyOrder iter \<longleftrightarrow> (\<forall>g. mset (iter g) = mset g)"

definition jobInv ::
  "mapFun \<Rightarrow> reduceFun \<Rightarrow> (groups \<Rightarrow> groups) \<Rightarrow> string list \<Rightarrow> nat \<Rightarrow> dir \<Rightarrow> job \<Rightarrow> bool" where
  "jobInv mapf reducef iter files nR d0 j \<longleftrightarrow>
     job_start files nR d0 \<and>
     (anyOrder iter \<longrightarrow> (\<exists>order. job_inv mapf reducef files nR d0 order j))"

interpretation job: invariant "jobInit files nR d0" "jobStep mapf reducef iter"
  "jobInv mapf reducef iter files nR d0"
proof
  fix j assume "jobInit files nR d0 j"
  then show "jobInv mapf reducef iter files nR d0 j"
    unfolding jobInit_def jobInv_def using job_start_inv by blast
next
  fix j a j' assume "jobInv mapf reducef iter files nR d0 j" "jobStep mapf reducef iter a j = Some j'"
  then show "jobInv mapf reducef iter files nR d0 j'"
    unfolding jobInv_def anyOrder_def by (blast intro: job_step_inv)
qed

lemma run_job_inv:
  assumes "job_start files nR d0" and "anyOrder iter"
    and "run_actions (jobStep mapf reducef iter) acts (startJob files nR d0) = Some j"
  shows "\<exists>order. job_inv mapf reducef files nR d0 order j"
proof -
  have "jobInv mapf reducef iter files nR d0 (startJob files nR d0)"
    using assms(1) by (intro job.inv_init) (simp add: jobInit_def)
  from job.run_inv [OF this assms(3)] assms(2) show ?thesis by (simp add: jobInv_def)
qed

section \<open>The output of a finished job\<close>

lemma done_outputs:
  assumes "job_inv mapf reducef files nR d0 order j" and "Done (coord j)" and "r < nR"
  obtains ls where "disk j (outName r) = Some (Lines ls)"
    "outputOf reducef (bucket nR r (allPairs mapf files d0 order)) ls"
proof -
  from assms have "Status (reduceTasks (coord j) ! r) = Completed"
    by (simp add: Done_iff allReduceTasksDone_def allTasksDone_iff all_set_conv_all_nth
        job_inv_def tasks_ok_def)
  with assms have "reduced mapf reducef files nR d0 order r (disk j)"
    by (simp add: job_inv_def disk_ok_def)
  then obtain g g' where "grouped (bucket nR r (allPairs mapf files d0 order)) g" "mset g' = mset g"
    "disk j (outName r) = Some (Lines (reduceLines reducef g'))" by (auto simp: reduced_def)
  with that grouped_output show thesis by blast
qed

lemma done_order:
  assumes "job_inv mapf reducef files nR d0 order j" and "Done (coord j)"
  shows "mset (allPairs mapf files d0 order)
    = mset (concat (map (pairsOf mapf files d0) [0..<length files]))"
proof -
  from assms have "distinct order" "set order = set [0..<length files]"
    by (auto simp: job_inv_def tasks_ok_def Done_iff allMapTasksDone_completed)
  then have "mset order = mset [0..<length files]"
    using set_eq_iff_mset_eq_distinct [of order "[0..<length files]"] by simp
  then have "mset (map (mset \<circ> pairsOf mapf files d0) order)
      = mset (map (mset \<circ> pairsOf mapf files d0) [0..<length files])"
    by (simp only: mset_map)
  then have "sum_list (map (mset \<circ> pairsOf mapf files d0) order)
      = sum_list (map (mset \<circ> pairsOf mapf files d0) [0..<length files])"
    by (metis sum_mset_sum_list)
  then show ?thesis by (simp add: allPairs_def mset_concat)
qed

lemma readInputs_pairs:
  assumes "job_start files nR d0"
  shows "readInputs mapf d0 files []
    = Inr (concat (map (pairsOf mapf files d0) [0..<length files]))"
proof -
  let ?p = "\<lambda>f. case d0 f of Some (Text s) \<Rightarrow> mapf f s | _ \<Rightarrow> []"
  have "map (pairsOf mapf files d0) [0..<length files] = map ?p (map ((!) files) [0..<length files])"
    by (simp add: pairsOf_def comp_def)
  then have "map (pairsOf mapf files d0) [0..<length files] = map ?p files" by (simp add: map_nth)
  moreover have "\<forall>f \<in> set files. \<exists>s. d0 f = Some (Text s)" using assms by (simp add: job_start_def)
  ultimately show ?thesis using readInputs_all [of files d0 mapf "[]"] by simp
qed

text \<open>The lines of all output files of a job.\<close>

definition linesOf :: "dir \<Rightarrow> string \<Rightarrow> (string \<times> string) list" where
  "linesOf d f = (case d f of Some (Lines ls) \<Rightarrow> ls | _ \<Rightarrow> [])"

definition jobLines :: "nat \<Rightarrow> dir \<Rightarrow> (string \<times> string) list" where
  "jobLines nR d = concat (map (\<lambda>r. linesOf d (outName r)) [0..<nR])"

context mr_app
begin

lemma job_lines:
  assumes "job_inv mapf reducef files nR d0 order j" and "Done (coord j)" and "0 < nR"
  shows "outputOf reducef (concat (map (pairsOf mapf files d0) [0..<length files]))
    (jobLines nR (disk j))"
proof -
  have "outputOf reducef (bucket nR r (allPairs mapf files d0 order)) (linesOf (disk j) (outName r))"
    if r: "r < nR" for r
  proof -
    obtain ls where "disk j (outName r) = Some (Lines ls)"
      "outputOf reducef (bucket nR r (allPairs mapf files d0 order)) ls"
      by (rule done_outputs [OF assms(1,2) r])
    then show ?thesis by (simp add: linesOf_def)
  qed
  then have "outputOf reducef (allPairs mapf files d0 order) (jobLines nR (disk j))"
    unfolding jobLines_def by (intro outputs_union assms(3)) blast
  with outputOf_perm [OF done_order [OF assms(1,2)]] show ?thesis by blast
qed

lemma sequential_lines:
  assumes "job_start files nR d0" and "sorts sorter"
    and "outputOf reducef (concat (map (pairsOf mapf files d0) [0..<length files])) ls"
  shows "\<exists>d'. mrsequential mapf reducef sorter files d0 = Inr d' \<and>
    mset (linesOf d' ''mr-out-0'') = mset ls"
proof -
  let ?kvs = "concat (map (pairsOf mapf files d0) [0..<length files])"
  let ?d = "d0(''mr-out-0'' \<mapsto> Lines (reduceRuns reducef (sorter ?kvs)))"
  have "mrsequential mapf reducef sorter files d0 = Inr ?d"
    unfolding mrsequential_def readInputs_pairs [OF assms(1)] by simp
  moreover have "mset (reduceRuns reducef (sorter ?kvs)) = mset ls"
    using outputOf_mset [OF sequential_output [OF assms(2)] assms(3)] .
  ultimately show ?thesis by (simp add: linesOf_def)
qed

end

text \<open>C15. A finished job has the output of the sequential program. Whatever the interleaving of
  the workers, which of them crash, and how the runtime orders maps: when \<open>Done\<close> is true,
  the lines of the files mr-out-0, ..., together are those mrsequential.go writes, for every
  application whose \<open>Reduce\<close> does not depend on the order of its values.\<close>

theorem job_output:
  assumes "job_start files nR d0" and "0 < nR" and "anyOrder iter" and "sorts sorter"
    and "\<forall>k vs vs'. mset vs = mset vs' \<longrightarrow> reducef k vs = reducef k vs'"
    and "run_actions (jobStep mapf reducef iter) acts (startJob files nR d0) = Some j"
    and "Done (coord j)"
  shows "\<exists>d'. mrsequential mapf reducef sorter files d0 = Inr d' \<and>
    mset (jobLines nR (disk j)) = mset (linesOf d' ''mr-out-0'')"
proof -
  have app: "mr_app reducef" using assms(5) by (intro mr_app.intro) blast
  from run_job_inv [OF assms(1,3,6)] obtain order
    where "job_inv mapf reducef files nR d0 order j" by blast
  from mr_app.job_lines [OF app this assms(7,2)]
  have "outputOf reducef (concat (map (pairsOf mapf files d0) [0..<length files]))
    (jobLines nR (disk j))" .
  from mr_app.sequential_lines [OF app assms(1,4) this] show ?thesis by metis
qed

text \<open>Two workers count the words of two files; worker 1 crashes before it gets a task and
  worker 2 takes over.\<close>

definition demoDir :: dir where
  "demoDir = [''x'' \<mapsto> Text ''a b'', ''y'' \<mapsto> Text ''b'']"

definition demoTime :: int where "demoTime = 20000000000"

definition demoSchedule :: "jobAction list" where
  "demoSchedule =
     [Ask 0 demoTime, CrashWorker 1, Ask 2 demoTime, Work 2, Work 0, Report 2, Report 0,
      Ask 0 demoTime, Work 0, Ask 2 demoTime, Report 0, Work 2, Report 2]"

definition demoJob :: "job option" where
  "demoJob = run_actions (jobStep wc_Map wc_Reduce rev) demoSchedule (startJob [''x'', ''y''] 2 demoDir)"

definition sortByKey :: "KeyValue list \<Rightarrow> KeyValue list" where
  "sortByKey = sort_key Key"

lemma sorts_sortByKey: "sorts sortByKey"
  by (simp add: sorts_def sortByKey_def inOrder_sorted)

lemma demoJob_done:
  "case demoJob of None \<Rightarrow> False
   | Some j \<Rightarrow> Done (coord j) \<and> jobLines 2 (disk j) = [(''a'', ''1''), (''b'', ''2'')]"
  by code_simp

theorem job_output_witness:
  "case demoJob of None \<Rightarrow> False
   | Some j \<Rightarrow>
       (\<exists>d'. mrsequential wc_Map wc_Reduce sortByKey [''x'', ''y''] demoDir = Inr d' \<and>
          mset (jobLines 2 (disk j)) = mset (linesOf d' ''mr-out-0'')) \<and>
       jobLines 2 (disk j) = [(''a'', ''1''), (''b'', ''2'')]"
proof -
  from demoJob_done obtain j where j: "demoJob = Some j" "Done (coord j)"
    "jobLines 2 (disk j) = [(''a'', ''1''), (''b'', ''2'')]" by (auto split: option.splits)
  have start: "job_start [''x'', ''y''] 2 demoDir"
    by (simp add: job_start_def small_def demoDir_def)
  have rv: "anyOrder rev" by (simp add: anyOrder_def)
  have order_free: "\<forall>k vs vs'. mset vs = mset vs' \<longrightarrow> wc_Reduce k vs = wc_Reduce k vs'"
    using wc.order_free by blast
  have two: "0 < (2 :: nat)" by simp
  from job_output [OF start two rv sorts_sortByKey order_free j(1) [unfolded demoJob_def] j(2)]
  show ?thesis unfolding j(1) option.case using j(3) by blast
qed

end
