(* ===== verification/JobProgress.thy ===== *)
theory JobProgress
  imports MapReduce
begin

text \<open>
  Progress of a MapReduce job: tasks that no worker has any more are lost for ever, a job
  without crashes can always be finished, and no handler or task faults on the way.
\<close>

section \<open>Which tasks are in progress\<close>

definition hasTask :: "job \<Rightarrow> int \<Rightarrow> int \<Rightarrow> bool" where
  "hasTask j kind i \<longleftrightarrow> (\<exists>w. holds (workers j w) = Some (kind, i))"

definition lost :: "job \<Rightarrow> int \<Rightarrow> int \<Rightarrow> bool" where
  "lost j kind i \<longleftrightarrow> busy (coord j) kind i \<and> \<not> hasTask j kind i"

lemma RequestTask_busy:
  assumes "RequestTask now c = (c', reply)"
  shows "busy c' kind i \<longleftrightarrow>
      busy c kind i \<or> replyType reply \<noteq> AllDone \<and> kind = replyType reply \<and> i = TaskIndex reply"
    and "replyType reply \<noteq> AllDone \<Longrightarrow> \<not> busy c (replyType reply) (TaskIndex reply)"
  using assms by (cases rule: RequestTask_cases; auto simp: busy_def slen_def offer_def)+

lemma addFiles_keeps:
  "addFiles fs ts = Inr ts' \<Longrightarrow>
     length ts' = length ts \<and> (\<forall>i. Status (ts' ! i) = Status (ts ! i) \<and> StartTime (ts' ! i) = StartTime (ts ! i))"
proof (induction fs ts arbitrary: ts' rule: addFiles.induct)
  case (2 f fs ts)
  from 2(2) obtain r t where rt: "extractReduceTaskIndex f = Inr r" "go_index ts r = Inr t"
    "addFiles fs (ts[nat r := t\<lparr>AllFilenames := AllFilenames t @ [f]\<rparr>]) = Inr ts'"
    by (auto split: sum.splits)
  from 2(1) [OF rt] rt(2) show ?case
    by (auto simp: go_simps nth_list_update nat_less_length_iff)
qed simp

lemma ReportTaskDone_busy:
  assumes "ReportTaskDone args c = Inr (c', k, ok)" and "busy c kind i"
    and "(kind, i) \<noteq> (doneType args, doneIndex args)"
  shows "busy c' kind i"
  using assms(1)
proof (cases rule: ReportTaskDone_cases)
  case (reportMap mts rts)
  from addFiles_keeps [OF reportMap(3)] have "length rts = length (reduceTasks c)"
    "\<forall>i. Status (rts ! i) = Status (reduceTasks c ! i)" by simp_all
  with reportMap assms(2,3) show ?thesis
    by (auto simp: busy_def completeTask_Inr slen_def nth_list_update nat_eq_iff)
next
  case (reportReduce rts)
  with assms(2,3) show ?thesis
    by (auto simp: busy_def completeTask_Inr slen_def nth_list_update nat_eq_iff)
qed (use assms in simp)

lemma performTask_args:
  "performTask mapf reducef iter reply d = Inr (d', args) \<Longrightarrow>
     doneType args = replyType reply \<and> doneIndex args = TaskIndex reply"
  by (auto simp: performTask_def split: if_splits sum.splits)

lemma dispatch_holds:
  "holds (dispatch reply) = Some t \<Longrightarrow>
     replyType reply \<noteq> AllDone \<and> t = (replyType reply, TaskIndex reply)"
  by (auto simp: dispatch_def split: if_splits)

section \<open>Lost tasks\<close>

lemma workers_setWorker [simp]:
  "workers (setWorker w x j) = (workers j)(w := x)"
  "coord (setWorker w x j) = coord j" "disk (setWorker w x j) = disk j"
  by (simp_all add: setWorker_def)

lemma lost_setWorker:
  assumes "lost j kind i" and "busy c' kind i" and "holds x \<noteq> Some (kind, i)"
  shows "lost (setWorker w x (j\<lparr>coord := c', disk := d'\<rparr>)) kind i"
  using assms by (auto simp: lost_def hasTask_def)

lemma lost_step:
  assumes "lost j kind i" and "jobStep mapf reducef iter a j = Some j'"
  shows "lost j' kind i"
proof -
  have b: "busy (coord j) kind i" and nh: "\<And>w. holds (workers j w) \<noteq> Some (kind, i)"
    using assms(1) by (auto simp: lost_def hasTask_def)
  have set: "lost j' kind i"
    if "j' = setWorker w x (j\<lparr>coord := c', disk := d'\<rparr>)" "busy c' kind i" "holds x \<noteq> Some (kind, i)"
    for w x c' d'
    using lost_setWorker [OF assms(1) that(2,3)] that(1) by simp
  show ?thesis
  proof (cases a)
    case (Ask w now)
    obtain c' reply where r: "RequestTask now (coord j) = (c', reply)" by fastforce
    with assms(2) Ask have j': "j' = setWorker w (dispatch reply) (j\<lparr>coord := c', disk := disk j\<rparr>)"
      by (auto split: worker.splits)
    show ?thesis
      by (rule set [OF j']) (use RequestTask_busy [OF r] b dispatch_holds in auto)
  next
    case (Work w)
    with assms(2) obtain reply where g: "workers j w = Got reply" by (auto split: worker.splits)
    show ?thesis
    proof (cases "performTask mapf reducef iter reply (disk j)")
      case (Inl e)
      with assms(2) Work g have "j' = setWorker w Crashed (j\<lparr>coord := coord j, disk := disk j\<rparr>)" by simp
      from set [OF this] b show ?thesis by simp
    next
      case (Inr x)
      obtain d' args where x: "x = (d', args)" by fastforce
      with assms(2) Work g Inr
      have j': "j' = setWorker w (Finished args) (j\<lparr>coord := coord j, disk := d'\<rparr>)" by simp
      show ?thesis
        by (rule set [OF j' b]) (use performTask_args Inr x nh [of w] g in force)
    qed
  next
    case (Report w)
    with assms(2) obtain args c' k ok where g: "workers j w = Finished args"
      "ReportTaskDone args (coord j) = Inr (c', k, ok)"
      "j' = setWorker w (if k = AllDone then Exited else Asking) (j\<lparr>coord := c', disk := disk j\<rparr>)"
      by (auto split: worker.splits sum.splits)
    have "busy c' kind i"
      by (rule ReportTaskDone_busy [OF g(2) b]) (use nh [of w] g(1) in auto)
    from set [OF g(3) this] show ?thesis by simp
  next
    case (CrashWorker w)
    with assms(2) have "j' = setWorker w Crashed (j\<lparr>coord := coord j, disk := disk j\<rparr>)" by simp
    from set [OF this] b show ?thesis by simp
  qed
qed

lemma lost_run:
  "lost j kind i \<Longrightarrow> run_actions (jobStep mapf reducef iter) acts j = Some j' \<Longrightarrow> lost j' kind i"
  by (induction acts arbitrary: j) (auto split: option.splits dest: lost_step)

lemma busy_not_Done: "busy c kind i \<Longrightarrow> \<not> Done c"
  by (auto simp: busy_def Done_iff allMapTasksDone_def allReduceTasksDone_def allTasksDone_iff
      all_set_conv_all_nth slen_def nat_less_iff)

text \<open>C19. A crash is never recovered from: once a worker that has a task crashes, no schedule
  of the remaining and of new workers makes \<open>Done\<close> true. The task stays in progress,
  whatever time passes, because only unassigned tasks are ever handed out.\<close>

theorem crashed_job_never_done:
  assumes "job_start files nR d0" and "anyOrder iter"
    and "run_actions (jobStep mapf reducef iter) acts (startJob files nR d0) = Some j"
    and "holds (workers j w) = Some (kind, i)"
    and "run_actions (jobStep mapf reducef iter) (CrashWorker w # rest) j = Some j'"
  shows "\<not> Done (coord j')"
proof -
  from run_job_inv [OF assms(1-3)] obtain order
    where inv: "job_inv mapf reducef files nR d0 order j" by blast
  have "worker_ok mapf reducef files nR d0 order (coord j) (disk j) (workers j w)"
    and ex: "exclusive (workers j)" using inv by (simp_all add: job_inv_def)
  from holds_busy [OF this(1) assms(4)] have "busy (coord j) kind i" .
  moreover have "holds (workers j v) \<noteq> Some (kind, i)" if "v \<noteq> w" for v
    using ex assms(4) that unfolding exclusive_def by blast
  ultimately have "lost (setWorker w Crashed j) kind i" by (simp add: lost_def hasTask_def)
  moreover have "run_actions (jobStep mapf reducef iter) rest (setWorker w Crashed j) = Some j'"
    using assms(5) by simp
  ultimately have "lost j' kind i" by (rule lost_run)
  then show ?thesis unfolding lost_def using busy_not_Done by blast
qed

text \<open>Worker 0 crashes with the first map task; an hour later worker 1 is told all is done.\<close>

definition crashSchedule :: "jobAction list" where
  "crashSchedule =
     [CrashWorker 0, Ask 1 demoTime, Work 1, Report 1, Ask 1 (demoTime + 3600 * 1000000000)]"

lemma crashSchedule_run:
  "case run_actions (jobStep wc_Map wc_Reduce rev) [Ask 0 demoTime]
          (startJob [''x'', ''y''] 2 demoDir) of
     None \<Rightarrow> False
   | Some j \<Rightarrow> holds (workers j 0) = Some (0, 0) \<and>
      (case run_actions (jobStep wc_Map wc_Reduce rev) crashSchedule j of
         None \<Rightarrow> False
       | Some j' \<Rightarrow> workers j' 1 = Exited)"
  by code_simp

lemma demo_start:
  "job_start [''x'', ''y''] 2 demoDir" "anyOrder rev"
  by (simp_all add: job_start_def small_def demoDir_def anyOrder_def)

theorem crashed_job_never_done_witness:
  "\<exists>j j'. run_actions (jobStep wc_Map wc_Reduce rev) [Ask 0 demoTime]
      (startJob [''x'', ''y''] 2 demoDir) = Some j \<and>
     run_actions (jobStep wc_Map wc_Reduce rev) crashSchedule j = Some j' \<and>
     workers j' 1 = Exited \<and> \<not> Done (coord j')"
proof -
  from crashSchedule_run obtain j j' where
    r: "run_actions (jobStep wc_Map wc_Reduce rev) [Ask 0 demoTime]
      (startJob [''x'', ''y''] 2 demoDir) = Some j" "holds (workers j 0) = Some (0, 0)"
      "run_actions (jobStep wc_Map wc_Reduce rev) crashSchedule j = Some j'" "workers j' 1 = Exited"
    by (auto split: option.splits)
  from crashed_job_never_done [OF demo_start r(1,2) r(3) [unfolded crashSchedule_def]] r
  show ?thesis by blast
qed

section \<open>No fault\<close>

lemma collectFiles_reads:
  "\<forall>f \<in> set fs. \<exists>kvs. d f = Some (Pairs kvs) \<Longrightarrow> \<exists>g'. collectFiles d fs g = Inr g'"
  by (induction fs arbitrary: g) auto

lemma performTask_ok:
  assumes start: "job_start files nR d0" and inv: "job_inv mapf reducef files nR d0 order j"
    and w: "workers j w = Got reply"
  shows "\<exists>r. performTask mapf reducef iter reply (disk j) = Inr r"
proof -
  from inv have t: "tasks_ok files nR order (coord j)"
    and d: "disk_ok mapf reducef files nR d0 order (coord j) (disk j)"
    and "worker_ok mapf reducef files nR d0 order (coord j) (disk j) (workers j w)"
    by (simp_all add: job_inv_def)
  with w have g: "busy (coord j) (replyType reply) (TaskIndex reply)"
      "replyType reply = MapTask \<longrightarrow>
         Filenames reply = [files ! nat (TaskIndex reply)] \<and> NReduce reply = int nR"
      "replyType reply = ReduceTask \<longrightarrow>
         Filenames reply = AllFilenames (reduceTasks (coord j) ! nat (TaskIndex reply))" by simp_all
  define i where "i = nat (TaskIndex reply)"
  from g(1) consider (m) "replyType reply = MapTask" "i < length files"
    | (r) "replyType reply = ReduceTask" "i < nR"
    using t by (auto simp: busy_def slen_def tasks_ok_def i_def nat_less_iff)
  then show ?thesis
  proof cases
    case m
    then have "files ! i \<in> set files" by simp
    with start obtain s where "d0 (files ! i) = Some (Text s)" unfolding job_start_def by blast
    moreover from d m(2) have "disk j (files ! i) = d0 (files ! i)" by (simp add: disk_ok_def)
    ultimately show ?thesis using m(1) g(2) by (simp add: performTask_def doMap_def i_def Let_def)
  next
    case r
    with t g(3) have names: "Filenames reply = map (\<lambda>m. intermediateName m i) order"
      by (simp add: tasks_ok_def i_def)
    have "\<exists>kvs. disk j f = Some (Pairs kvs)" if "f \<in> set (Filenames reply)" for f
      using d r(2) that unfolding names by (auto simp: disk_ok_def mapped_def)
    then obtain g' where "collectFiles (disk j) (Filenames reply) [] = Inr g'"
      using collectFiles_reads [of "Filenames reply" "disk j" "[]"] by blast
    with r(1) show ?thesis by (simp add: performTask_def doReduce_def)
  qed
qed

lemma ReportTaskDone_ok:
  assumes start: "job_start files nR d0" and inv: "job_inv mapf reducef files nR d0 order j"
    and w: "workers j w = Finished args"
  shows "\<exists>c' k. ReportTaskDone args (coord j) = Inr (c', k, True) \<and> k \<noteq> AllDone"
proof -
  from inv have t: "tasks_ok files nR order (coord j)"
    and "worker_ok mapf reducef files nR d0 order (coord j) (disk j) (workers j w)"
    by (simp_all add: job_inv_def)
  with w have g: "busy (coord j) (doneType args) (doneIndex args)"
      "doneType args = MapTask \<longrightarrow> IntermediateFilenames args = reportNames (nat (doneIndex args)) nR"
    by simp_all
  from busy_not_Done [OF g(1)] have nd: "\<not> (allMapTasksDone (coord j) \<and> allReduceTasksDone (coord j))"
    by (simp add: Done_iff)
  from g(1) consider (m) "doneType args = MapTask" "0 \<le> doneIndex args"
      "doneIndex args < slen (mapTasks (coord j))"
    | (r) "doneType args = ReduceTask" "0 \<le> doneIndex args"
      "doneIndex args < slen (reduceTasks (coord j))"
    by (auto simp: busy_def)
  then show ?thesis
  proof cases
    case m
    have len: "length (reduceTasks (coord j)) = nR" using t by (simp add: tasks_ok_def)
    have "nat (doneIndex args) \<le> length files" "small (length files)" "small nR"
      using t m start by (simp_all add: tasks_ok_def slen_def job_start_def)
    then have "\<exists>rts. addFiles (IntermediateFilenames args) (reduceTasks (coord j)) = Inr rts"
      using addFiles_report [of "nat (doneIndex args)" "reduceTasks (coord j)"] g(2) m(1) len small_le
      by auto
    moreover from m(2,3) have "\<exists>mts. completeTask (mapTasks (coord j)) (doneIndex args) = Inr mts"
      by (simp add: completeTask_def)
    ultimately show ?thesis using nd m(1) by (auto simp: ReportTaskDone_def)
  next
    case r
    from r(2,3) have "\<exists>rts. completeTask (reduceTasks (coord j)) (doneIndex args) = Inr rts"
      by (simp add: completeTask_def)
    then show ?thesis using nd r(1) by (auto simp: ReportTaskDone_def)
  qed
qed

text \<open>C20. Nothing a job does ends a process: in every state a job can reach, whatever workers
  crashed before, each worker with a task can perform it (its files exist) and each report
  is accepted (its indices are in range, its file names parse).\<close>

theorem job_never_faults:
  assumes "job_start files nR d0" and "anyOrder iter"
    and "run_actions (jobStep mapf reducef iter) acts (startJob files nR d0) = Some j"
  shows "case workers j w of
      Got reply \<Rightarrow> \<exists>r. performTask mapf reducef iter reply (disk j) = Inr r
    | Finished args \<Rightarrow> \<exists>c k. ReportTaskDone args (coord j) = Inr (c, k, True)
    | _ \<Rightarrow> True"
proof -
  from run_job_inv [OF assms] obtain order
    where inv: "job_inv mapf reducef files nR d0 order j" by blast
  show ?thesis
  proof (cases "workers j w")
    case (Got reply)
    with performTask_ok [OF assms(1) inv Got] show ?thesis by simp
  next
    case (Finished args)
    with ReportTaskDone_ok [OF assms(1) inv Finished] show ?thesis by auto
  qed simp_all
qed

theorem job_never_faults_witness:
  "case run_actions (jobStep wc_Map wc_Reduce rev) [Ask 0 demoTime]
          (startJob [''x'', ''y''] 2 demoDir) of
     None \<Rightarrow> False
   | Some j \<Rightarrow>
      (case workers j 0 of
         Got reply \<Rightarrow> \<exists>r. performTask wc_Map wc_Reduce rev reply (disk j) = Inr r
       | _ \<Rightarrow> False)"
proof -
  have "case run_actions (jobStep wc_Map wc_Reduce rev) [Ask 0 demoTime]
          (startJob [''x'', ''y''] 2 demoDir) of
     None \<Rightarrow> False
   | Some j \<Rightarrow> (case workers j 0 of Got reply \<Rightarrow> True | _ \<Rightarrow> False)" by code_simp
  then obtain j reply where r: "run_actions (jobStep wc_Map wc_Reduce rev) [Ask 0 demoTime]
      (startJob [''x'', ''y''] 2 demoDir) = Some j" "workers j 0 = Got reply"
    by (auto split: option.splits worker.splits)
  from job_never_faults [OF demo_start r(1), of 0] r show ?thesis by simp
qed

section \<open>A job without crashes can be finished\<close>

text \<open>A task that is unassigned has never been started, so its start time is Go's zero time.\<close>

definition fresh_task :: "TypeAndTasks \<Rightarrow> bool" where
  "fresh_task t \<longleftrightarrow>
     Status t = Unassigned \<and> StartTime t = 0 \<or> Status t = InProgress \<or> Status t = Completed"

definition fresh_tasks :: "TypeAndTasks list \<Rightarrow> bool" where
  "fresh_tasks ts \<longleftrightarrow> (\<forall>t \<in> set ts. fresh_task t)"

definition calm :: "job \<Rightarrow> bool" where
  "calm j \<longleftrightarrow>
     (\<forall>kind i. \<not> lost j kind i) \<and> fresh_tasks (mapTasks (coord j)) \<and>
     fresh_tasks (reduceTasks (coord j)) \<and> finite {w. workers j w \<noteq> Asking}"

fun crashes :: "jobAction \<Rightarrow> bool" where
  "crashes (CrashWorker w) = True"
| "crashes _ = False"

lemma fresh_update: "fresh_tasks ts \<Longrightarrow> fresh_task t \<Longrightarrow> fresh_tasks (ts[i := t])"
  unfolding fresh_tasks_def using set_update_subset_insert [of ts i t] by blast

lemma fresh_take: "fresh_tasks ts \<Longrightarrow> fresh_tasks (take_task ts i now)"
  unfolding take_task_def by (rule fresh_update) (simp_all add: fresh_task_def)

lemma fresh_complete: "fresh_tasks ts \<Longrightarrow> completeTask ts i = Inr ts' \<Longrightarrow> fresh_tasks ts'"
  unfolding completeTask_Inr using fresh_update by (simp add: fresh_task_def)

lemma fresh_addFiles: "fresh_tasks ts \<Longrightarrow> addFiles fs ts = Inr ts' \<Longrightarrow> fresh_tasks ts'"
  using addFiles_keeps [of fs ts ts']
  by (simp add: fresh_tasks_def fresh_task_def all_set_conv_all_nth)

lemma finite_others:
  assumes "finite {v. ws v \<noteq> Asking}"
  shows "finite {v. (ws(w := x)) v \<noteq> Asking}"
proof -
  have "{v. (ws(w := x)) v \<noteq> Asking} \<subseteq> insert w {v. ws v \<noteq> Asking}" by auto
  with assms show ?thesis by (meson finite_insert finite_subset)
qed

lemma RequestTask_dispatch:
  assumes inv: "job_inv mapf reducef files nR d0 order j" and "files \<noteq> []"
    and "RequestTask now (coord j) = (c', reply)" and "replyType reply \<noteq> AllDone"
  shows "dispatch reply = Got reply"
  using assms(3)
proof (cases rule: RequestTask_cases)
  case (giveMap i)
  from inv have t: "tasks_ok files nR order (coord j)" by (simp add: job_inv_def)
  with giveMap(1) have "AllFilenames (mapTasks (coord j) ! i) = [files ! i]"
    by (simp add: tasks_ok_def)
  then show ?thesis unfolding giveMap(4) dispatch_def offer_def by simp
next
  case (giveReduce i)
  from inv have t: "tasks_ok files nR order (coord j)" by (simp add: job_inv_def)
  then have "set order = completedMaps (coord j)" "length (mapTasks (coord j)) = length files"
    by (simp_all add: tasks_ok_def)
  with giveReduce(1) have "set order = {..<length files}"
    unfolding allMapTasksDone_completed by simp
  moreover have "0 \<in> {..<length files}" using \<open>files \<noteq> []\<close> by simp
  ultimately have "0 \<in> set order" by (simp only:)
  then have "order \<noteq> []" by (cases order) simp_all
  moreover have "AllFilenames (reduceTasks (coord j) ! i) = map (\<lambda>m. intermediateName m i) order"
    using t giveReduce(2) by (simp add: tasks_ok_def)
  ultimately show ?thesis unfolding giveReduce(7) dispatch_def offer_def by simp
qed (use assms(4) in simp)

lemma calm_set:
  assumes "calm j" and "fresh_tasks (mapTasks c')" and "fresh_tasks (reduceTasks c')"
    and "\<And>kind i. busy c' kind i \<Longrightarrow>
       holds x = Some (kind, i) \<or> busy (coord j) kind i \<and> holds (workers j w) \<noteq> Some (kind, i)"
  shows "calm (setWorker w x (j\<lparr>coord := c', disk := d'\<rparr>))"
proof -
  have "hasTask (setWorker w x (j\<lparr>coord := c', disk := d'\<rparr>)) kind i" if "busy c' kind i" for kind i
    using assms(4) [OF that]
  proof
    assume "holds x = Some (kind, i)"
    then have "holds (workers (setWorker w x (j\<lparr>coord := c', disk := d'\<rparr>)) w) = Some (kind, i)" by simp
    then show ?thesis unfolding hasTask_def by blast
  next
    assume b: "busy (coord j) kind i \<and> holds (workers j w) \<noteq> Some (kind, i)"
    with assms(1) obtain v where v: "holds (workers j v) = Some (kind, i)"
      unfolding calm_def lost_def hasTask_def by blast
    with b have "v \<noteq> w" by auto
    with v have "holds (workers (setWorker w x (j\<lparr>coord := c', disk := d'\<rparr>)) v) = Some (kind, i)" by simp
    then show ?thesis unfolding hasTask_def by blast
  qed
  moreover have "finite {v. workers (setWorker w x (j\<lparr>coord := c', disk := d'\<rparr>)) v \<noteq> Asking}"
    using assms(1) finite_others [of "workers j" w x] by (simp add: calm_def)
  ultimately show ?thesis using assms(2,3) by (simp add: calm_def lost_def)
qed

text \<open>What a report does to the tasks in progress and to those that are not completed.\<close>

definition unfinished :: "TypeAndTasks list \<Rightarrow> nat set" where
  "unfinished ts = {i. i < length ts \<and> Status (ts ! i) \<noteq> Completed}"

definition pending :: "Coordinator \<Rightarrow> (int \<times> nat) set" where
  "pending c =
     {MapTask} \<times> unfinished (mapTasks c) \<union> {ReduceTask} \<times> unfinished (reduceTasks c)"

lemma finite_pending [simp]: "finite (pending c)"
  by (simp add: pending_def unfinished_def)

lemma pending_Done: "pending c = {} \<longleftrightarrow> Done c"
  by (auto simp: pending_def unfinished_def Done_iff allMapTasksDone_def allReduceTasksDone_def allTasksDone_iff
      all_set_conv_all_nth)

lemma unfinished_complete:
  "unfinished (ts[i := (ts ! i)\<lparr>Status := Completed\<rparr>]) = unfinished ts - {i}"
  unfolding unfinished_def
  by (cases "i < length ts") (auto simp: nth_list_update split: if_splits)

lemma complete_busy:
  assumes "mts = ts[i := (ts ! i)\<lparr>Status := Completed\<rparr>]"
    and "k < length mts" and "Status (mts ! k) = InProgress"
  shows "k < length ts \<and> Status (ts ! k) = InProgress \<and> k \<noteq> i"
  using assms(2,3) unfolding assms(1) by (cases "k = i") simp_all

lemma pending_remove:
  "pending (c\<lparr>mapTasks := (mapTasks c)[n := (mapTasks c ! n)\<lparr>Status := Completed\<rparr>]\<rparr>)
    = pending c - {(MapTask, n)}"
  "pending (c\<lparr>reduceTasks := (reduceTasks c)[n := (reduceTasks c ! n)\<lparr>Status := Completed\<rparr>]\<rparr>)
    = pending c - {(ReduceTask, n)}"
  by (auto simp: pending_def unfinished_complete [unfolded Completed_def])

lemma pending_reduce_cong:
  "length rts = length (reduceTasks c) \<Longrightarrow> (\<And>i. Status (rts ! i) = Status (reduceTasks c ! i)) \<Longrightarrow>
    pending (c\<lparr>reduceTasks := rts\<rparr>) = pending c"
  by (simp add: pending_def unfinished_def)

lemma ReportTaskDone_effect:
  assumes "ReportTaskDone args c = Inr (c', k, True)"
    and b: "busy c (doneType args) (doneIndex args)"
  shows "busy c' kind i \<Longrightarrow> busy c kind i \<and> (kind, i) \<noteq> (doneType args, doneIndex args)"
    and "pending c' = pending c - {(doneType args, nat (doneIndex args))}"
    and "fresh_tasks (mapTasks c) \<Longrightarrow> fresh_tasks (reduceTasks c) \<Longrightarrow>
      fresh_tasks (mapTasks c') \<and> fresh_tasks (reduceTasks c')"
proof -
  have nd: "\<not> (allMapTasksDone c \<and> allReduceTasksDone c)"
    using busy_not_Done [OF b] by (simp add: Done_iff)
  have idx: "0 \<le> doneIndex args" using b by (auto simp: busy_def)
  have "(busy c' kind i \<longrightarrow> busy c kind i \<and> (kind, i) \<noteq> (doneType args, doneIndex args)) \<and>
      pending c' = pending c - {(doneType args, nat (doneIndex args))} \<and>
      (fresh_tasks (mapTasks c) \<longrightarrow> fresh_tasks (reduceTasks c) \<longrightarrow>
        fresh_tasks (mapTasks c') \<and> fresh_tasks (reduceTasks c'))"
  proof (cases "doneType args = MapTask")
    case True
    with assms(1) nd obtain mts rts where r:
      "completeTask (mapTasks c) (doneIndex args) = Inr mts"
      "addFiles (IntermediateFilenames args) (reduceTasks c) = Inr rts"
      "c' = c\<lparr>mapTasks := mts, reduceTasks := rts\<rparr>"
      by (auto simp: ReportTaskDone_def split: sum.splits)
    from addFiles_keeps [OF r(2)] have a: "length rts = length (reduceTasks c)"
      "\<And>i. Status (rts ! i) = Status (reduceTasks c ! i)" by simp_all
    have m: "mts = (mapTasks c)[nat (doneIndex args) := (mapTasks c ! nat (doneIndex args))\<lparr>Status := Completed\<rparr>]"
      using r(1) unfolding completeTask_Inr by blast
    have "pending c' = pending c - {(doneType args, nat (doneIndex args))}"
      using pending_reduce_cong [of rts "c\<lparr>mapTasks := mts\<rparr>"] pending_remove(1) a
      unfolding r(3) m True by simp
    moreover have "busy c' kind i \<longrightarrow> busy c kind i \<and> (kind, i) \<noteq> (doneType args, doneIndex args)"
    proof
      assume h: "busy c' kind i"
      show "busy c kind i \<and> (kind, i) \<noteq> (doneType args, doneIndex args)"
      proof (cases "kind = MapTask")
        case k: True
        with h have "nat i < length mts" "Status (mts ! nat i) = InProgress" "0 \<le> i"
          by (auto simp: busy_def r(3) slen_def nat_less_iff)
        with complete_busy [OF m this(1,2)] k show ?thesis
          by (auto simp: busy_def slen_def nat_less_iff)
      next
        case False
        with h True a show ?thesis by (auto simp: busy_def r(3) slen_def)
      qed
    qed
    moreover have "fresh_tasks (mapTasks c) \<longrightarrow> fresh_tasks (reduceTasks c) \<longrightarrow>
        fresh_tasks (mapTasks c') \<and> fresh_tasks (reduceTasks c')"
      using fresh_complete [OF _ r(1)] fresh_addFiles [OF _ r(2)] r(3) by simp
    ultimately show ?thesis by blast
  next
    case False
    with assms(1) nd obtain rts where r: "doneType args = ReduceTask"
      "completeTask (reduceTasks c) (doneIndex args) = Inr rts" "c' = c\<lparr>reduceTasks := rts\<rparr>"
      by (auto simp: ReportTaskDone_def split: sum.splits if_splits)
    have m: "rts = (reduceTasks c)[nat (doneIndex args) := (reduceTasks c ! nat (doneIndex args))\<lparr>Status := Completed\<rparr>]"
      using r(2) unfolding completeTask_Inr by blast
    have "pending c' = pending c - {(doneType args, nat (doneIndex args))}"
      unfolding r(1,3) m by (rule pending_remove(2))
    moreover have "busy c' kind i \<longrightarrow> busy c kind i \<and> (kind, i) \<noteq> (doneType args, doneIndex args)"
    proof
      assume h: "busy c' kind i"
      show "busy c kind i \<and> (kind, i) \<noteq> (doneType args, doneIndex args)"
      proof (cases "kind = ReduceTask")
        case k: True
        with h have "nat i < length rts" "Status (rts ! nat i) = InProgress" "0 \<le> i"
          by (auto simp: busy_def r(3) slen_def nat_less_iff)
        with complete_busy [OF m this(1,2)] k show ?thesis
          by (auto simp: busy_def slen_def nat_less_iff)
      next
        case False
        with h r(1) show ?thesis by (auto simp: busy_def r(3) slen_def)
      qed
    qed
    moreover have "fresh_tasks (mapTasks c) \<longrightarrow> fresh_tasks (reduceTasks c) \<longrightarrow>
        fresh_tasks (mapTasks c') \<and> fresh_tasks (reduceTasks c')"
      using fresh_complete [OF _ r(2)] r(3) by simp
    ultimately show ?thesis by blast
  qed
  then show "busy c' kind i \<Longrightarrow> busy c kind i \<and> (kind, i) \<noteq> (doneType args, doneIndex args)"
    and "pending c' = pending c - {(doneType args, nat (doneIndex args))}"
    and "fresh_tasks (mapTasks c) \<Longrightarrow> fresh_tasks (reduceTasks c) \<Longrightarrow>
      fresh_tasks (mapTasks c') \<and> fresh_tasks (reduceTasks c')" by blast+
qed

lemma busy_pending: "busy c kind i \<Longrightarrow> (kind, nat i) \<in> pending c"
  by (auto simp: busy_def pending_def unfinished_def slen_def nat_less_iff)

lemma RequestTask_effect:
  assumes "RequestTask now c = (c', reply)"
  shows "pending c' = pending c"
    and "fresh_tasks (mapTasks c) \<Longrightarrow> fresh_tasks (reduceTasks c) \<Longrightarrow>
      fresh_tasks (mapTasks c') \<and> fresh_tasks (reduceTasks c')"
proof -
  have p: "unfinished (take_task ts i now) = unfinished ts"
    if "i < length ts" "Status (ts ! i) = Unassigned" for ts i
    using that by (auto simp: unfinished_def)
  have "pending c' = pending c \<and> (fresh_tasks (mapTasks c) \<longrightarrow> fresh_tasks (reduceTasks c) \<longrightarrow>
      fresh_tasks (mapTasks c') \<and> fresh_tasks (reduceTasks c'))"
    using assms
  proof (cases rule: RequestTask_cases)
    case (giveMap i)
    with p [OF giveMap(1,2)] show ?thesis by (simp add: pending_def fresh_take)
  next
    case (giveReduce i)
    with p [OF giveReduce(2,3)] show ?thesis by (simp add: pending_def fresh_take)
  qed (simp add: pending_def)
  then show "pending c' = pending c" "fresh_tasks (mapTasks c) \<Longrightarrow> fresh_tasks (reduceTasks c) \<Longrightarrow>
      fresh_tasks (mapTasks c') \<and> fresh_tasks (reduceTasks c')" by blast+
qed

lemma calm_step:
  assumes start: "job_start files nR d0" and ne: "files \<noteq> []"
    and inv: "job_inv mapf reducef files nR d0 order j" and calm: "calm j"
    and step: "jobStep mapf reducef iter a j = Some j'" and nc: "\<not> crashes a"
  shows "calm j'"
proof (cases a)
  case (Ask w now)
  obtain c' reply where r: "RequestTask now (coord j) = (c', reply)" by fastforce
  from step Ask have w: "workers j w = Asking" by (auto split: worker.splits)
  from step Ask r w have j': "j' = setWorker w (dispatch reply) (j\<lparr>coord := c', disk := disk j\<rparr>)"
    by simp
  have "holds (dispatch reply) = Some (kind, i) \<or>
      busy (coord j) kind i \<and> holds (workers j w) \<noteq> Some (kind, i)" if "busy c' kind i" for kind i
    using that RequestTask_busy(1) [OF r] RequestTask_dispatch [OF inv ne r] w by auto
  with RequestTask_effect(2) [OF r] calm show ?thesis
    unfolding j' by (intro calm_set calm) (auto simp: calm_def)
next
  case (Work w)
  with step obtain reply where g: "workers j w = Got reply" by (auto split: worker.splits)
  from performTask_ok [OF start inv g] obtain d' args
    where p: "performTask mapf reducef iter reply (disk j) = Inr (d', args)" by force
  with step Work g have j': "j' = setWorker w (Finished args) (j\<lparr>coord := coord j, disk := d'\<rparr>)"
    by simp
  show ?thesis
    unfolding j' by (rule calm_set [OF calm]) (use performTask_args [OF p] g calm in \<open>auto simp: calm_def\<close>)
next
  case (Report w)
  with step obtain args where g: "workers j w = Finished args" by (auto split: worker.splits)
  from ReportTaskDone_ok [OF start inv g] obtain c' k
    where r: "ReportTaskDone args (coord j) = Inr (c', k, True)" "k \<noteq> AllDone" by blast
  with step Report g have j': "j' = setWorker w Asking (j\<lparr>coord := c', disk := disk j\<rparr>)" by simp
  from inv have "worker_ok mapf reducef files nR d0 order (coord j) (disk j) (workers j w)"
    by (simp add: job_inv_def)
  with g have b: "busy (coord j) (doneType args) (doneIndex args)" by simp
  show ?thesis
    unfolding j'
    by (rule calm_set [OF calm]) (use ReportTaskDone_effect [OF r(1) b] g calm in \<open>auto simp: calm_def\<close>)
qed (use nc in simp)

lemma calm_run:
  assumes "job_start files nR d0" and "files \<noteq> []" and "anyOrder iter"
  shows "job_inv mapf reducef files nR d0 order j \<Longrightarrow> calm j \<Longrightarrow>
    run_actions (jobStep mapf reducef iter) acts j = Some j' \<Longrightarrow> \<forall>a \<in> set acts. \<not> crashes a \<Longrightarrow>
    (\<exists>order'. job_inv mapf reducef files nR d0 order' j') \<and> calm j'"
proof (induction acts arbitrary: order j)
  case (Cons a acts)
  from Cons.prems obtain j1 where j1: "jobStep mapf reducef iter a j = Some j1"
    "run_actions (jobStep mapf reducef iter) acts j1 = Some j'" by (auto split: option.splits)
  from job_step_inv [OF assms(1) assms(3) [unfolded anyOrder_def] Cons.prems(1) j1(1)]
  obtain order1 where "job_inv mapf reducef files nR d0 order1 j1" by blast
  moreover have "calm j1"
    using calm_step [OF assms(1,2) Cons.prems(1,2) j1(1)] Cons.prems(4) by simp
  ultimately show ?case using Cons.IH [OF _ _ j1(2)] Cons.prems(4) by simp
qed auto

lemma calm_start: "calm (startJob files nR d0)"
  by (auto simp: calm_def startJob_def lost_def hasTask_def busy_def MakeCoordinator_def slen_def
      fresh_tasks_def fresh_task_def nth_enumerate_eq nat_less_iff)

section \<open>Finishing\<close>

lemma report_progress:
  assumes start: "job_start files nR d0" and inv: "job_inv mapf reducef files nR d0 order j"
    and g: "workers j w = Finished args"
  shows "\<exists>j'. jobStep mapf reducef iter (Report w) j = Some j' \<and>
    card (pending (coord j')) < card (pending (coord j))"
proof -
  from ReportTaskDone_ok [OF start inv g] obtain c' k
    where r: "ReportTaskDone args (coord j) = Inr (c', k, True)" "k \<noteq> AllDone" by blast
  from inv have "worker_ok mapf reducef files nR d0 order (coord j) (disk j) (workers j w)"
    by (simp add: job_inv_def)
  with g have b: "busy (coord j) (doneType args) (doneIndex args)" by simp
  from ReportTaskDone_effect(2) [OF r(1) b] busy_pending [OF b]
  have "card (pending c') < card (pending (coord j))" by (metis card_Diff1_less finite_pending)
  with r g show ?thesis by simp
qed

lemma work_progress:
  assumes "job_start files nR d0" and "job_inv mapf reducef files nR d0 order j"
    and "workers j w = Got reply"
  shows "\<exists>j' args. jobStep mapf reducef iter (Work w) j = Some j' \<and> workers j' w = Finished args \<and>
    coord j' = coord j"
  using performTask_ok [OF assms, of iter] assms(3) by force

lemma ask_progress:
  assumes inv: "job_inv mapf reducef files nR d0 order j" and calm: "calm j" and ne: "files \<noteq> []"
    and idle: "\<forall>w. holds (workers j w) = None" and nd: "\<not> Done (coord j)"
  shows "\<exists>w j' reply. jobStep mapf reducef iter (Ask w (tenSeconds + 1)) j = Some j' \<and>
    workers j' w = Got reply \<and> pending (coord j') = pending (coord j)"
proof -
  let ?c = "coord j"
  from calm obtain w where w: "workers j w = Asking"
    unfolding calm_def using infinite_UNIV_nat by (metis (mono_tags) UNIV_I mem_Collect_eq rev_finite_subset subsetI)
  obtain c' reply where r: "RequestTask (tenSeconds + 1) ?c = (c', reply)" by fastforce
  have nb: "\<not> busy ?c kind i" for kind i
    using calm idle by (auto simp: calm_def lost_def hasTask_def)
  have free: "findTask ts (tenSeconds + 1 - tenSeconds) 0 \<noteq> None"
    if "fresh_tasks ts" "\<forall>i < length ts. Status (ts ! i) \<noteq> InProgress" "\<not> allTasksDone ts" for ts
  proof -
    from that(3) obtain t where "t \<in> set ts" "Status t \<noteq> Completed" by (auto simp: allTasksDone_iff)
    moreover from that(2) have "\<forall>t \<in> set ts. Status t \<noteq> InProgress"
      by (simp only: all_set_conv_all_nth)
    ultimately have "t \<in> set ts" "Status t = Unassigned" "StartTime t = 0"
      using that(1) unfolding fresh_tasks_def fresh_task_def by blast+
    then show ?thesis by (auto simp: findTask_None)
  qed
  have notIP: "\<forall>i < length (mapTasks ?c). Status (mapTasks ?c ! i) \<noteq> InProgress"
    "\<forall>i < length (reduceTasks ?c). Status (reduceTasks ?c ! i) \<noteq> InProgress"
    using nb [of MapTask "int _"] nb [of ReduceTask "int _"] by (auto simp: busy_def slen_def)
  have "replyType reply \<noteq> AllDone"
  proof (cases "allMapTasksDone ?c")
    case True
    with nd have "\<not> allReduceTasksDone ?c" by (simp add: Done_iff)
    with free [OF _ notIP(2)] calm obtain i
      where "findTask (reduceTasks ?c) (tenSeconds + 1 - tenSeconds) 0 = Some i"
      by (auto simp: calm_def allReduceTasksDone_def)
    with True \<open>\<not> allReduceTasksDone ?c\<close> r show ?thesis
      by (auto simp: RequestTask_def offer_def allMapTasksDone_def allReduceTasksDone_def Let_def
          split: if_splits)
  next
    case False
    with free [OF _ notIP(1)] calm obtain i
      where "findTask (mapTasks ?c) (tenSeconds + 1 - tenSeconds) 0 = Some i"
      by (auto simp: calm_def allMapTasksDone_def)
    with False r show ?thesis by (auto simp: RequestTask_def offer_def)
  qed
  with RequestTask_dispatch [OF inv ne r] have "dispatch reply = Got reply" by blast
  with w r RequestTask_effect(1) [OF r] show ?thesis
    by (intro exI [of _ w]) simp
qed

text \<open>Some task can be completed: take one that a worker has, or ask for one.\<close>

lemma one_task:
  assumes start: "job_start files nR d0" and ne: "files \<noteq> []" and iter: "anyOrder iter"
    and inv: "job_inv mapf reducef files nR d0 order j" and calm: "calm j"
    and nd: "\<not> Done (coord j)"
  shows "\<exists>acts j'. run_actions (jobStep mapf reducef iter) acts j = Some j' \<and>
    (\<forall>a \<in> set acts. \<not> crashes a) \<and> card (pending (coord j')) < card (pending (coord j))"
proof -
  note step_inv = job_step_inv [OF start iter [unfolded anyOrder_def]]
  have report: ?thesis if "workers j w = Finished args" for w args
    using report_progress [OF start inv that, of iter]
    by (auto intro!: exI [of _ "[Report w]"])
  have work: "\<exists>acts j'. run_actions (jobStep mapf reducef iter) acts k = Some j' \<and>
      (\<forall>a \<in> set acts. \<not> crashes a) \<and> card (pending (coord j')) < card (pending (coord k))"
    if k: "job_inv mapf reducef files nR d0 order' k" "workers k w = Got reply" for k order' w reply
  proof -
    from work_progress [OF start k, of iter] obtain k1 args where
      k1: "jobStep mapf reducef iter (Work w) k = Some k1" "workers k1 w = Finished args"
        "coord k1 = coord k" by blast
    from step_inv [OF k(1) k1(1)] obtain o1 where "job_inv mapf reducef files nR d0 o1 k1" by blast
    from report_progress [OF start this k1(2), of iter] obtain k2 where
      "jobStep mapf reducef iter (Report w) k1 = Some k2"
      "card (pending (coord k2)) < card (pending (coord k1))" by blast
    with k1 show ?thesis by (intro exI [of _ "[Work w, Report w]"] exI [of _ k2]) simp
  qed
  show ?thesis
  proof (cases "\<forall>w. holds (workers j w) = None")
    case True
    from ask_progress [OF inv calm ne this nd, of iter] obtain w k reply where
      k: "jobStep mapf reducef iter (Ask w (tenSeconds + 1)) j = Some k" "workers k w = Got reply"
        "pending (coord k) = pending (coord j)" by blast
    from step_inv [OF inv k(1)] obtain o1 where "job_inv mapf reducef files nR d0 o1 k" by blast
    from work [OF this k(2)] obtain acts j' where
      "run_actions (jobStep mapf reducef iter) acts k = Some j'" "\<forall>a \<in> set acts. \<not> crashes a"
      "card (pending (coord j')) < card (pending (coord j))" unfolding k(3) by blast
    with k(1) show ?thesis
      by (intro exI [of _ "Ask w (tenSeconds + 1) # acts"] exI [of _ j']) simp
  next
    case False
    then obtain w where "holds (workers j w) \<noteq> None" by blast
    then show ?thesis
      by (cases "workers j w") (use work [OF inv] report in auto)
  qed
qed

lemma finish:
  assumes "job_start files nR d0" and "files \<noteq> []" and "anyOrder iter"
  shows "job_inv mapf reducef files nR d0 order j \<Longrightarrow> calm j \<Longrightarrow>
    \<exists>acts j'. run_actions (jobStep mapf reducef iter) acts j = Some j' \<and> Done (coord j')"
proof (induction "card (pending (coord j))" arbitrary: order j rule: less_induct)
  case less
  show ?case
  proof (cases "Done (coord j)")
    case True
    then show ?thesis by (intro exI [of _ "[]"]) simp
  next
    case False
    from one_task [OF assms less.prems False] obtain acts k where
      k: "run_actions (jobStep mapf reducef iter) acts j = Some k" "\<forall>a \<in> set acts. \<not> crashes a"
        "card (pending (coord k)) < card (pending (coord j))" by blast
    from calm_run [OF assms less.prems k(1,2)] obtain o1
      where "job_inv mapf reducef files nR d0 o1 k" "calm k" by blast
    from less.hyps [OF k(3) this] obtain more j' where
      "run_actions (jobStep mapf reducef iter) more k = Some j'" "Done (coord j')" by blast
    with run_append [OF k(1), of more] show ?thesis by (intro exI [of _ "acts @ more"]) simp
  qed
qed

text \<open>A job in which no worker has crashed is never stuck: from every state it can reach there
  is a schedule after which \<open>Done\<close> is true, although workers that asked at the wrong moment
  have exited, as long as a worker can still be started.\<close>

theorem job_can_finish:
  assumes "job_start files nR d0" and "files \<noteq> []" and "anyOrder iter"
    and "run_actions (jobStep mapf reducef iter) acts (startJob files nR d0) = Some j"
    and "\<forall>a \<in> set acts. \<not> crashes a"
  shows "\<exists>more j'. run_actions (jobStep mapf reducef iter) more j = Some j' \<and> Done (coord j')"
proof -
  from calm_run [OF assms(1-3) job_start_inv calm_start assms(4,5)] obtain order
    where "job_inv mapf reducef files nR d0 order j" "calm j" by blast
  from finish [OF assms(1-3) this] show ?thesis .
qed

theorem job_can_finish_witness:
  "\<exists>j j' more. run_actions (jobStep wc_Map wc_Reduce rev)
      [Ask 0 demoTime, Ask 1 demoTime, Ask 2 demoTime] (startJob [''x'', ''y''] 2 demoDir) = Some j \<and>
     workers j 2 = Exited \<and>
     run_actions (jobStep wc_Map wc_Reduce rev) more j = Some j' \<and> Done (coord j')"
proof -
  have "case run_actions (jobStep wc_Map wc_Reduce rev)
      [Ask 0 demoTime, Ask 1 demoTime, Ask 2 demoTime] (startJob [''x'', ''y''] 2 demoDir) of
     None \<Rightarrow> False | Some j \<Rightarrow> workers j 2 = Exited" by code_simp
  then obtain j where j: "run_actions (jobStep wc_Map wc_Reduce rev)
      [Ask 0 demoTime, Ask 1 demoTime, Ask 2 demoTime] (startJob [''x'', ''y''] 2 demoDir) = Some j"
    "workers j 2 = Exited" by (auto split: option.splits)
  have "[''x'', ''y''] \<noteq> []" "\<forall>a \<in> set [Ask 0 demoTime, Ask 1 demoTime, Ask 2 demoTime]. \<not> crashes a"
    by simp_all
  from job_can_finish [OF demo_start(1) this(1) demo_start(2) j(1) this(2)] j show ?thesis by blast
qed

text \<open>No task is handed to two workers: in every state a job can reach, two workers that have
  the same task are the same worker.\<close>

theorem tasks_exclusive:
  assumes "job_start files nR d0" and "anyOrder iter"
    and "run_actions (jobStep mapf reducef iter) acts (startJob files nR d0) = Some j"
    and "holds (workers j v) = Some t" and "holds (workers j w) = Some t"
  shows "v = w"
proof -
  from run_job_inv [OF assms(1-3)] obtain order
    where "job_inv mapf reducef files nR d0 order j" by blast
  then have "exclusive (workers j)" by (simp add: job_inv_def)
  with assms(4,5) show ?thesis unfolding exclusive_def by blast
qed

theorem tasks_exclusive_witness:
  "\<exists>j. run_actions (jobStep wc_Map wc_Reduce rev) [Ask 0 demoTime, Ask 1 demoTime]
      (startJob [''x'', ''y''] 2 demoDir) = Some j \<and>
     holds (workers j 1) = Some (0, 1) \<and> (\<forall>w. holds (workers j w) = Some (0, 1) \<longrightarrow> 1 = w)"
proof -
  have "case run_actions (jobStep wc_Map wc_Reduce rev) [Ask 0 demoTime, Ask 1 demoTime]
      (startJob [''x'', ''y''] 2 demoDir) of
     None \<Rightarrow> False | Some j \<Rightarrow> holds (workers j 1) = Some (0, 1)" by code_simp
  then obtain j where j: "run_actions (jobStep wc_Map wc_Reduce rev) [Ask 0 demoTime, Ask 1 demoTime]
      (startJob [''x'', ''y''] 2 demoDir) = Some j" "holds (workers j 1) = Some (0, 1)"
    by (auto split: option.splits)
  from tasks_exclusive [OF demo_start j(1) j(2)] j show ?thesis by blast
qed

end
