(* ===== verification/MrMains.thy ===== *)
theory MrMains
  imports JobProgress
begin

text \<open>
  mr-main/mrcoordinator.go and mr-main/mrworker.go, the programs, and the transport of
  mr/worker.go: command lines, loading a plugin, the loop in which the coordinator polls \<open>Done\<close>
  and exits, and what becomes of the workers when nobody listens any more. The package plugin is
  a parameter: what it finds under a name.
\<close>

section \<open>Command lines and plugins\<close>

text \<open>The socket on which the coordinator of user \<open>uid\<close> listens.\<close>

definition coordinatorSock :: "int \<Rightarrow> string" where
  "coordinatorSock uid = (let s = ''/var/tmp/824-mr-'' in s @ Itoa uid)"

text \<open>The end of \<open>MakeCoordinator\<close>: nobody can ask a coordinator that cannot listen.\<close>

definition listenOn :: "(string \<Rightarrow> bool) \<Rightarrow> int \<Rightarrow> unit go" where
  "listenOn canListen uid =
     (if canListen (coordinatorSock uid) then Inr () else Inl (Fatal ''listen error:''))"

definition coordinatorMain :: "(string \<Rightarrow> bool) \<Rightarrow> int \<Rightarrow> string list \<Rightarrow> Coordinator go" where
  "coordinatorMain canListen uid osArgs =
     (if slen osArgs < 2 then Inl (Fatal ''Usage: mrcoordinator inputfiles...'')
      else
        case listenOn canListen uid of
          Inl e \<Rightarrow> Inl e
        | Inr u \<Rightarrow> Inr (MakeCoordinator (tl osArgs) 10))"

datatype symbol = MapSymbol mapFun | ReduceSymbol reduceFun | OtherSymbol

text \<open>A type assertion on a symbol of another type panics.\<close>

definition lookupSymbols :: "(string \<Rightarrow> symbol option) \<Rightarrow> (mapFun \<times> reduceFun) go" where
  "lookupSymbols p =
     (case p ''Map'' of
        None \<Rightarrow> Inl (Fatal ''cannot find Map'')
      | Some (MapSymbol mapf) \<Rightarrow>
         (case p ''Reduce'' of
            None \<Rightarrow> Inl (Fatal ''cannot find Reduce'')
          | Some (ReduceSymbol reducef) \<Rightarrow> Inr (mapf, reducef)
          | Some _ \<Rightarrow> Inl (ExplicitPanic ''interface conversion''))
      | Some _ \<Rightarrow> Inl (ExplicitPanic ''interface conversion''))"

definition loadPlugin ::
  "(string \<Rightarrow> (string \<Rightarrow> symbol option) option) \<Rightarrow> string \<Rightarrow> (mapFun \<times> reduceFun) go" where
  "loadPlugin openPlugin filename =
     (case openPlugin filename of
        None \<Rightarrow> Inl (Fatal ''cannot load plugin'')
      | Some p \<Rightarrow> lookupSymbols p)"

definition workerMain ::
  "(string \<Rightarrow> (string \<Rightarrow> symbol option) option) \<Rightarrow> string list \<Rightarrow> (mapFun \<times> reduceFun) go" where
  "workerMain openPlugin osArgs =
     (if slen osArgs \<noteq> 2 then Inl (Fatal ''Usage: mrworker xxx.so'')
      else loadPlugin openPlugin (osArgs ! 1))"

text \<open>The sequential program, with the same application.\<close>

definition sequentialMain ::
  "(string \<Rightarrow> (string \<Rightarrow> symbol option) option) \<Rightarrow> (KeyValue list \<Rightarrow> KeyValue list) \<Rightarrow> string list \<Rightarrow>
     dir \<Rightarrow> dir go" where
  "sequentialMain openPlugin sorter osArgs d =
     (if slen osArgs < 3 then Inl (Fatal ''Usage: mrsequential xxx.so inputfiles...'')
      else
        case loadPlugin openPlugin (osArgs ! 1) of
          Inl e \<Rightarrow> Inl e
        | Inr (mapf, reducef) \<Rightarrow> mrsequential mapf reducef sorter (drop 2 osArgs) d)"

section \<open>Calling the coordinator\<close>

text \<open>
  One call: whether somebody listens on the socket, and the answer, \<open>None\<close> when the call breaks.
  The \<open>reply\<close> that the caller made is left as it is when the call breaks.
\<close>

definition call :: "bool \<Rightarrow> 'r option \<Rightarrow> 'r \<Rightarrow> (bool \<times> 'r) go" where
  "call dialled answer reply =
     (if \<not> dialled then Inl (Fatal ''dialing:'')
      else case answer of Some r \<Rightarrow> Inr (True, r) | None \<Rightarrow> Inr (False, reply))"

text \<open>The function \<open>RequestTask\<close> of the worker, which exits when there is no answer.\<close>

definition workerRequestTask :: "bool \<Rightarrow> RequestTaskReply option \<Rightarrow> RequestTaskReply go" where
  "workerRequestTask dialled answer =
     (case call dialled answer \<lparr>replyType = 0, TaskIndex = 0, Filenames = [], NReduce = 0\<rparr> of
        Inl e \<Rightarrow> Inl e
      | Inr (ret, reply) \<Rightarrow> if \<not> ret then Inl (Fatal ''call failed!'') else Inr reply)"

text \<open>\<open>CallExample\<close> prints the number that it gets.\<close>

definition CallExample :: "bool \<Rightarrow> bool \<Rightarrow> int go" where
  "CallExample dialled answered =
     (case call dialled (if answered then Some (Example 99) else None) 0 of
        Inl e \<Rightarrow> Inl e
      | Inr (ret, replyY) \<Rightarrow> Inr replyY)"

lemma CallExample_answered: "CallExample True True = Inr 100"
  by code_simp

section \<open>The processes\<close>

text \<open>
  The coordinator polls, has found \<open>Done\<close> true and sleeps a last second, or has exited. As long
  as it is there, requests are served. Afterwards a call fails to dial, which is \<open>log.Fatal\<close>, or
  its connection breaks: \<open>RequestTask\<close> then exits, and a report returns to the loop.
\<close>

datatype coordState = Polling | LastSecond | Gone

record mrRun =
  theJob :: job
  coordAt :: coordState

datatype runAction = Serve jobAction | Poll | ExitNow | LoseCall bool nat

fun needsCoordinator :: "jobAction \<Rightarrow> bool" where
  "needsCoordinator (Ask w now) = True"
| "needsCoordinator (Report w) = True"
| "needsCoordinator _ = False"

text \<open>What the loop of a worker does when its call gets no answer.\<close>

definition loseCall :: "bool \<Rightarrow> worker \<Rightarrow> worker option" where
  "loseCall dialled x =
     (case x of
        Asking \<Rightarrow> Some (case workerRequestTask dialled None of Inl e \<Rightarrow> Exited | Inr reply \<Rightarrow> dispatch reply)
      | Finished args \<Rightarrow>
          Some (case call dialled None (0 :: int) of
            Inl e \<Rightarrow> Exited
          | Inr (ok, k) \<Rightarrow> if k = AllDone then Exited else Asking)
      | _ \<Rightarrow> None)"

lemma loseCall_cases:
  "loseCall dialled x = (case x of Asking \<Rightarrow> Some Exited
     | Finished args \<Rightarrow> Some (if dialled then Asking else Exited) | _ \<Rightarrow> None)"
  by (simp add: loseCall_def workerRequestTask_def call_def AllDone_def split: worker.splits)

fun runStep ::
  "mapFun \<Rightarrow> reduceFun \<Rightarrow> (groups \<Rightarrow> groups) \<Rightarrow> runAction \<Rightarrow> mrRun \<Rightarrow> mrRun option" where
  "runStep mapf reducef iter (Serve a) r =
     (if needsCoordinator a \<and> coordAt r = Gone then None
      else map_option (\<lambda>j. r\<lparr>theJob := j\<rparr>) (jobStep mapf reducef iter a (theJob r)))"
| "runStep mapf reducef iter Poll r =
     (if coordAt r = Polling
      then Some (if Done (coord (theJob r)) = False then r else r\<lparr>coordAt := LastSecond\<rparr>) else None)"
| "runStep mapf reducef iter ExitNow r =
     (if coordAt r = LastSecond then Some (r\<lparr>coordAt := Gone\<rparr>) else None)"
| "runStep mapf reducef iter (LoseCall dialled w) r =
     (if coordAt r = Gone
      then map_option (\<lambda>x. r\<lparr>theJob := setWorker w x (theJob r)\<rparr>) (loseCall dialled (workers (theJob r) w))
      else None)"

definition startRun :: "Coordinator \<Rightarrow> dir \<Rightarrow> mrRun" where
  "startRun c d = \<lparr>theJob = \<lparr>coord = c, disk = d, workers = (\<lambda>w. Asking)\<rparr>, coordAt = Polling\<rparr>"

lemma coordinatorMain_run:
  "coordinatorMain canListen uid osArgs = Inr c \<Longrightarrow> theJob (startRun c d) = startJob (tl osArgs) 10 d \<and> tl osArgs \<noteq> []"
  by (cases osArgs) (auto simp: coordinatorMain_def listenOn_def startRun_def startJob_def slen_def neq_Nil_conv split: if_splits)

section \<open>Once the job is done it stays done\<close>

lemma done_no_task:
  assumes "job_inv mapf reducef files nR d0 order j" and "Done (coord j)"
  shows "workers j w \<in> {Asking, Exited, Crashed}"
proof -
  have "worker_ok mapf reducef files nR d0 order (coord j) (disk j) (workers j w)"
    using assms(1) by (simp add: job_inv_def)
  with assms(2) show ?thesis by (cases "workers j w") (auto dest: busy_not_Done)
qed

lemma done_step:
  assumes inv: "job_inv mapf reducef files nR d0 order j" and d: "Done (coord j)"
    and step: "jobStep mapf reducef iter a j = Some j'"
  shows "Done (coord j')"
proof (cases a)
  case (Ask w now)
  obtain c' reply where r: "RequestTask now (coord j) = (c', reply)" by fastforce
  from step Ask r have j': "coord j' = c'" by (auto simp: setWorker_def split: worker.splits)
  from r show ?thesis
  proof (cases rule: RequestTask_cases)
    case (giveMap i)
    with d show ?thesis by (auto simp: Done_iff allMapTasksDone_iff)
  next
    case (giveReduce i)
    with d show ?thesis
      by (auto simp: Done_iff allReduceTasksDone_def allTasksDone_iff all_set_conv_all_nth)
  next
    case idle
    with d show ?thesis by (simp add: Done_iff j' allMapTasksDone_def allReduceTasksDone_def)
  qed
next
  case (Work w)
  with step done_no_task [OF inv d, of w] show ?thesis by (auto split: worker.splits)
next
  case (Report w)
  with step done_no_task [OF inv d, of w] show ?thesis by (auto split: worker.splits)
next
  case (CrashWorker w)
  with step d show ?thesis by (auto simp: setWorker_def)
qed

lemma job_inv_end:
  assumes "job_inv mapf reducef files nR d0 order j" and "holds x = None"
  shows "job_inv mapf reducef files nR d0 order (setWorker w x j)"
proof -
  have "j\<lparr>coord := coord j\<rparr> = j" by simp
  with drop_worker [of j x files nR order "coord j" mapf reducef d0 w] assms show ?thesis
    by (simp add: job_inv_def)
qed

definition runInv ::
  "mapFun \<Rightarrow> reduceFun \<Rightarrow> string list \<Rightarrow> nat \<Rightarrow> dir \<Rightarrow> mrRun \<Rightarrow> bool" where
  "runInv mapf reducef files nR d0 r \<longleftrightarrow>
     (\<exists>order. job_inv mapf reducef files nR d0 order (theJob r)) \<and>
     (coordAt r \<noteq> Polling \<longrightarrow> Done (coord (theJob r)))"

lemma runInv_step:
  assumes start: "job_start files nR d0" and iter: "anyOrder iter"
    and inv: "runInv mapf reducef files nR d0 r" and step: "runStep mapf reducef iter a r = Some r'"
  shows "runInv mapf reducef files nR d0 r'"
proof -
  from inv obtain order where o: "job_inv mapf reducef files nR d0 order (theJob r)" by (auto simp: runInv_def)
  have ends: "runInv mapf reducef files nR d0 (r\<lparr>theJob := setWorker w x (theJob r)\<rparr>)" if "holds x = None" for w x
    using job_inv_end [OF o that, of w] inv by (auto simp: runInv_def setWorker_def)
  show ?thesis
  proof (cases a)
    case (Serve b)
    with step obtain j where j: "jobStep mapf reducef iter b (theJob r) = Some j" "r' = r\<lparr>theJob := j\<rparr>"
      by (auto split: if_splits)
    with job_step_inv [OF start iter [unfolded anyOrder_def] o j(1)] done_step [OF o _ j(1)] inv
    show ?thesis by (auto simp: runInv_def)
  next
    case (LoseCall dialled w)
    with step obtain x where "loseCall dialled (workers (theJob r) w) = Some x"
      "r' = r\<lparr>theJob := setWorker w x (theJob r)\<rparr>" by (auto split: if_splits)
    with ends show ?thesis by (auto simp: loseCall_cases split: worker.splits)
  qed (use step inv in \<open>auto simp: runInv_def split: if_splits\<close>)
qed

lemma runInv_run:
  assumes "job_start files nR d0" and "anyOrder iter"
  shows "runInv mapf reducef files nR d0 r \<Longrightarrow> run_actions (runStep mapf reducef iter) acts r = Some r' \<Longrightarrow>
    runInv mapf reducef files nR d0 r'"
proof (induction acts arbitrary: r)
  case (Cons a acts)
  then obtain q where "runStep mapf reducef iter a r = Some q"
    "run_actions (runStep mapf reducef iter) acts q = Some r'" by (auto split: option.splits)
  with Cons runInv_step [OF assms Cons.prems(1)] show ?case by blast
qed simp

lemma runInv_main:
  assumes "coordinatorMain canListen uid osArgs = Inr c" and "job_start (tl osArgs) 10 d0" and "anyOrder iter"
    and "run_actions (runStep mapf reducef iter) acts (startRun c d0) = Some r"
  shows "runInv mapf reducef (tl osArgs) 10 d0 r"
proof -
  have "runInv mapf reducef (tl osArgs) 10 d0 (startRun c d0)"
    using coordinatorMain_run [OF assms(1)] job_start_inv [of mapf reducef "tl osArgs" 10 d0]
    by (auto simp: runInv_def startRun_def)
  from runInv_run [OF assms(2,3) this assms(4)] show ?thesis .
qed

section \<open>When the coordinator has exited\<close>

text \<open>What mrsequential.go writes with the plugin of the workers and the files of the coordinator.\<close>

definition sameOutput ::
  "(string \<Rightarrow> (string \<Rightarrow> symbol option) option) \<Rightarrow> (KeyValue list \<Rightarrow> KeyValue list) \<Rightarrow>
     string \<Rightarrow> string list \<Rightarrow> dir \<Rightarrow> dir \<Rightarrow> bool" where
  "sameOutput openPlugin sorter plugin files d0 d \<longleftrightarrow>
     (\<exists>d'. sequentialMain openPlugin sorter ([''mrsequential'', plugin] @ files) d0 = Inr d' \<and>
        mset (jobLines 10 d) = mset (linesOf d' ''mr-out-0''))"

lemma workerMain_loads:
  "workerMain openPlugin workerArgs = Inr app \<Longrightarrow> loadPlugin openPlugin (workerArgs ! 1) = Inr app"
  by (simp add: workerMain_def split: if_splits)

lemma runInv_output:
  assumes "runInv mapf reducef files 10 d0 r" and "coordAt r \<noteq> Polling" and "job_start files 10 d0"
    and "sorts sorter" and "mr_app reducef" and "files \<noteq> []"
    and "workerMain openPlugin workerArgs = Inr (mapf, reducef)"
  shows "sameOutput openPlugin sorter (workerArgs ! 1) files d0 (disk (theJob r))"
proof -
  from assms(1,2) obtain order where o: "job_inv mapf reducef files 10 d0 order (theJob r)"
    and d: "Done (coord (theJob r))" by (auto simp: runInv_def)
  have "sequentialMain openPlugin sorter ([''mrsequential'', workerArgs ! 1] @ files) d0 =
      mrsequential mapf reducef sorter files d0"
    using assms(6) workerMain_loads [OF assms(7)]
    by (simp add: sequentialMain_def slen_def Suc_le_eq numeral_2_eq_2)
  with mr_app.sequential_lines [OF assms(5,3,4) mr_app.job_lines [OF assms(5) o d]]
  show ?thesis by (auto simp: sameOutput_def)
qed

text \<open>The worker that an action of a run is about.\<close>

fun workerOf :: "runAction \<Rightarrow> nat option" where
  "workerOf (Serve (Ask w now)) = Some w"
| "workerOf (Serve (Work w)) = Some w"
| "workerOf (Serve (Report w)) = Some w"
| "workerOf (Serve (CrashWorker w)) = Some w"
| "workerOf (LoseCall dialled w) = Some w"
| "workerOf _ = None"

text \<open>C16. When the coordinator program exits, the job is done and over. Whatever the schedule of the
  processes, of polls, crashes and calls that fail: once mrcoordinator.go has left its loop, the
  directory holds the output that mrsequential.go gives for the files of its command line with the
  plugin of the workers; and once
  it has exited no worker has a task, and the next thing a worker does ends it, whether it cannot
  dial, loses its connection, or crashes.\<close>

theorem mr_exit_is_final:
  assumes "coordinatorMain canListen uid osArgs = Inr c" and "job_start (tl osArgs) 10 d0" and "anyOrder iter"
    and "workerMain openPlugin workerArgs = Inr (mapf, reducef)" and "sorts sorter" and "\<forall>k vs vs'. mset vs = mset vs' \<longrightarrow> reducef k vs = reducef k vs'"
    and "run_actions (runStep mapf reducef iter) acts (startRun c d0) = Some r"
  shows "(coordAt r \<noteq> Polling \<longrightarrow> sameOutput openPlugin sorter (workerArgs ! 1) (tl osArgs) d0 (disk (theJob r))) \<and>
    (coordAt r = Gone \<longrightarrow>
       (\<forall>w. workers (theJob r) w \<in> {Asking, Exited, Crashed}) \<and>
       (\<forall>a w r'. runStep mapf reducef iter a r = Some r' \<longrightarrow> workerOf a = Some w \<longrightarrow>
          workers (theJob r') w \<in> {Exited, Crashed}))"
proof -
  note inv = runInv_main [OF assms(1-3,7)]
  have app: "mr_app reducef" using assms(6) by (intro mr_app.intro) blast
  have none: "workers (theJob r) w \<in> {Asking, Exited, Crashed}" if "coordAt r = Gone" for w
  proof -
    from inv that obtain order where "job_inv mapf reducef (tl osArgs) 10 d0 order (theJob r)"
      and "Done (coord (theJob r))" by (auto simp: runInv_def)
    then show ?thesis by (rule done_no_task)
  qed
  have "workers (theJob r') w \<in> {Exited, Crashed}"
    if g: "coordAt r = Gone" and s: "runStep mapf reducef iter a r = Some r'" "workerOf a = Some w" for a w r'
    using none [OF g, of w] g s
    by (cases a rule: workerOf.cases)
      (auto simp: setWorker_def loseCall_cases split: worker.splits)
  with none runInv_output [OF inv _ assms(2,5) app _ assms(4)] coordinatorMain_run [OF assms(1)] show ?thesis by blast
qed


section \<open>The programs come to an end\<close>

fun crashAction :: "runAction \<Rightarrow> bool" where
  "crashAction (Serve a) = crashes a"
| "crashAction _ = False"

definition calmRun ::
  "mapFun \<Rightarrow> reduceFun \<Rightarrow> string list \<Rightarrow> nat \<Rightarrow> dir \<Rightarrow> mrRun \<Rightarrow> bool" where
  "calmRun mapf reducef files nR d0 r \<longleftrightarrow>
     coordAt r = Polling \<longrightarrow>
       (\<exists>order. job_inv mapf reducef files nR d0 order (theJob r)) \<and> calm (theJob r)"

lemma calmRun_step:
  assumes start: "job_start files nR d0" "files \<noteq> []" and iter: "anyOrder iter"
    and inv: "calmRun mapf reducef files nR d0 r" and nc: "\<not> crashAction a"
    and step: "runStep mapf reducef iter a r = Some r'"
  shows "calmRun mapf reducef files nR d0 r'"
proof (cases "\<exists>b. a = Serve b \<and> coordAt r = Polling")
  case True
  with step obtain b j where b: "a = Serve b" "coordAt r = Polling"
    "jobStep mapf reducef iter b (theJob r) = Some j" "r' = r\<lparr>theJob := j\<rparr>"
    by (auto split: if_splits)
  with inv obtain order where o: "job_inv mapf reducef files nR d0 order (theJob r)" "calm (theJob r)"
    by (auto simp: calmRun_def)
  from calm_step [OF start o b(3)] job_step_inv [OF start(1) iter [unfolded anyOrder_def] o(1) b(3)] b nc
  show ?thesis by (simp add: calmRun_def)
qed (use step inv in \<open>cases a; auto simp: calmRun_def split: if_splits\<close>)

lemma calmRun_run:
  assumes "job_start files nR d0" "files \<noteq> []" and "anyOrder iter"
  shows "calmRun mapf reducef files nR d0 r \<Longrightarrow> \<forall>a \<in> set acts. \<not> crashAction a \<Longrightarrow>
    run_actions (runStep mapf reducef iter) acts r = Some r' \<Longrightarrow> calmRun mapf reducef files nR d0 r'"
proof (induction acts arbitrary: r)
  case (Cons a acts)
  then obtain q where "runStep mapf reducef iter a r = Some q"
    "run_actions (runStep mapf reducef iter) acts q = Some r'" by (auto split: option.splits)
  with Cons.IH calmRun_step [OF assms Cons.prems(1)] Cons.prems(2) show ?case by auto
qed simp

lemma run_Serve:
  "coordAt r = Polling \<Longrightarrow> run_actions (jobStep mapf reducef iter) acts (theJob r) = Some j \<Longrightarrow>
    run_actions (runStep mapf reducef iter) (map Serve acts) r = Some (r\<lparr>theJob := j\<rparr>)"
  by (induction acts arbitrary: r) (auto split: option.splits)

lemma run_to_exit:
  assumes "coordinatorMain canListen uid osArgs = Inr c" and "job_start (tl osArgs) 10 d0" and "anyOrder iter"
    and "run_actions (runStep mapf reducef iter) acts (startRun c d0) = Some r"
    and "\<forall>a \<in> set acts. \<not> crashAction a"
  shows "\<exists>more r'. run_actions (runStep mapf reducef iter) more r = Some r' \<and> coordAt r' = Gone"
proof (cases "coordAt r")
  case Polling
  have ne: "tl osArgs \<noteq> []" and s: "theJob (startRun c d0) = startJob (tl osArgs) 10 d0"
    using coordinatorMain_run [OF assms(1)] by simp_all
  have "calmRun mapf reducef (tl osArgs) 10 d0 (startRun c d0)"
    using job_start_inv [of mapf reducef "tl osArgs" 10 d0] calm_start
    unfolding calmRun_def s by blast
  from calmRun_run [OF assms(2) ne assms(3) this assms(5,4)] Polling obtain order where
    "job_inv mapf reducef (tl osArgs) 10 d0 order (theJob r)" "calm (theJob r)" by (auto simp: calmRun_def)
  from finish [OF assms(2) ne assms(3) this] obtain more j where
    more: "run_actions (jobStep mapf reducef iter) more (theJob r) = Some j" "Done (coord j)" by blast
  from run_append [OF run_Serve [OF Polling more(1)], of "[Poll, ExitNow]"] more(2) Polling
  show ?thesis by (intro exI [of _ "map Serve more @ [Poll, ExitNow]"]) simp
next
  case LastSecond
  then show ?thesis by (intro exI [of _ "[ExitNow]"]) simp
next
  case Gone
  then show ?thesis by (intro exI [of _ "[]"]) simp
qed


text \<open>A worker counts words of two files, and a second one asks while the maps are in progress.\<close>

definition demoMain :: "string list" where
  "demoMain = [''mrcoordinator'', ''x'', ''y'']"

definition demoPlugin :: "string \<Rightarrow> (string \<Rightarrow> symbol option) option" where
  "demoPlugin filename =
     (if filename = ''wc.so'' then Some [''Map'' \<mapsto> MapSymbol wc_Map, ''Reduce'' \<mapsto> ReduceSymbol wc_Reduce] else None)"

lemma demoPlugin_loaded: "workerMain demoPlugin [''mrworker'', ''wc.so''] = Inr (wc_Map, wc_Reduce)"
  by (simp add: workerMain_def loadPlugin_def lookupSymbols_def demoPlugin_def slen_def)

definition demoRound :: "runAction list" where
  "demoRound = map Serve [Ask 0 demoTime, Work 0, Report 0]"

definition demoRun :: "runAction list" where
  "demoRun = concat (replicate 12 demoRound) @ [Poll, ExitNow, LoseCall False 0]"


lemma demoRun_exit:
  "case coordinatorMain (\<lambda>f. True) 1000 demoMain of Inl e \<Rightarrow> False | Inr c \<Rightarrow>
     (case run_actions (runStep wc_Map wc_Reduce rev) demoRun (startRun c demoDir) of
        None \<Rightarrow> False
      | Some r \<Rightarrow> coordAt r = Gone \<and> workers (theJob r) 0 = Exited)"
  by code_simp


lemma demoMain_start:
  "job_start (tl demoMain) 10 demoDir"
  "\<forall>k vs vs'. mset vs = mset vs' \<longrightarrow> wc_Reduce k vs = wc_Reduce k vs'"
proof -
  show "job_start (tl demoMain) 10 demoDir"
    by (simp add: demoMain_def job_start_def small_def demoDir_def)
  show "\<forall>k vs vs'. mset vs = mset vs' \<longrightarrow> wc_Reduce k vs = wc_Reduce k vs'"
    by (auto simp: wc_Reduce_def slen_def dest: mset_eq_length)
qed

theorem mr_exit_is_final_witness:
  "case coordinatorMain (\<lambda>f. True) 1000 demoMain of Inl e \<Rightarrow> False | Inr c \<Rightarrow>
     (case run_actions (runStep wc_Map wc_Reduce rev) demoRun (startRun c demoDir) of
        None \<Rightarrow> False
      | Some r \<Rightarrow> workers (theJob r) 0 = Exited \<and>
          sameOutput demoPlugin sortByKey ''wc.so'' [''x'', ''y''] demoDir (disk (theJob r)))"
proof -
  from demoRun_exit obtain c r where r: "coordinatorMain (\<lambda>f. True) 1000 demoMain = Inr c"
    "run_actions (runStep wc_Map wc_Reduce rev) demoRun (startRun c demoDir) = Some r"
    "coordAt r = Gone" "workers (theJob r) 0 = Exited"
    by (auto split: sum.splits option.splits)
  from mr_exit_is_final [OF r(1) demoMain_start(1) demo_start(2) demoPlugin_loaded sorts_sortByKey demoMain_start(2) r(2)] r
  show ?thesis by (simp add: demoMain_def)
qed


end
