(* ===== verification/MrTiming.thy ===== *)
theory MrTiming
  imports MrApps
begin

text \<open>
  The applications of mr-main/mrapps that observe the run: mtiming.go and rtiming.go, in which
  every call counts the processes that are in the same phase, by files named after their process
  ids (both files hold the same function \<open>nparallel\<close>); and jobcount.go, which counts the calls of \<open>Map\<close>. Process ids are given once. A step is one
  operation on the directory or on a process, so that processes of any number interleave.
\<close>

section \<open>How many processes run in parallel\<close>

definition phaseFile :: "string \<Rightarrow> nat \<Rightarrow> string" where
  "phaseFile phase pid = ''mr-worker-'' @ phase @ ''-'' @ Itoa (int pid)"

text \<open>\<open>Sscanf(name, pat, &xpid)\<close> with the pattern of the phase.\<close>

definition scanPhase :: "string \<Rightarrow> string \<Rightarrow> int option" where
  "scanPhase phase name =
     (case scanLiteral (''mr-worker-'' @ phase @ ''-'') name of
        None \<Rightarrow> None | Some rest \<Rightarrow> map_option fst (scanInt rest))"

text \<open>
  Where a process is in \<open>nparallel\<close>: outside; its file written; counting, with the names still to
  be looked at; or done with counting, which is having no names left.
\<close>

datatype stage = Outside | Marked | Counting "string list" int

record processes =
  dirnames :: "string list"
  stages :: "nat \<Rightarrow> stage option"
  spawned :: "nat set"
  returned :: "(nat \<times> int) list"

datatype parAction =
    Spawn nat
  | Enter nat
  | ListDir nat "string list"
  | LookAt nat
  | Leave nat
  | Die nat

text \<open>\<open>Readdirnames(1000000)\<close>: so many names, in any order.\<close>

definition listing :: "string list \<Rightarrow> string list \<Rightarrow> bool" where
  "listing names dir \<longleftrightarrow> distinct names \<and> set names \<subseteq> set dir \<and> slen names = min 1000000 (slen dir)"

text \<open>\<open>syscall.Kill(xpid, 0)\<close> succeeds for a process that exists.\<close>

definition killOk :: "processes \<Rightarrow> int \<Rightarrow> bool" where
  "killOk s xpid \<longleftrightarrow> 0 < xpid \<and> stages s (nat xpid) \<noteq> None"

definition countName :: "string \<Rightarrow> processes \<Rightarrow> string \<Rightarrow> int \<Rightarrow> int" where
  "countName phase s name ret =
     (case scanPhase phase name of
        None \<Rightarrow> ret | Some xpid \<Rightarrow> if killOk s xpid then ret + 1 else ret)"

definition setStage :: "nat \<Rightarrow> stage option \<Rightarrow> processes \<Rightarrow> processes" where
  "setStage pid x s = s\<lparr>stages := (stages s)(pid := x)\<rparr>"

text \<open>\<open>os.Remove\<close>: a file that is not there makes the process panic.\<close>

definition removeFile :: "string \<Rightarrow> string list \<Rightarrow> string list go" where
  "removeFile name dir =
     (if name \<in> set dir then Inr (removeAll name dir) else Inl (ExplicitPanic ''remove''))"

fun parStep :: "string \<Rightarrow> parAction \<Rightarrow> processes \<Rightarrow> processes option" where
  "parStep phase (Spawn pid) s =
     (if pid \<in> spawned s \<or> pid = 0 \<or> \<not> small pid then None
      else Some (setStage pid (Some Outside) s\<lparr>spawned := insert pid (spawned s)\<rparr>))"
| "parStep phase (Enter pid) s =
     (if stages s pid = Some Outside
      then Some (setStage pid (Some Marked) s\<lparr>dirnames := List.insert (phaseFile phase pid) (dirnames s)\<rparr>)
      else None)"
| "parStep phase (ListDir pid names) s =
     (if stages s pid = Some Marked \<and> listing names (dirnames s)
      then Some (setStage pid (Some (Counting names 0)) s) else None)"
| "parStep phase (LookAt pid) s =
     (case stages s pid of
        Some (Counting (name # names) ret) \<Rightarrow>
          Some (setStage pid (Some (Counting names (countName phase s name ret))) s)
      | _ \<Rightarrow> None)"
| "parStep phase (Leave pid) s =
     (case stages s pid of
        Some (Counting [] ret) \<Rightarrow>
          (case removeFile (phaseFile phase pid) (dirnames s) of
             Inl _ \<Rightarrow> Some (setStage pid None s)
           | Inr dir \<Rightarrow> Some (setStage pid (Some Outside) s
                 \<lparr>dirnames := dir, returned := returned s @ [(pid, ret)]\<rparr>))
      | _ \<Rightarrow> None)"
| "parStep phase (Die pid) s = (if stages s pid = None then None else Some (setStage pid None s))"

text \<open>Before the job no file has a name of the phase.\<close>

definition parInit :: "string \<Rightarrow> processes \<Rightarrow> bool" where
  "parInit phase s \<longleftrightarrow> distinct (dirnames s) \<and> (\<forall>name \<in> set (dirnames s). scanPhase phase name = None) \<and>
     stages s = (\<lambda>pid. None) \<and> spawned s = {} \<and> returned s = []"

lemma scanLiteral_append [simp]: "scanLiteral p (p @ s) = Some s"
  by (induction p) auto

lemma scanInt_end:
  assumes "small n"
  shows "scanInt (showNat n) = Some (int n, [])"
proof -
  obtain d ds where s: "showNat n = d # ds" "isDigit d" by (rule showNat_Cons)
  with digit_not_sign [OF s(2)] have "dropWhile isBlank (showNat n) = showNat n"
    "hd (showNat n) \<noteq> CHR ''-''" "hd (showNat n) \<noteq> CHR ''+''" by simp_all
  moreover have "unsignedPart (showNat n) = Some (n, [])"
    unfolding unsignedPart_def conjunct1 [OF takeWhile_showNat_end]
      conjunct2 [OF takeWhile_showNat_end] by simp
  ultimately show ?thesis using small_inInt [OF assms] by (simp add: scanInt_def Let_def)
qed

lemma scanPhase_file: "small pid \<Longrightarrow> scanPhase phase (phaseFile phase pid) = Some (int pid)"
proof -
  assume s: "small pid"
  have "phaseFile phase pid = (''mr-worker-'' @ phase @ ''-'') @ showNat pid"
    by (simp add: phaseFile_def Itoa_def)
  with scanInt_end [OF s] show ?thesis unfolding scanPhase_def by (simp del: append_assoc append.simps)
qed

lemma phaseFile_inj: "phaseFile phase p = phaseFile phase q \<longleftrightarrow> p = q"
  by (simp add: phaseFile_def Itoa_def)

section \<open>The files are those of the processes in the phase\<close>

definition inPhase :: "processes \<Rightarrow> nat set" where
  "inPhase s = {pid. stages s pid \<notin> {None, Some Outside}}"

definition par_inv :: "string \<Rightarrow> processes \<Rightarrow> bool" where
  "par_inv phase s \<longleftrightarrow> distinct (dirnames s) \<and> finite (spawned s) \<and>
     (\<forall>pid \<in> spawned s. 0 < pid \<and> small pid) \<and> (\<forall>pid. stages s pid \<noteq> None \<longrightarrow> pid \<in> spawned s) \<and>
     (\<forall>pid. stages s pid \<noteq> None \<longrightarrow> (phaseFile phase pid \<in> set (dirnames s) \<longleftrightarrow> pid \<in> inPhase s)) \<and>
     (\<forall>name \<in> set (dirnames s). scanPhase phase name \<noteq> None \<longrightarrow>
        (\<exists>pid \<in> spawned s. name = phaseFile phase pid))"

lemma par_inv_step:
  assumes inv: "par_inv phase s" and step: "parStep phase a s = Some t"
  shows "par_inv phase t"
proof (cases a)
  case (Spawn pid)
  have "phaseFile phase pid \<notin> set (dirnames s)" if "pid \<notin> spawned s" "small pid"
    using inv that scanPhase_file [of pid phase] by (auto simp: par_inv_def phaseFile_inj)
  with Spawn inv step show ?thesis
    by (auto simp: par_inv_def setStage_def inPhase_def split: if_splits)
next
  case (Enter pid)
  with inv step show ?thesis
    by (auto simp: par_inv_def setStage_def inPhase_def phaseFile_inj split: if_splits)
next
  case (ListDir pid names)
  with inv step show ?thesis
    by (auto simp: par_inv_def setStage_def inPhase_def split: if_splits)
next
  case (LookAt pid)
  with step obtain name names ret where r: "stages s pid = Some (Counting (name # names) ret)"
    by (auto split: option.splits stage.splits list.splits)
  with inv have "pid \<in> spawned s" "phaseFile phase pid \<in> set (dirnames s)"
    by (auto simp: par_inv_def inPhase_def)
  with LookAt r inv step show ?thesis
    by (auto simp: par_inv_def setStage_def inPhase_def split: if_splits)
next
  case (Leave pid)
  with step obtain ret where r: "stages s pid = Some (Counting [] ret)"
    by (auto split: option.splits stage.splits list.splits)
  with inv have "phaseFile phase pid \<in> set (dirnames s)" by (auto simp: par_inv_def inPhase_def)
  with Leave r inv step show ?thesis
    by (auto simp: par_inv_def setStage_def inPhase_def removeFile_def phaseFile_inj distinct_removeAll
        split: if_splits)
next
  case (Die pid)
  with inv step show ?thesis
    by (auto simp: par_inv_def setStage_def inPhase_def split: if_splits)
qed

lemma par_inv_init: "parInit phase s \<Longrightarrow> par_inv phase s"
  by (simp add: parInit_def par_inv_def)

interpretation par: invariant "parInit phase" "parStep phase" "par_inv phase"
  by unfold_locales (rule par_inv_init par_inv_step; assumption)+

section \<open>What is counted\<close>

text \<open>
  A process lists the directory in \<open>s\<close> and has looked at a part of the names in \<open>v\<close>: it has
  counted processes that were in the phase in \<open>s\<close>, and among those it has seen all that are
  still there.
\<close>

definition seenBy :: "string \<Rightarrow> processes \<Rightarrow> string list \<Rightarrow> nat set" where
  "seenBy phase s seen = {pid \<in> inPhase s. phaseFile phase pid \<in> set seen}"

definition alive :: "processes \<Rightarrow> nat set" where
  "alive v = {pid. stages v pid \<noteq> None}"

definition counted_so_far ::
  "string \<Rightarrow> nat \<Rightarrow> string list \<Rightarrow> processes \<Rightarrow> processes \<Rightarrow> bool" where
  "counted_so_far phase pid names s v \<longleftrightarrow> pid \<in> spawned v \<and> spawned s \<subseteq> spawned v \<and>
     alive v \<inter> spawned s \<subseteq> alive s \<and>
     (\<forall>rest ret. stages v pid = Some (Counting rest ret) \<longrightarrow>
        (\<exists>seen. names = seen @ rest \<and> int (card (seenBy phase s seen \<inter> alive v)) \<le> ret \<and>
           ret \<le> int (card (seenBy phase s seen))))"

lemma inPhase_alive: "par_inv phase s \<Longrightarrow> inPhase s \<subseteq> alive s \<inter> spawned s"
  by (auto simp: par_inv_def inPhase_def alive_def)

lemma finite_seenBy: "par_inv phase s \<Longrightarrow> finite (seenBy phase s seen)"
  using inPhase_alive [of phase s] by (auto simp: seenBy_def par_inv_def intro: finite_subset)

lemma seenBy_snoc:
  "seenBy phase s (seen @ [name]) = seenBy phase s seen \<union> {pid \<in> inPhase s. phaseFile phase pid = name}"
  by (auto simp: seenBy_def)

text \<open>Looking at one more name.\<close>

lemma countName_seen:
  assumes inv: "par_inv phase s" and names: "distinct (seen @ name # rest)" "set (seen @ name # rest) \<subseteq> set (dirnames s)"
    and alive: "alive v \<inter> spawned s \<subseteq> alive s"
    and ret: "int (card (seenBy phase s seen \<inter> alive v)) \<le> ret" "ret \<le> int (card (seenBy phase s seen))"
  shows "int (card (seenBy phase s (seen @ [name]) \<inter> alive v)) \<le> countName phase v name ret \<and>
    countName phase v name ret \<le> int (card (seenBy phase s (seen @ [name])))"
proof (cases "scanPhase phase name")
  case None
  have "\<forall>pid \<in> inPhase s. phaseFile phase pid \<noteq> name"
    using None inv inPhase_alive [OF inv] scanPhase_file by (fastforce simp: par_inv_def)
  then have "seenBy phase s (seen @ [name]) = seenBy phase s seen" by (auto simp: seenBy_snoc)
  with None ret show ?thesis by (simp add: countName_def)
next
  case (Some x)
  with inv names(2) obtain pid where p: "pid \<in> spawned s" "name = phaseFile phase pid"
    by (auto simp: par_inv_def)
  then have ps: "0 < pid" "small pid" using inv by (auto simp: par_inv_def)
  with Some p have x: "x = int pid" by (simp add: scanPhase_file)
  have new: "seenBy phase s (seen @ [name]) = seenBy phase s seen \<union> ({pid} \<inter> inPhase s)"
    by (auto simp: seenBy_snoc p phaseFile_inj)
  have "pid \<notin> seenBy phase s seen" using names(1) p by (auto simp: seenBy_def)
  note fin = finite_seenBy [OF inv, of seen]
  show ?thesis
  proof (cases "pid \<in> alive v")
    case True
    with alive p have "pid \<in> alive s" by blast
    with inv names(2) p have "pid \<in> inPhase s" by (auto simp: par_inv_def alive_def)
    with new \<open>pid \<notin> seenBy phase s seen\<close> True fin ret ps show ?thesis
      by (simp add: countName_def Some x killOk_def alive_def Int_insert_left)
  next
    case False
    then have "countName phase v name ret = ret" by (simp add: countName_def Some x killOk_def alive_def)
    moreover have "seenBy phase s (seen @ [name]) \<inter> alive v = seenBy phase s seen \<inter> alive v"
      using new False by auto
    moreover have "card (seenBy phase s seen) \<le> card (seenBy phase s (seen @ [name]))"
      using finite_seenBy [OF inv] new by (intro card_mono) auto
    ultimately show ?thesis using ret by simp
  qed
qed

lemma spawned_step:
  assumes "parStep phase a v = Some w"
  shows "spawned v \<subseteq> spawned w" "alive w \<inter> spawned v \<subseteq> alive v"
  using assms
  by (cases a; auto simp: setStage_def alive_def split: if_splits option.splits stage.splits list.splits sum.splits)+

lemma counted_step:
  assumes inv: "par_inv phase s" and names: "distinct names" "set names \<subseteq> set (dirnames s)"
    and c: "counted_so_far phase pid names s v" and step: "parStep phase a v = Some w"
    and a: "\<And>xs. a \<noteq> ListDir pid xs"
  shows "counted_so_far phase pid names s w"
proof -
  note sp = spawned_step [OF step]
  have al: "alive w \<inter> spawned s \<subseteq> alive s" "pid \<in> spawned w" "spawned s \<subseteq> spawned w"
    using c sp by (auto simp: counted_so_far_def)
  have sub: "seenBy phase s seen \<inter> alive w \<subseteq> seenBy phase s seen \<inter> alive v" for seen
    using inPhase_alive [OF inv] c sp by (auto simp: counted_so_far_def seenBy_def)
  have "\<exists>seen. names = seen @ rest \<and> int (card (seenBy phase s seen \<inter> alive w)) \<le> ret \<and>
      ret \<le> int (card (seenBy phase s seen))" if w: "stages w pid = Some (Counting rest ret)" for rest ret
  proof (cases "stages v pid = Some (Counting rest ret)")
    case True
    with c obtain seen where "names = seen @ rest" "int (card (seenBy phase s seen \<inter> alive v)) \<le> ret"
      "ret \<le> int (card (seenBy phase s seen))" by (auto simp: counted_so_far_def)
    moreover have "card (seenBy phase s seen \<inter> alive w) \<le> card (seenBy phase s seen \<inter> alive v)"
      using sub finite_seenBy [OF inv] by (intro card_mono) auto
    ultimately show ?thesis by (intro exI [of _ seen]) simp
  next
    case False
    with step w a obtain name ret0 where v: "stages v pid = Some (Counting (name # rest) ret0)"
      and ret: "ret = countName phase v name ret0" and w': "w = setStage pid (Some (Counting rest ret)) v"
      by (cases a) (auto simp: setStage_def split: if_splits option.splits stage.splits list.splits sum.splits)
    have al': "alive w = alive v" using v by (auto simp: w' setStage_def alive_def)
    from c v obtain seen where n: "names = seen @ name # rest"
      "int (card (seenBy phase s seen \<inter> alive v)) \<le> ret0" "ret0 \<le> int (card (seenBy phase s seen))"
      by (auto simp: counted_so_far_def)
    from countName_seen [OF inv _ _ _ n(2,3), of name rest] names c show ?thesis
      by (intro exI [of _ "seen @ [name]"]) (simp add: n(1) ret al' counted_so_far_def)
  qed
  with al show ?thesis by (simp add: counted_so_far_def)
qed

lemma counted_run:
  assumes inv: "par_inv phase s" and names: "distinct names" "set names \<subseteq> set (dirnames s)"
  shows "run_actions (parStep phase) as v = Some w \<Longrightarrow> counted_so_far phase pid names s v \<Longrightarrow>
    \<forall>xs. ListDir pid xs \<notin> set as \<Longrightarrow> counted_so_far phase pid names s w"
proof (induction as arbitrary: v)
  case (Cons a as)
  then obtain x where "parStep phase a v = Some x" "run_actions (parStep phase) as x = Some w"
    by (auto split: option.splits)
  with Cons counted_step [OF inv names, of pid v a x] show ?case by auto
qed simp

text \<open>C22. \<open>nparallel\<close> measures parallelism, as the test of the MapReduce framework needs it. However
  processes start, enter and leave the phase, and die: the number that a process has counted when
  it has looked at every name of a listing is at most the number of processes that were in the
  phase together at the moment of the listing, and at least the number of those that are still
  alive when it has finished. Files of dead processes and other files are not counted.\<close>

theorem nparallel_counts:
  assumes "reachable (parInit phase) (parStep phase) s" and "slen (dirnames s) \<le> 1000000"
    and "parStep phase (ListDir pid names) s = Some t" and "run_actions (parStep phase) as t = Some u"
    and "\<forall>xs. ListDir pid xs \<notin> set as" and "stages u pid = Some (Counting [] n)"
  shows "int (card (inPhase s \<inter> alive u)) \<le> n \<and> n \<le> int (card (inPhase s)) \<and> 1 \<le> n"
proof -
  have inv: "par_inv phase s" using assms(1) by (rule par.reachable_inv)
  from assms(3) have t: "stages s pid = Some Marked" "listing names (dirnames s)"
    "t = setStage pid (Some (Counting names 0)) s" by (auto split: if_splits)
  from t(2) inv assms(2) have l: "distinct names" "set names = set (dirnames s)"
    using card_subset_eq [of "set (dirnames s)" "set names"]
    by (auto simp: listing_def par_inv_def distinct_card slen_def)
  have "pid \<in> spawned s" using inv t(1) by (auto simp: par_inv_def)
  then have "counted_so_far phase pid names s t"
    using t by (auto simp: counted_so_far_def t(3) setStage_def alive_def seenBy_def)
  from counted_run [OF inv l(1) _ assms(4) this assms(5)] assms(6) l have
    n: "int (card (seenBy phase s names \<inter> alive u)) \<le> n" "n \<le> int (card (seenBy phase s names))"
    by (auto simp: counted_so_far_def)
  have "phaseFile phase p \<in> set names" if "p \<in> inPhase s" for p
    using that inv by (auto simp: l(2) par_inv_def inPhase_def)
  then have all: "seenBy phase s names = inPhase s" by (auto simp: seenBy_def)
  have "pid \<in> inPhase s \<inter> alive u" using t(1) assms(6) by (simp add: inPhase_def alive_def)
  then have "0 < card (inPhase s \<inter> alive u)"
    using finite_seenBy [OF inv, of names] by (auto simp: card_gt_0_iff all)
  with n show ?thesis by (simp add: all)
qed

text \<open>Three processes; 7 has died in the phase when 5 counts, and 6 leaves while it does.\<close>

definition demoProcesses :: processes where
  "demoProcesses = \<lparr>dirnames = [''pg.txt'', ''mr-worker-map-x''], stages = (\<lambda>pid. None), spawned = {}, returned = []\<rparr>"

definition demoEnter :: "parAction list" where
  "demoEnter = [Spawn 5, Spawn 6, Spawn 7, Enter 7, Enter 6, Die 7, ListDir 6 [''mr-worker-map-6'', ''pg.txt'',
     ''mr-worker-map-7'', ''mr-worker-map-x''], Enter 5]"

definition demoListing :: "string list" where
  "demoListing = [''mr-worker-map-7'', ''pg.txt'', ''mr-worker-map-6'', ''mr-worker-map-5'', ''mr-worker-map-x'']"

definition demoCount :: "parAction list" where
  "demoCount = [LookAt 5, LookAt 5, LookAt 5, LookAt 6, LookAt 6, LookAt 6, LookAt 6, Leave 6, LookAt 5, LookAt 5]"

lemma demoCount_run:
  "case run_actions (parStep ''map'') demoEnter demoProcesses of
     None \<Rightarrow> False
   | Some s \<Rightarrow> slen (dirnames s) = 5 \<and>
       (case parStep ''map'' (ListDir 5 demoListing) s of
          None \<Rightarrow> False
        | Some t \<Rightarrow> (case run_actions (parStep ''map'') demoCount t of
             None \<Rightarrow> False | Some u \<Rightarrow> stages u 5 = Some (Counting [] 2)))"
  by code_simp

theorem nparallel_counts_witness:
  "\<exists>s u. run_actions (parStep ''map'') demoEnter demoProcesses = Some s \<and> stages u 5 = Some (Counting [] 2) \<and>
     card (inPhase s \<inter> alive u) \<le> 2 \<and> 2 \<le> card (inPhase s)"
proof -
  from demoCount_run obtain s t u where r: "run_actions (parStep ''map'') demoEnter demoProcesses = Some s"
    "slen (dirnames s) = 5" "parStep ''map'' (ListDir 5 demoListing) s = Some t"
    "run_actions (parStep ''map'') demoCount t = Some u" "stages u 5 = Some (Counting [] 2)"
    by (auto simp del: run_actions.simps parStep.simps split: option.splits)
  have scan: "scanPhase ''map'' ''pg.txt'' = None \<and> scanPhase ''map'' ''mr-worker-map-x'' = None" by code_simp
  have reach: "reachable (parInit ''map'') (parStep ''map'') s"
    by (rule reachable_run [OF reach_init r(1)]) (simp add: parInit_def demoProcesses_def scan)
  have "\<forall>xs. ListDir 5 xs \<notin> set demoCount" by (simp add: demoCount_def)
  from nparallel_counts [OF reach _ r(3,4) this r(5)] r(2) have
    "card (inPhase s \<inter> alive u) \<le> 2" "2 \<le> card (inPhase s)" by simp_all
  with r(1,5) show ?thesis by blast
qed

section \<open>The applications\<close>

text \<open>What \<open>nparallel\<close> returns is \<open>n\<close>, and the clock, printed by \<open>%.1f\<close>, is \<open>ts\<close>.\<close>

definition mtiming_Map :: "nat \<Rightarrow> string \<Rightarrow> int \<Rightarrow> mapFun" where
  "mtiming_Map pid ts n filename contents =
     [\<lparr>Key = ''times-'' @ Itoa (int pid), Value = ts\<rparr>,
      \<lparr>Key = ''parallel-'' @ Itoa (int pid), Value = Itoa n\<rparr>]"

definition mtiming_Reduce :: reduceFun where
  "mtiming_Reduce key values = (let vv = sortStrings values in Join vv '' '')"

definition rtiming_Map :: mapFun where
  "rtiming_Map filename contents =
     [\<lparr>Key = ''a'', Value = ''1''\<rparr>, \<lparr>Key = ''b'', Value = ''1''\<rparr>, \<lparr>Key = ''c'', Value = ''1''\<rparr>,
      \<lparr>Key = ''d'', Value = ''1''\<rparr>, \<lparr>Key = ''e'', Value = ''1''\<rparr>, \<lparr>Key = ''f'', Value = ''1''\<rparr>,
      \<lparr>Key = ''g'', Value = ''1''\<rparr>, \<lparr>Key = ''h'', Value = ''1''\<rparr>, \<lparr>Key = ''i'', Value = ''1''\<rparr>,
      \<lparr>Key = ''j'', Value = ''1''\<rparr>]"

definition rtiming_Reduce :: "int \<Rightarrow> reduceFun" where
  "rtiming_Reduce n key values = (let val = Itoa n in val)"

interpretation mtiming: mr_app mtiming_Reduce
  by unfold_locales (auto simp: mtiming_Reduce_def dest: sortStrings_perm)

interpretation rtiming: mr_app "rtiming_Reduce n"
  by unfold_locales (simp add: rtiming_Reduce_def)

section \<open>Counting the calls of Map\<close>

text \<open>jobcount.go: the shared directory, and the global \<open>count\<close> of every process.\<close>

record jobFiles =
  jobDir :: "string list"
  mapCount :: "nat \<Rightarrow> nat"

definition jobcountName :: "nat \<Rightarrow> nat \<Rightarrow> string" where
  "jobcountName me k = ''mr-worker-jobcount-'' @ Itoa (int me) @ ''-'' @ Itoa (int k)"

definition jobcount_Map :: "nat \<Rightarrow> string \<Rightarrow> string \<Rightarrow> jobFiles \<Rightarrow> jobFiles \<times> KeyValue list" where
  "jobcount_Map me filename contents s =
     (let f = jobcountName me (mapCount s me);
          s1 = s\<lparr>mapCount := (mapCount s)(me := mapCount s me + 1)\<rparr>
      in (s1\<lparr>jobDir := List.insert f (jobDir s1)\<rparr>, [\<lparr>Key = ''a'', Value = ''x''\<rparr>]))"

definition HasPrefix :: "string \<Rightarrow> string \<Rightarrow> bool" where
  "HasPrefix s prefix \<longleftrightarrow> take (length prefix) s = prefix"

fun countInvocations :: "string list \<Rightarrow> int \<Rightarrow> int" where
  "countInvocations [] invocations = invocations"
| "countInvocations (f # files) invocations =
     countInvocations files (if HasPrefix f ''mr-worker-jobcount'' then invocations + 1 else invocations)"

definition jobcount_Reduce :: "jobFiles \<Rightarrow> reduceFun" where
  "jobcount_Reduce s key values = Itoa (countInvocations (jobDir s) 0)"

interpretation jobcount: mr_app "jobcount_Reduce s"
  by unfold_locales (simp add: jobcount_Reduce_def)

lemma jobcountName_inj: "jobcountName p c = jobcountName q d \<longleftrightarrow> p = q \<and> c = d"
proof
  assume "jobcountName p c = jobcountName q d"
  then have e: "showNat p @ CHR ''-'' # showNat c = showNat q @ CHR ''-'' # showNat d"
    by (simp add: jobcountName_def Itoa_def)
  have "\<not> isDigit (CHR ''-'')" by (simp add: isDigit_def)
  note t = takeWhile_showNat [OF this]
  from arg_cong [OF e, of "takeWhile isDigit"] have "p = q" by (simp add: t)
  with e show "p = q \<and> c = d" by simp
qed simp

lemma countInvocations_filter:
  "countInvocations files n = n + int (length (filter (\<lambda>f. HasPrefix f ''mr-worker-jobcount'') files))"
  by (induction files n rule: countInvocations.induct) auto

text \<open>The calls, one after the other.\<close>

definition afterCalls :: "(nat \<times> string \<times> string) list \<Rightarrow> jobFiles \<Rightarrow> jobFiles" where
  "afterCalls calls s = fold (\<lambda>(me, filename, contents) s. fst (jobcount_Map me filename contents s)) calls s"

definition callFiles :: "jobFiles \<Rightarrow> nat \<Rightarrow> bool" where
  "callFiles s k \<longleftrightarrow> length (filter (\<lambda>f. HasPrefix f ''mr-worker-jobcount'') (jobDir s)) = k \<and>
     (\<forall>me c. jobcountName me c \<in> set (jobDir s) \<longrightarrow> c < mapCount s me)"

lemma jobcountName_prefix: "HasPrefix (jobcountName me c) ''mr-worker-jobcount''"
  by (simp add: jobcountName_def HasPrefix_def)

lemma callFiles_step: "callFiles s k \<Longrightarrow> callFiles (fst (jobcount_Map me filename contents s)) (Suc k)"
proof -
  assume ok: "callFiles s k"
  then have "jobcountName me (mapCount s me) \<notin> set (jobDir s)" by (auto simp: callFiles_def)
  with ok show ?thesis
    by (auto simp: callFiles_def jobcount_Map_def Let_def jobcountName_inj jobcountName_prefix
        intro: less_SucI)
qed

lemma callFiles_run: "callFiles s k \<Longrightarrow> callFiles (afterCalls calls s) (k + length calls)"
proof (induction calls arbitrary: s k)
  case (Cons x calls)
  obtain me filename contents where x: "x = (me, filename, contents)" by (cases x) auto
  from Cons.IH [OF callFiles_step [OF Cons.prems]] show ?case by (simp add: afterCalls_def x)
qed (simp add: afterCalls_def)

text \<open>jobcount.go counts calls: when processes with different ids have called \<open>Map\<close> any number of
  times, in any order and on any files, and no file of that name was there before, \<open>Reduce\<close> prints
  the number of all the calls, so a task that is run twice shows.\<close>

theorem jobcount_counts_calls:
  assumes "\<forall>f \<in> set (jobDir s). \<not> HasPrefix f ''mr-worker-jobcount''"
  shows "jobcount_Reduce (afterCalls calls s) key values = Itoa (int (length calls))"
proof -
  have "callFiles s 0" using assms jobcountName_prefix by (auto simp: callFiles_def filter_empty_conv)
  from callFiles_run [OF this, of calls] show ?thesis
    by (simp add: jobcount_Reduce_def countInvocations_filter callFiles_def)
qed

theorem jobcount_counts_calls_witness:
  "jobcount_Reduce (afterCalls [(5, ''x'', ''''), (6, ''y'', ''''), (5, ''x'', '''')]
     \<lparr>jobDir = [''x'', ''y''], mapCount = (\<lambda>me. 0)\<rparr>) ''a'' [''x''] = Itoa 3"
proof -
  let ?s = "\<lparr>jobDir = [''x'', ''y''], mapCount = (\<lambda>me. 0)\<rparr> :: jobFiles"
  have "\<forall>f \<in> set (jobDir ?s). \<not> HasPrefix f ''mr-worker-jobcount''" by (simp add: HasPrefix_def)
  from jobcount_counts_calls [OF this] show ?thesis by simp
qed

end
