(* ===== verification/JobCount.thy ===== *)
theory JobCount
  imports JobProgress MrTiming
begin

text \<open>
  The job count test of mr-main/test-mr.sh: a MapReduce job that runs jobcount.go. Its \<open>Map\<close> and
  \<open>Reduce\<close> are not functions of their arguments: a call of \<open>Map\<close> leaves a file behind, and \<open>Reduce\<close>
  counts those files. So a step of the job goes along with a step of the directory.
\<close>

record countedJob =
  theCountedJob :: job
  marks :: jobFiles

datatype countAction = JobActs jobAction | DieInMap nat

text \<open>The call of \<open>Map\<close> that a worker with a task makes, if the task is a map and its file is there.\<close>

definition mapCall :: "nat \<Rightarrow> job \<Rightarrow> (nat \<times> string \<times> string) option" where
  "mapCall w j =
     (case workers j w of
        Got reply \<Rightarrow>
          if replyType reply = MapTask
          then (case disk j (hd (Filenames reply)) of
                  Some (Text contents) \<Rightarrow> Some (nat (TaskIndex reply), hd (Filenames reply), contents)
                | _ \<Rightarrow> None)
          else None
      | _ \<Rightarrow> None)"

definition callMap :: "nat \<Rightarrow> job \<Rightarrow> jobFiles \<Rightarrow> jobFiles" where
  "callMap w j ms =
     (case mapCall w j of
        None \<Rightarrow> ms
      | Some (i, filename, contents) \<Rightarrow> fst (jobcount_Map w filename contents ms))"

fun marksAfter :: "jobAction \<Rightarrow> job \<Rightarrow> jobFiles \<Rightarrow> jobFiles" where
  "marksAfter (Work w) j ms = callMap w j ms"
| "marksAfter _ j ms = ms"

fun workerId :: "jobAction \<Rightarrow> nat" where
  "workerId (Ask w now) = w"
| "workerId (Work w) = w"
| "workerId (Report w) = w"
| "workerId (CrashWorker w) = w"

text \<open>A worker may also die inside \<open>Map\<close>, with its file written and its task not done.\<close>

fun countStep :: "(groups \<Rightarrow> groups) \<Rightarrow> countAction \<Rightarrow> countedJob \<Rightarrow> countedJob option" where
  "countStep iter (JobActs a) s =
     map_option (\<lambda>j. \<lparr>theCountedJob = j, marks = marksAfter a (theCountedJob s) (marks s)\<rparr>)
       (jobStep (\<lambda>filename contents. snd (jobcount_Map (workerId a) filename contents (marks s)))
          (jobcount_Reduce (marks s)) iter a (theCountedJob s))"
| "countStep iter (DieInMap w) s =
     (if mapCall w (theCountedJob s) = None then None
      else Some \<lparr>theCountedJob = setWorker w Crashed (theCountedJob s),
                 marks = callMap w (theCountedJob s) (marks s)\<rparr>)"

definition startCount :: "string list \<Rightarrow> nat \<Rightarrow> dir \<Rightarrow> string list \<Rightarrow> countedJob" where
  "startCount files nR d names =
     \<lparr>theCountedJob = startJob files nR d, marks = \<lparr>jobDir = names, mapCount = (\<lambda>me. 0)\<rparr>\<rparr>"

section \<open>The tasks whose \<open>Map\<close> has been called\<close>

fun worker_marked :: "nat set \<Rightarrow> worker \<Rightarrow> bool" where
  "worker_marked P (Got reply) = (replyType reply = MapTask \<longrightarrow> nat (TaskIndex reply) \<notin> P)"
| "worker_marked P (Finished args) = (doneType args = MapTask \<longrightarrow> nat (doneIndex args) \<in> P)"
| "worker_marked P _ = True"

definition marks_ok :: "nat set \<Rightarrow> job \<Rightarrow> bool" where
  "marks_ok P j \<longleftrightarrow>
     (\<forall>i \<in> P. i < length (mapTasks (coord j)) \<and> Status (mapTasks (coord j) ! i) \<noteq> Unassigned) \<and>
     completedMaps (coord j) \<subseteq> P \<and>
     (\<forall>w. worker_marked P (workers j w))"

lemma finite_marks: "marks_ok P j \<Longrightarrow> finite P"
  by (rule finite_subset [of _ "{..<length (mapTasks (coord j))}"]) (auto simp: marks_ok_def)

definition markTask :: "nat \<Rightarrow> job \<Rightarrow> nat set \<Rightarrow> nat set" where
  "markTask w j P = (case mapCall w j of None \<Rightarrow> P | Some (i, filename, contents) \<Rightarrow> insert i P)"

fun tasksAfter :: "jobAction \<Rightarrow> job \<Rightarrow> nat set \<Rightarrow> nat set" where
  "tasksAfter (Work w) j P = markTask w j P"
| "tasksAfter _ j P = P"

text \<open>A worker that gives its task up, or has made its call.\<close>

lemma marks_ok_worker:
  assumes "marks_ok P j" and "coord j' = coord j" and "workers j' = (workers j)(w := x)"
    and "x \<in> {Asking, Exited, Crashed}"
  shows "marks_ok P j'"
  using assms by (auto simp: marks_ok_def)

lemma mapCall_SomeE:
  assumes "mapCall w j = Some (i, filename, contents)"
  obtains reply where "workers j w = Got reply" "replyType reply = MapTask" "i = nat (TaskIndex reply)"
  using assms that by (auto simp: mapCall_def split: worker.splits if_splits option.splits content.splits)

lemma mapCall_unmarked: "marks_ok P j \<Longrightarrow> mapCall w j = Some (i, filename, contents) \<Longrightarrow> i \<notin> P"
  by (erule mapCall_SomeE) (metis marks_ok_def worker_marked.simps(1))

lemma marks_ok_call:
  assumes ok: "marks_ok P j" and inv: "job_inv mapf reducef files nR d0 order j"
    and c: "mapCall w j = Some (i, filename, contents)"
    and x: "coord j' = coord j" "workers j' = (workers j)(w := x)"
    and y: "worker_marked {i} x" "\<forall>reply. x \<noteq> Got reply"
  shows "marks_ok (insert i P) j'"
proof -
  from c obtain reply where g: "workers j w = Got reply" "replyType reply = MapTask"
    "i = nat (TaskIndex reply)" by (rule mapCall_SomeE)
  from inv have wk: "worker_ok mapf reducef files nR d0 order (coord j) (disk j) (workers j v)"
    and ex: "exclusive (workers j)" for v by (simp_all add: job_inv_def)
  from holds_busy [OF wk [of w]] g have b: "busy (coord j) MapTask (TaskIndex reply)" by simp
  then have i: "i < length (mapTasks (coord j))" "Status (mapTasks (coord j) ! i) = InProgress"
    by (auto simp: busy_def g(3) slen_def nat_less_iff)
  have other: "nat (TaskIndex r) \<noteq> i" if v: "workers j v = Got r" "replyType r = MapTask" "v \<noteq> w" for v r
  proof
    assume "nat (TaskIndex r) = i"
    moreover from holds_busy [OF wk [of v]] v have "0 \<le> TaskIndex r" by (auto simp: busy_def)
    ultimately have "TaskIndex r = TaskIndex reply" using b g(3) by (auto simp: busy_def)
    with ex v g show False unfolding exclusive_def by (metis holds.simps(1))
  qed
  have m: "worker_marked P (workers j v)" for v using ok by (simp add: marks_ok_def)
  have "worker_marked (insert i P) (workers j' v)" for v
  proof (cases "v = w")
    case True
    with y x(2) show ?thesis by (cases x) auto
  next
    case False
    with m [of v] other [of v] x(2) show ?thesis by (cases "workers j v") auto
  qed
  with ok i x(1) show ?thesis by (auto simp: marks_ok_def)
qed


lemma marks_ok_tasks:
  assumes ok: "marks_ok P j" and st: "length (mapTasks c) = length (mapTasks (coord j))"
    and kept: "\<And>i. i < length (mapTasks c) \<Longrightarrow> Status (mapTasks (coord j) ! i) \<noteq> Unassigned \<Longrightarrow>
      Status (mapTasks c ! i) \<noteq> Unassigned"
    and comp: "completedMaps c \<subseteq> P" and x: "worker_marked P x"
    and j': "coord j' = c" "workers j' = (workers j)(w := x)"
  shows "marks_ok P j'"
  using ok st kept comp x by (auto simp: marks_ok_def j')

lemma marks_ok_step:
  assumes inv: "job_inv mapf reducef files nR d0 order j" and ok: "marks_ok P j"
    and step: "jobStep mapf' reducef' iter a j = Some j'"
  shows "marks_ok (tasksAfter a j P) j'"
proof (cases a)
  case (Ask w now)
  obtain c' reply where r: "RequestTask now (coord j) = (c', reply)" by fastforce
  with step Ask have j': "coord j' = c'" "workers j' = (workers j)(w := dispatch reply)"
    by (auto split: worker.splits)
  from ok have P: "completedMaps (coord j) \<subseteq> P" "\<forall>i \<in> P. Status (mapTasks (coord j) ! i) \<noteq> Unassigned"
    by (auto simp: marks_ok_def)
  have "marks_ok P j'"
    using r
  proof (cases rule: RequestTask_cases)
    case (giveMap i)
    have "completedMaps c' \<subseteq> completedMaps (coord j)"
      using giveMap(1,3) by (auto simp: completedMaps_def take_task_def nth_list_update split: if_splits)
    moreover have "worker_marked P (dispatch reply)"
      using P(2) giveMap(2,4) by (auto simp: dispatch_def offer_def)
    ultimately show ?thesis
      using giveMap(1,3) P(1) by (intro marks_ok_tasks [OF ok _ _ _ _ j'])
        (auto simp: take_task_def nth_list_update)
  next
    case (giveReduce i)
    then show ?thesis
      using P(1) by (intro marks_ok_tasks [OF ok _ _ _ _ j'])
        (auto simp: completedMaps_def dispatch_def offer_def)
  next
    case idle
    then show ?thesis
      using P(1) by (intro marks_ok_tasks [OF ok _ _ _ _ j'])
        (auto simp: completedMaps_def dispatch_def)
  qed
  with Ask show ?thesis by simp
next
  case (Work w)
  with step obtain reply where g: "workers j w = Got reply" by (auto split: worker.splits)
  show ?thesis
  proof (cases "performTask mapf' reducef' iter reply (disk j)")
    case (Inl e)
    with step Work g have "coord j' = coord j" "workers j' = (workers j)(w := Crashed)" by auto
    with marks_ok_call [OF ok inv, of w] marks_ok_worker [OF ok, of j' w] show ?thesis
      by (auto simp: Work markTask_def split: option.splits)
  next
    case (Inr r)
    obtain d' args where r: "r = (d', args)" by fastforce
    with step Work g Inr have j': "coord j' = coord j" "workers j' = (workers j)(w := Finished args)"
      by auto
    from performTask_args [OF Inr [unfolded r]]
    have args: "doneType args = replyType reply" "doneIndex args = TaskIndex reply" by simp_all
    show ?thesis
    proof (cases "mapCall w j")
      case None
      from Inr r g None have "replyType reply \<noteq> MapTask"
        by (auto simp: mapCall_def performTask_def doMap_def split: option.splits content.splits)
      with ok args None j' show ?thesis by (auto simp: Work markTask_def marks_ok_def)
    next
      case (Some call)
      obtain i filename contents where call: "call = (i, filename, contents)" by (cases call) auto
      from Some call g have "i = nat (TaskIndex reply)" by (auto elim!: mapCall_SomeE)
      with args have "worker_marked {i} (Finished args)" by simp
      from marks_ok_call [OF ok inv Some [unfolded call] j' this] Some call show ?thesis
        by (simp add: Work markTask_def)
    qed
  qed
next
  case (Report w)
  with step obtain args c' k rok where g: "workers j w = Finished args"
    "ReportTaskDone args (coord j) = Inr (c', k, rok)"
    "coord j' = c'" "workers j' = (workers j)(w := if k = AllDone then Exited else Asking)"
    by (auto split: worker.splits sum.splits)
  from ok have P: "completedMaps (coord j) \<subseteq> P" "worker_marked P (workers j w)"
    by (auto simp: marks_ok_def)
  have x: "worker_marked P (if k = AllDone then Exited else Asking)" by simp
  have "marks_ok P j'"
    using g(2)
  proof (cases rule: ReportTaskDone_cases)
    case same
    with P(1) show ?thesis by (intro marks_ok_tasks [OF ok _ _ _ x g(3,4)]) simp_all
  next
    case (reportMap mts rts)
    define n where "n = nat (doneIndex args)"
    from reportMap(2) have mts: "mts = (mapTasks (coord j))[n := (mapTasks (coord j) ! n)\<lparr>Status := Completed\<rparr>]"
      by (simp add: completeTask_Inr n_def)
    have st: "Status (mts ! i) = (if i = n then Completed else Status (mapTasks (coord j) ! i))"
      if "i < length mts" for i using that by (cases "i = n") (simp_all add: mts)
    have len: "length mts = length (mapTasks (coord j))" by (simp add: mts)
    from reportMap(1) P(2) g(1) have "n \<in> P" by (simp add: n_def)
    moreover have "k = n \<or> k \<in> completedMaps (coord j)" if "k \<in> completedMaps c'" for k
      using that st [of k] len by (cases "k = n") (simp_all add: reportMap(4) completedMaps_def)
    ultimately have "completedMaps c' \<subseteq> P" using P(1) by blast
    moreover have "Status (mapTasks c' ! i) \<noteq> Unassigned"
      if "i < length (mapTasks c')" "Status (mapTasks (coord j) ! i) \<noteq> Unassigned" for i
      using that st [of i] by (simp add: reportMap(4))
    ultimately show ?thesis
      using len by (intro marks_ok_tasks [OF ok _ _ _ x g(3,4)]) (simp_all add: reportMap(4))
  next
    case (reportReduce rts)
    with P(1) show ?thesis
      by (intro marks_ok_tasks [OF ok _ _ _ x g(3,4)]) (simp_all add: completedMaps_def)
  qed
  with Report show ?thesis by simp
next
  case (CrashWorker w)
  with step have "coord j' = coord j" "workers j' = (workers j)(w := Crashed)" by auto
  with marks_ok_worker [OF ok this] CrashWorker show ?thesis by simp
qed


section \<open>The job as a job with a constant application\<close>

definition markPairs :: mapFun where
  "markPairs filename contents = [\<lparr>Key = ''a'', Value = ''x''\<rparr>]"

definition printCount :: "nat \<Rightarrow> reduceFun" where
  "printCount n key values = Itoa (int n)"

interpretation printCount: mr_app "printCount n"
  by unfold_locales (simp add: printCount_def)

lemma jobcount_pairs: "(\<lambda>filename contents. snd (jobcount_Map me filename contents ms)) = markPairs"
  by (intro ext) (simp add: jobcount_Map_def markPairs_def Let_def)

lemma jobcount_printCount: "callFiles ms n \<Longrightarrow> jobcount_Reduce ms = printCount n"
  by (intro ext) (simp add: jobcount_Reduce_def printCount_def countInvocations_filter callFiles_def)

lemma callFiles_markTask:
  assumes "callFiles ms (card P)" and "finite P" and "\<And>i f c. mapCall w j = Some (i, f, c) \<Longrightarrow> i \<notin> P"
  shows "callFiles (callMap w j ms) (card (markTask w j P))"
  using assms callFiles_step [OF assms(1)] by (auto simp: callMap_def markTask_def split: option.splits)

definition count_inv :: "string list \<Rightarrow> nat \<Rightarrow> dir \<Rightarrow> countedJob \<Rightarrow> bool" where
  "count_inv files nR d0 s \<longleftrightarrow>
     (\<exists>order P. job_inv markPairs (printCount (length files)) files nR d0 order (theCountedJob s) \<and>
        marks_ok P (theCountedJob s) \<and> callFiles (marks s) (card P))"

text \<open>When all map tasks are done, each has been called once.\<close>

lemma all_marked:
  assumes "tasks_ok files nR order (coord j)" and "marks_ok P j" and "allMapTasksDone (coord j)"
  shows "card P = length files"
proof -
  have "length (mapTasks (coord j)) = length files" using assms(1) by (simp add: tasks_ok_def)
  with assms(2,3) have "P = {..<length files}"
    by (auto simp: marks_ok_def allMapTasksDone_completed)
  then show ?thesis by simp
qed

text \<open>So a step of the job takes the same values as with \<open>printCount\<close>.\<close>

lemma jobStep_printCount:
  assumes inv: "job_inv markPairs (printCount (length files)) files nR d0 order j"
    and ok: "marks_ok P j" and ms: "callFiles ms (card P)"
  shows "jobStep markPairs (jobcount_Reduce ms) iter a j = jobStep markPairs (printCount (length files)) iter a j"
proof (cases a)
  case (Work w)
  show ?thesis
  proof (cases "workers j w")
    case (Got reply)
    from inv have t: "tasks_ok files nR order (coord j)"
      and "worker_ok markPairs (printCount (length files)) files nR d0 order (coord j) (disk j) (workers j w)"
      by (simp_all add: job_inv_def)
    with Got have b: "busy (coord j) (replyType reply) (TaskIndex reply)" by simp
    show ?thesis
    proof (cases "replyType reply = MapTask")
      case True
      with Work Got show ?thesis by (simp add: performTask_def)
    next
      case False
      with b t have "nat (TaskIndex reply) < nR"
        "Status (reduceTasks (coord j) ! nat (TaskIndex reply)) \<noteq> Unassigned"
        by (auto simp: busy_def tasks_ok_def slen_def nat_less_iff)
      with t have "allMapTasksDone (coord j)" by (simp add: tasks_ok_def)
      with all_marked [OF t ok] jobcount_printCount [OF ms] show ?thesis by simp
    qed
  qed (simp_all add: Work)
qed simp_all

lemma count_inv_step:
  assumes start: "job_start files nR d0" and iter: "anyOrder iter"
    and inv: "count_inv files nR d0 s" and step: "countStep iter a s = Some s'"
  shows "count_inv files nR d0 s'"
proof -
  let ?j = "theCountedJob s"
  from inv obtain order P where j: "job_inv markPairs (printCount (length files)) files nR d0 order ?j"
    "marks_ok P ?j" "callFiles (marks s) (card P)" by (auto simp: count_inv_def)
  note mark = callFiles_markTask [OF j(3) finite_marks [OF j(2)] mapCall_unmarked [OF j(2)]]
  show ?thesis
  proof (cases a)
    case (JobActs b)
    with step obtain j' where
      b: "jobStep markPairs (jobcount_Reduce (marks s)) iter b ?j = Some j'"
      and s': "s' = \<lparr>theCountedJob = j', marks = marksAfter b ?j (marks s)\<rparr>"
      by (auto simp: jobcount_pairs)
    from job_step_inv [OF start iter [unfolded anyOrder_def] j(1) b [unfolded jobStep_printCount [OF j]]]
    obtain order' where "job_inv markPairs (printCount (length files)) files nR d0 order' j'" by blast
    moreover from marks_ok_step [OF j(1,2) b] have "marks_ok (tasksAfter b ?j P) j'" .
    moreover have "callFiles (marksAfter b ?j (marks s)) (card (tasksAfter b ?j P))"
      using mark j(3) by (cases b) simp_all
    ultimately show ?thesis by (auto simp: count_inv_def s')
  next
    case (DieInMap w)
    with step obtain i f c where c: "mapCall w ?j = Some (i, f, c)"
      and s': "s' = \<lparr>theCountedJob = setWorker w Crashed ?j, marks = callMap w ?j (marks s)\<rparr>"
      by (auto split: if_splits)
    have "jobStep markPairs (printCount (length files)) iter (CrashWorker w) ?j = Some (setWorker w Crashed ?j)"
      by simp
    from job_step_inv [OF start iter [unfolded anyOrder_def] j(1) this]
    obtain order' where "job_inv markPairs (printCount (length files)) files nR d0 order' (setWorker w Crashed ?j)"
      by blast
    moreover have "marks_ok (markTask w ?j P) (setWorker w Crashed ?j)"
      using marks_ok_call [OF j(2,1) c, of "setWorker w Crashed ?j" Crashed] by (simp add: markTask_def c)
    ultimately show ?thesis using mark [of w] by (auto simp: count_inv_def s')
  qed
qed


lemma count_inv_run:
  assumes "job_start files nR d0" and "anyOrder iter"
  shows "count_inv files nR d0 s \<Longrightarrow> run_actions (countStep iter) acts s = Some s' \<Longrightarrow> count_inv files nR d0 s'"
proof (induction acts arbitrary: s)
  case (Cons a acts)
  then obtain t where "countStep iter a s = Some t" "run_actions (countStep iter) acts t = Some s'"
    by (auto split: option.splits)
  with Cons.IH count_inv_step [OF assms Cons.prems(1)] show ?case by blast
qed simp

lemma count_inv_start:
  assumes "\<forall>f \<in> set names. \<not> HasPrefix f ''mr-worker-jobcount''"
  shows "count_inv files nR d0 (startCount files nR d0 names)"
proof -
  let ?s = "startCount files nR d0 names"
  have "callFiles (marks ?s) (card ({} :: nat set))"
    using assms jobcountName_prefix by (auto simp: callFiles_def startCount_def filter_empty_conv)
  moreover have "marks_ok {} (theCountedJob ?s)"
    by (simp add: marks_ok_def startCount_def startJob_def MakeCoordinator_def completedMaps_def nth_enumerate_eq)
  moreover have "job_inv markPairs (printCount (length files)) files nR d0 [] (theCountedJob ?s)"
    using job_start_inv by (simp add: startCount_def)
  ultimately show ?thesis unfolding count_inv_def by blast
qed

text \<open>C18. The job count test of test-mr.sh passes. However the workers of a job that runs jobcount.go
  interleave and die: if the job gets done, the output files hold one line together, which says
  how many input files there are, so \<open>Map\<close> has been called as often as there are map tasks.\<close>

theorem job_count_test_passes:
  assumes "job_start files nR d0" and "files \<noteq> []" and "0 < nR" and "anyOrder iter"
    and "\<forall>f \<in> set names. \<not> HasPrefix f ''mr-worker-jobcount''"
    and "run_actions (countStep iter) acts (startCount files nR d0 names) = Some s"
    and "Done (coord (theCountedJob s))"
  shows "jobLines nR (disk (theCountedJob s)) = [(''a'', Itoa (int (length files)))]"
proof -
  let ?ls = "jobLines nR (disk (theCountedJob s))"
  let ?kvs = "concat (map (pairsOf markPairs files d0) [0..<length files])"
  from count_inv_run [OF assms(1,4) count_inv_start [OF assms(5)] assms(6)] obtain order where
    "job_inv markPairs (printCount (length files)) files nR d0 order (theCountedJob s)"
    by (auto simp: count_inv_def)
  from printCount.job_lines [OF this assms(7,3)]
  have out: "distinct ?ls" "set ?ls = (\<lambda>k. (k, Itoa (int (length files)))) ` Key ` set ?kvs"
    by (auto simp: outputOf_def printCount_def)
  have "Key ` set ?kvs = {''a''}"
  proof -
    have "pairsOf markPairs files d0 m = [\<lparr>Key = ''a'', Value = ''x''\<rparr>]" if "m < length files" for m
    proof -
      from that assms(1) obtain t where "d0 (files ! m) = Some (Text t)"
        unfolding job_start_def by (meson nth_mem)
      then show ?thesis by (simp add: pairsOf_def markPairs_def)
    qed
    then have "set ?kvs = (\<Union>m \<in> {..<length files}. {\<lparr>Key = ''a'', Value = ''x''\<rparr>})" by auto
    with assms(2) show ?thesis by auto
  qed
  with out have "distinct ?ls" "set ?ls = {(''a'', Itoa (int (length files)))}" by simp_all
  then show ?thesis by (cases ?ls; cases "tl ?ls") auto
qed

text \<open>Two inputs; worker 1 dies before it has a task, and the others share the rest.\<close>

definition countSchedule :: "countAction list" where
  "countSchedule = map JobActs demoSchedule"

lemma countSchedule_run:
  "case run_actions (countStep rev) countSchedule (startCount [''x'', ''y''] 2 demoDir [''x'', ''y'']) of
     None \<Rightarrow> False
   | Some s \<Rightarrow> Done (coord (theCountedJob s)) \<and>
       jobDir (marks s) = [''mr-worker-jobcount-0-0'', ''mr-worker-jobcount-2-0'', ''x'', ''y'']"
  by code_simp

theorem job_count_test_passes_witness:
  "\<exists>s. run_actions (countStep rev) countSchedule (startCount [''x'', ''y''] 2 demoDir [''x'', ''y'']) = Some s \<and>
     jobLines 2 (disk (theCountedJob s)) = [(''a'', ''2'')]"
proof -
  from countSchedule_run obtain s where
    s: "run_actions (countStep rev) countSchedule (startCount [''x'', ''y''] 2 demoDir [''x'', ''y'']) = Some s"
      "Done (coord (theCountedJob s))"
    by (auto simp del: run_actions.simps split: option.splits)
  have h: "[''x'', ''y''] \<noteq> []" "0 < (2 :: nat)"
    "\<forall>f \<in> set [''x'', ''y'']. \<not> HasPrefix f ''mr-worker-jobcount''" by (simp_all add: HasPrefix_def)
  have "Itoa (int (length [''x'', ''y''])) = ''2''" by code_simp
  with job_count_test_passes [OF demo_start(1) h(1,2) demo_start(2) h(3) s] s(1) show ?thesis by simp
qed

end
