(* ===== verification/LockStore.thy ===== *)
theory LockStore
  imports Prelude
begin

text \<open>
  raft-lock/lockStore.go: a lock store maps a key to the queue of the clients that asked for
  it; the first one owns the lock. A Go map is a partial function, and a look-up of a key
  that is not there gives the nil slice. The locale \<open>lock_queue\<close> is the contract the lock
  service needs, in terms of the waiting line of a key; the store is an interpretation.
\<close>

type_synonym ('k, 'v) MultiMap = "'k \<Rightarrow> 'v list option"

section \<open>The code\<close>

fun existsElem :: "'a list \<Rightarrow> ('a \<Rightarrow> bool) \<Rightarrow> bool" where
  "existsElem [] predicate = False"
| "existsElem (elem # array) predicate = (if predicate elem then True else existsElem array predicate)"

definition at :: "('k, 'v) MultiMap \<Rightarrow> 'k \<Rightarrow> 'v list" where
  "at m key = (case m key of None \<Rightarrow> [] | Some vs \<Rightarrow> vs)"

definition put :: "('k, 'v) MultiMap \<Rightarrow> 'k \<Rightarrow> 'v \<Rightarrow> ('k, 'v) MultiMap" where
  "put m key val = m(key \<mapsto> at m key @ [val])"

definition cleanEmpty :: "('k, 'v) MultiMap \<Rightarrow> 'k \<Rightarrow> ('k, 'v) MultiMap" where
  "cleanEmpty m key =
     (case m key of None \<Rightarrow> m | Some v \<Rightarrow> if slen v = 0 then m(key := None) else m)"

fun keepLoop :: "'v list \<Rightarrow> ('v \<Rightarrow> bool) \<Rightarrow> 'v list \<Rightarrow> 'v list" where
  "keepLoop [] keepWhenTrue acc = acc"
| "keepLoop (v # array) keepWhenTrue acc =
     keepLoop array keepWhenTrue (if keepWhenTrue v then acc @ [v] else acc)"

definition filterSlice :: "'v list \<Rightarrow> ('v \<Rightarrow> bool) \<Rightarrow> 'v list" where
  "filterSlice array keepWhenTrue = keepLoop array keepWhenTrue []"

definition filterKey :: "('k, 'v) MultiMap \<Rightarrow> 'k \<Rightarrow> ('v \<Rightarrow> bool) \<Rightarrow> ('k, 'v) MultiMap" where
  "filterKey m key keepWhenTrue =
     cleanEmpty (m(key \<mapsto> filterSlice (at m key) keepWhenTrue)) key"

text \<open>The result is the owner and whether there is one; \<open>ids[0]\<close> panics on an empty queue.\<close>

definition getLockOwner :: "('k, 'v) MultiMap \<Rightarrow> 'k \<Rightarrow> 'v option go" where
  "getLockOwner store key =
     (case store key of
        Some ids \<Rightarrow> (case go_index ids 0 of Inl e \<Rightarrow> Inl e | Inr x \<Rightarrow> Inr (Some x))
      | None \<Rightarrow> Inr None)"

definition lockKey :: "('k, 'v) MultiMap \<Rightarrow> 'k \<Rightarrow> 'v \<Rightarrow> ('k, 'v) MultiMap" where
  "lockKey store key cid =
     (let sameValDoesntExist = \<not> existsElem (at store key) (\<lambda>elem. cid = elem)
      in if sameValDoesntExist then put store key cid else store)"

definition unlockKey :: "('k, 'v) MultiMap \<Rightarrow> 'k \<Rightarrow> 'v \<Rightarrow> ('k, 'v) MultiMap" where
  "unlockKey store key cid = filterKey store key (\<lambda>elem. cid \<noteq> elem)"

section \<open>The contract of a lock store\<close>

text \<open>
  \<open>line s k\<close> is the waiting line of a key. A new client joins at the end, a client that
  leaves is taken out, other keys are not affected, and the owner is the first in line.
\<close>

datatype ('k, 'v) lockRequest = LockRequest 'k 'v | UnlockRequest 'k 'v

fun request ::
  "('s \<Rightarrow> 'k \<Rightarrow> 'v \<Rightarrow> 's) \<Rightarrow> ('s \<Rightarrow> 'k \<Rightarrow> 'v \<Rightarrow> 's) \<Rightarrow> ('k, 'v) lockRequest \<Rightarrow> 's \<Rightarrow> 's" where
  "request lock unlock (LockRequest k c) s = lock s k c"
| "request lock unlock (UnlockRequest k c) s = unlock s k c"

text \<open>Those before a client in a line.\<close>

definition ahead :: "'v \<Rightarrow> 'v list \<Rightarrow> 'v list" where
  "ahead c q = takeWhile (\<lambda>d. d \<noteq> c) q"

lemma ahead_append: "c \<in> set q \<Longrightarrow> ahead c (q @ q') = ahead c q"
  unfolding ahead_def by (rule takeWhile_append1) simp_all

lemma ahead_filter: "d \<noteq> c \<Longrightarrow> set (ahead c (filter ((\<noteq>) d) q)) \<subseteq> set (ahead c q)"
  by (induction q) (auto simp: ahead_def)

locale lock_queue =
  fixes empty :: "'s"
    and lock :: "'s \<Rightarrow> 'k \<Rightarrow> 'v \<Rightarrow> 's"
    and unlock :: "'s \<Rightarrow> 'k \<Rightarrow> 'v \<Rightarrow> 's"
    and owner :: "'s \<Rightarrow> 'k \<Rightarrow> 'v option go"
    and line :: "'s \<Rightarrow> 'k \<Rightarrow> 'v list"
    and valid :: "'s \<Rightarrow> bool"
  assumes valid_empty: "valid empty"
    and valid_lock: "valid s \<Longrightarrow> valid (lock s k c)"
    and valid_unlock: "valid s \<Longrightarrow> valid (unlock s k c)"
    and line_empty: "line empty k = []"
    and line_lock: "valid s \<Longrightarrow> line (lock s k c) k' =
      (if k' = k \<and> c \<notin> set (line s k) then line s k @ [c] else line s k')"
    and line_unlock: "valid s \<Longrightarrow> line (unlock s k c) k' =
      (if k' = k then filter ((\<noteq>) c) (line s k) else line s k')"
    and line_distinct: "valid s \<Longrightarrow> distinct (line s k)"
    and owner_first: "valid s \<Longrightarrow>
      owner s k = Inr (case line s k of [] \<Rightarrow> None | c # cs \<Rightarrow> Some c)"
begin

lemma valid_requests: "valid s \<Longrightarrow> valid (fold (request lock unlock) rs s)"
proof (induction rs arbitrary: s)
  case (Cons r rs)
  then show ?case by (cases r) (auto intro: valid_lock valid_unlock)
qed simp

text \<open>While a client does not unlock, those before it in line only become fewer.\<close>

lemma ahead_shrinks:
  assumes "valid s" and "c \<in> set (line s k)" and "UnlockRequest k c \<notin> set rs"
  shows "c \<in> set (line (fold (request lock unlock) rs s) k) \<and>
    set (ahead c (line (fold (request lock unlock) rs s) k)) \<subseteq> set (ahead c (line s k))"
  using assms
proof (induction rs arbitrary: s)
  case (Cons r rs)
  have v: "valid (request lock unlock r s)"
    using valid_requests [of s "[r]"] Cons.prems(1) by simp
  have "c \<in> set (line (request lock unlock r s) k) \<and>
      set (ahead c (line (request lock unlock r s) k)) \<subseteq> set (ahead c (line s k))"
  proof (cases r)
    case (LockRequest k1 d)
    with Cons.prems(1,2) show ?thesis by (auto simp: line_lock ahead_append)
  next
    case (UnlockRequest k1 d)
    with Cons.prems(3) have "k1 = k \<longrightarrow> d \<noteq> c" by auto
    with Cons.prems(1,2) UnlockRequest ahead_filter [of d c "line s k"] show ?thesis
      by (auto simp: line_unlock)
  qed
  with Cons.IH [OF v] Cons.prems(3) show ?case by (simp, blast)
qed simp

lemma owner_keeps:
  assumes "valid s" and "owner s k = Inr (Some c)" and "UnlockRequest k c \<notin> set rs"
  shows "owner (fold (request lock unlock) rs s) k = Inr (Some c)"
proof -
  from assms(1,2) obtain cs where l: "line s k = c # cs"
    by (auto simp: owner_first split: list.splits)
  with ahead_shrinks [OF assms(1) _ assms(3)] have
    "c \<in> set (line (fold (request lock unlock) rs s) k)"
    "set (ahead c (line (fold (request lock unlock) rs s) k)) = {}" by (auto simp: ahead_def)
  then obtain ds where "line (fold (request lock unlock) rs s) k = c # ds"
    by (cases "line (fold (request lock unlock) rs s) k") (auto simp: ahead_def split: if_splits)
  with owner_first [OF valid_requests [OF assms(1)]] show ?thesis by simp
qed

end

section \<open>The store is a lock queue\<close>

definition lockStore_ok :: "('k, 'v) MultiMap \<Rightarrow> bool" where
  "lockStore_ok m \<longleftrightarrow> (\<forall>key q. m key = Some q \<longrightarrow> q \<noteq> [] \<and> distinct q)"

definition emptyStore :: "('k, 'v) MultiMap" where
  "emptyStore = (\<lambda>key. None)"

lemma existsElem_iff: "existsElem xs p \<longleftrightarrow> (\<exists>x \<in> set xs. p x)"
  by (induction xs) auto

lemma filterSlice_filter: "filterSlice xs p = filter p xs"
proof -
  have "keepLoop xs p acc = acc @ filter p xs" for acc
    by (induction xs arbitrary: acc) auto
  then show ?thesis by (simp add: filterSlice_def)
qed

lemma at_update [simp]:
  "at (m(k := v)) k' = (if k' = k then (case v of None \<Rightarrow> [] | Some q \<Rightarrow> q) else at m k')"
  by (simp add: at_def)

lemma at_lockKey:
  "at (lockKey m k c) k' = (if k' = k \<and> c \<notin> set (at m k) then at m k @ [c] else at m k')"
  by (auto simp: lockKey_def put_def existsElem_iff Let_def)

lemma at_unlockKey:
  "at (unlockKey m k c) k' = (if k' = k then filter ((\<noteq>) c) (at m k) else at m k')"
  by (auto simp: unlockKey_def filterKey_def cleanEmpty_def filterSlice_filter slen_def)

lemma lockStore_ok_distinct: "lockStore_ok m \<Longrightarrow> distinct (at m k)"
  by (auto simp: lockStore_ok_def at_def split: option.splits)

lemma getLockOwner_first:
  assumes "lockStore_ok m"
  shows "getLockOwner m k = Inr (case at m k of [] \<Rightarrow> None | c # cs \<Rightarrow> Some c)"
proof (cases "m k")
  case None
  then show ?thesis by (simp add: getLockOwner_def at_def)
next
  case (Some q)
  with assms have "q \<noteq> []" by (auto simp: lockStore_ok_def)
  then obtain c cs where "q = c # cs" by (cases q) auto
  with Some show ?thesis by (simp add: getLockOwner_def at_def go_index_def slen_def)
qed

lemma lockStore_ok_lock: "lockStore_ok m \<Longrightarrow> lockStore_ok (lockKey m k c)"
  using lockStore_ok_distinct [of m k]
  by (auto simp: lockStore_ok_def lockKey_def put_def existsElem_iff Let_def split: if_splits)

lemma lockStore_ok_unlock: "lockStore_ok m \<Longrightarrow> lockStore_ok (unlockKey m k c)"
  using lockStore_ok_distinct [of m k]
  by (auto simp: lockStore_ok_def unlockKey_def filterKey_def cleanEmpty_def filterSlice_filter
      slen_def split: if_splits)

interpretation store: lock_queue emptyStore lockKey unlockKey getLockOwner at lockStore_ok
  by unfold_locales
    (auto simp: at_lockKey at_unlockKey lockStore_ok_distinct getLockOwner_first
      intro: lockStore_ok_lock lockStore_ok_unlock, auto simp: lockStore_ok_def emptyStore_def at_def)

section \<open>Properties\<close>

definition storeAfter :: "('k, 'v) lockRequest list \<Rightarrow> ('k, 'v) MultiMap" where
  "storeAfter rs = fold (request lockKey unlockKey) rs emptyStore"

text \<open>The waiting line of a key as README.md describes it.\<close>

fun waitingFrom :: "'k \<Rightarrow> ('k, 'v) lockRequest list \<Rightarrow> 'v list \<Rightarrow> 'v list" where
  "waitingFrom k [] q = q"
| "waitingFrom k (LockRequest k' c # rs) q =
     waitingFrom k rs (if k' = k \<and> c \<notin> set q then q @ [c] else q)"
| "waitingFrom k (UnlockRequest k' c # rs) q =
     waitingFrom k rs (if k' = k then filter ((\<noteq>) c) q else q)"

lemma waiting_line:
  "at (fold (request lockKey unlockKey) rs m) k = waitingFrom k rs (at m k)"
  by (induction k rs "at m k" arbitrary: m rule: waitingFrom.induct)
    (auto simp: at_lockKey at_unlockKey)

lemma storeAfter_append:
  "storeAfter (rs @ rs') = fold (request lockKey unlockKey) rs' (storeAfter rs)"
  by (simp add: storeAfter_def)

lemma storeAfter_ok: "lockStore_ok (storeAfter rs)"
  unfolding storeAfter_def by (rule store.valid_requests [OF store.valid_empty])

text \<open>C23. After any requests the owner of a lock is the client that has waited longest, and
  looking it up never panics: the store refines the waiting lines of README.md.\<close>

theorem owner_is_first_in_line:
  "getLockOwner (storeAfter rs) k =
     Inr (case waitingFrom k rs [] of [] \<Rightarrow> None | c # cs \<Rightarrow> Some c)"
  using getLockOwner_first [OF storeAfter_ok, of rs k] waiting_line [of rs emptyStore k]
  by (simp add: storeAfter_def at_def emptyStore_def)

text \<open>Locks exclude each other: a client that owns a lock owns it until it unlocks it,
  whatever other clients request in between.\<close>

theorem owner_until_unlock:
  assumes "getLockOwner (storeAfter rs) k = Inr (Some c)" and "UnlockRequest k c \<notin> set rs'"
  shows "getLockOwner (storeAfter (rs @ rs')) k = Inr (Some c)"
  unfolding storeAfter_append by (rule store.owner_keeps [OF storeAfter_ok assms])

definition demoRequests :: "(string, int) lockRequest list" where
  "demoRequests = [LockRequest ''k'' 1, LockRequest ''k'' 2, LockRequest ''k'' 3]"

lemma demoRequests_owner: "getLockOwner (storeAfter demoRequests) ''k'' = Inr (Some 1)"
  by (simp add: owner_is_first_in_line demoRequests_def)

theorem owner_until_unlock_witness:
  "getLockOwner (storeAfter (demoRequests @ [UnlockRequest ''k'' 2, LockRequest ''k'' 1])) ''k''
     = Inr (Some 1)"
  by (rule owner_until_unlock [OF demoRequests_owner]) simp

text \<open>C24. Nobody overtakes: while a client waits, the clients before it in line become fewer, so it
  gets the lock when each of them has unlocked it.\<close>

theorem no_overtaking:
  assumes "c \<in> set (at (storeAfter rs) k)" and "UnlockRequest k c \<notin> set rs'"
  shows "set (ahead c (at (storeAfter (rs @ rs')) k)) \<subseteq> set (ahead c (at (storeAfter rs) k)) \<and>
    (ahead c (at (storeAfter (rs @ rs')) k) = [] \<longrightarrow>
      getLockOwner (storeAfter (rs @ rs')) k = Inr (Some c))"
proof -
  note a = store.ahead_shrinks [OF storeAfter_ok assms, folded storeAfter_append]
  have "getLockOwner (storeAfter (rs @ rs')) k = Inr (Some c)"
    if "ahead c (at (storeAfter (rs @ rs')) k) = []"
  proof -
    from that a obtain ds where "at (storeAfter (rs @ rs')) k = c # ds"
      by (cases "at (storeAfter (rs @ rs')) k") (auto simp: ahead_def split: if_splits)
    with getLockOwner_first [OF storeAfter_ok, of "rs @ rs'" k] show ?thesis by simp
  qed
  with a show ?thesis by blast
qed

theorem no_overtaking_witness:
  "getLockOwner (storeAfter (demoRequests @ [UnlockRequest ''k'' 1, LockRequest ''k'' 1])) ''k''
     = Inr (Some 2)"
proof -
  have waits: "2 \<in> set (at (storeAfter demoRequests) ''k'')" by code_simp
  have stays: "UnlockRequest ''k'' 2 \<notin> set [UnlockRequest ''k'' 1, LockRequest ''k'' (1 :: int)]"
    by simp
  have "ahead 2 (at (storeAfter
      (demoRequests @ [UnlockRequest ''k'' 1, LockRequest ''k'' 1])) ''k'') = []" by code_simp
  with no_overtaking [OF waits stays] show ?thesis by simp
qed

end
