(* ===== verification/LockServer.thy ===== *)
theory LockServer
  imports LockStore GoStrings RaftSteps
begin

text \<open>
  raft-lock: the messages of common.go, the server of server.go above its Raft peer, and the
  clerk of clerk.go. A channel made with capacity 1 is the list of the values in it. The
  server's fields are those of the struct but for \<open>rf\<close>, which is the peer it runs on, and
  \<open>applyCh\<close>, which holds every message the peer has sent: \<open>taken\<close> counts those the apply
  loop has received.
\<close>

section \<open>common.go\<close>

definition OK :: string where "OK = ''OK''"
definition ErrNoKey :: string where "ErrNoKey = ''ErrNoKey''"
definition ErrWrongLeader :: string where "ErrWrongLeader = ''ErrWrongLeader''"

definition LockOp :: int where "LockOp = 1"
definition UnlockOp :: int where "UnlockOp = 2"
definition RequestLockOp :: int where "RequestLockOp = 3"
definition AcquireLockOp :: int where "AcquireLockOp = 4"
definition RequestUnlockOp :: int where "RequestUnlockOp = 5"

lemmas op_consts [simp] =
  LockOp_def UnlockOp_def RequestLockOp_def AcquireLockOp_def RequestUnlockOp_def

definition OpType_ToString :: "int \<Rightarrow> string go" where
  "OpType_ToString opt =
     (if opt = LockOp then Inr ''Lock''
      else if opt = UnlockOp then Inr ''Unlock''
      else if opt = RequestLockOp then Inr ''RequestLock''
      else if opt = AcquireLockOp then Inr ''AcquireLock''
      else if opt = RequestUnlockOp then Inr ''RequestUnlock''
      else Inl (ExplicitPanic ''impossible!''))"

record MutexArgs =
  argKey :: string
  argOp :: int
  argClientId :: int
  argRequestId :: int

record ReceiveLockArgs =
  rcvKey :: string
  rcvRequestId :: int

definition ServerEvent :: int where "ServerEvent = 1"
definition ClientEvent :: int where "ClientEvent = 2"

definition EventType_ToString :: "int \<Rightarrow> string go" where
  "EventType_ToString e =
     (if e = ServerEvent then Inr ''Server''
      else if e = ClientEvent then Inr ''Client''
      else Inl (ExplicitPanic ''impossible!''))"

record Event =
  evOp :: int
  eventType :: int
  evKey :: string
  evId :: int

definition Event_ToString :: "Event \<Rightarrow> string go" where
  "Event_ToString e =
     (case EventType_ToString (eventType e) of
        Inl f \<Rightarrow> Inl f
      | Inr t \<Rightarrow>
         (case OpType_ToString (evOp e) of
            Inl f \<Rightarrow> Inl f
          | Inr opt \<Rightarrow> Inr (''Event: '' @ t @ '' '' @ opt @ '' '' @ evKey e @ '' '' @ Itoa (evId e))))"

section \<open>server.go\<close>

record Op =
  opType :: int
  opKey :: string
  ClientId :: int
  RequestId :: int

record LockServer =
  clerkEnds :: "int set"
  events :: "Event list"
  server :: nat
  killedServer :: bool
  store :: "(string, int) MultiMap"
  results :: "int \<Rightarrow> Op list option"
  lastId :: "int \<Rightarrow> int option"
  taken :: nat

definition StartLockServer :: "int set \<Rightarrow> nat \<Rightarrow> LockServer" where
  "StartLockServer ends i =
     \<lparr>clerkEnds = ends, events = [], server = i, killedServer = False, store = (\<lambda>k. None),
      results = (\<lambda>index. None), lastId = (\<lambda>c. None), taken = 0\<rparr>"

definition KillServer :: "LockServer \<Rightarrow> LockServer" where
  "KillServer ls = ls\<lparr>killedServer := True\<rparr>"

text \<open>A handler has returned from \<open>Start\<close>, waits on the channel of an index, has put its result
  into the reply, or died with its server.\<close>

datatype handler =
    Started Op int bool
  | Waiting Op int
  | Replied Op string
  | Gone

definition isSameOp :: "Op \<Rightarrow> Op \<Rightarrow> bool" where
  "isSameOp issued applied \<longleftrightarrow> ClientId issued = ClientId applied \<and> RequestId issued = RequestId applied"

definition mutexReply :: "bool \<Rightarrow> string" where
  "mutexReply ok = (if \<not> ok then ErrWrongLeader else OK)"

definition channelAt :: "LockServer \<Rightarrow> int \<Rightarrow> Op list" where
  "channelAt ls index = (case results ls index of None \<Rightarrow> [] | Some ch \<Rightarrow> ch)"

text \<open>\<open>Mutex\<close> and \<open>waitForApplied\<close>: after the peer's \<open>Start\<close>, up to the select.\<close>

definition MutexHandler :: "MutexArgs \<Rightarrow> Op" where
  "MutexHandler args =
     \<lparr>opType = argOp args, opKey = argKey args, ClientId = argClientId args,
      RequestId = argRequestId args\<rparr>"

fun waitForApplied :: "handler \<Rightarrow> LockServer \<Rightarrow> (LockServer \<times> handler) option" where
  "waitForApplied (Started op index isLeader) ls =
     (if \<not> isLeader then Some (ls, Replied op (mutexReply False))
      else Some (ls\<lparr>results := (results ls)(index \<mapsto> channelAt ls index)\<rparr>, Waiting op index))"
| "waitForApplied _ ls = None"

text \<open>The select takes the value in the channel, or the timer fires.\<close>

fun selectApplied :: "handler \<Rightarrow> LockServer \<Rightarrow> (LockServer \<times> handler) option" where
  "selectApplied (Waiting op index) ls =
     (case channelAt ls index of
        [] \<Rightarrow> None
      | appliedOp # ch \<Rightarrow>
          Some (ls\<lparr>results := (results ls)(index \<mapsto> ch)\<rparr>,
                Replied op (mutexReply (isSameOp op appliedOp))))"
| "selectApplied _ ls = None"

fun selectTimeout :: "handler \<Rightarrow> handler option" where
  "selectTimeout (Waiting op index) = Some (Replied op (mutexReply False))"
| "selectTimeout _ = None"

definition applyToStateMachine :: "Op \<Rightarrow> LockServer \<Rightarrow> LockServer" where
  "applyToStateMachine op ls = ls"

text \<open>The test for duplicates: a command is executed when its number is new for its client.\<close>

definition isNew :: "(int \<Rightarrow> int option) \<Rightarrow> Op \<Rightarrow> bool" where
  "isNew ids op = (case ids (ClientId op) of None \<Rightarrow> True | Some i \<Rightarrow> RequestId op > i)"

definition executeOp :: "(Op \<Rightarrow> LockServer \<Rightarrow> LockServer) \<Rightarrow> Op \<Rightarrow> LockServer \<Rightarrow> LockServer" where
  "executeOp machine op ls =
     (if isNew (lastId ls) op
      then (let ls1 = machine op ls in ls1\<lparr>lastId := (lastId ls1)(ClientId op \<mapsto> RequestId op)\<rparr>)
      else ls)"

text \<open>A send on a channel of capacity 1, made while the mutex is held.\<close>

definition sendResult :: "int \<Rightarrow> Op \<Rightarrow> LockServer \<Rightarrow> LockServer go" where
  "sendResult index op ls =
     (let ch = channelAt ls index in
      if slen ch < 1 then Inr (ls\<lparr>results := (results ls)(index \<mapsto> ch @ [op])\<rparr>) else Inl Blocks)"

text \<open>One round of \<open>applyOpsLoop\<close> on a message.\<close>

definition applyOps :: "Op ApplyMsg \<Rightarrow> LockServer \<Rightarrow> LockServer go" where
  "applyOps msg ls =
     (if \<not> CommandValid msg then Inr ls
      else case MsgCommand msg of
        None \<Rightarrow> Inr ls
      | Some op \<Rightarrow> sendResult (CommandIndex msg) op (executeOp applyToStateMachine op ls))"

definition applyOpsLoop :: "Op Raft \<Rightarrow> LockServer \<Rightarrow> LockServer go" where
  "applyOpsLoop rf ls =
     (if killedServer ls \<or> taken ls \<ge> length (applyCh rf) then Inl Blocks
      else applyOps (applyCh rf ! taken ls) (ls\<lparr>taken := Suc (taken ls)\<rparr>))"

definition isLeaderServer :: "Op Raft \<Rightarrow> bool" where
  "isLeaderServer rf = (let (_, isLeader) = GetState rf in isLeader)"

text \<open>\<open>giveLockToOwner\<close>: the RPC it makes to a clerk, if any.\<close>

definition giveLockToOwner ::
  "Op Raft \<Rightarrow> LockServer \<Rightarrow> string \<Rightarrow> int \<Rightarrow> (int \<times> ReceiveLockArgs) option" where
  "giveLockToOwner rf ls key lockOwner =
     (if isLeaderServer rf
      then (if lockOwner \<in> clerkEnds ls then Some (lockOwner, \<lparr>rcvKey = key, rcvRequestId = 0\<rparr>)
            else None)
      else None)"

section \<open>clerk.go\<close>

record Clerk =
  serverCount :: nat
  clerkEvents :: "Event list"
  leaderId :: nat
  ClientID :: int
  requestId :: int

definition MakeClerk :: "nat \<Rightarrow> int \<Rightarrow> Clerk" where
  "MakeClerk n clientId =
     \<lparr>serverCount = n, clerkEvents = [], leaderId = 0, ClientID = clientId, requestId = 0\<rparr>"

definition ReceiveLock :: "ReceiveLockArgs \<Rightarrow> Clerk \<Rightarrow> Clerk" where
  "ReceiveLock args ck =
     ck\<lparr>clerkEvents := clerkEvents ck @
          [\<lparr>evOp = AcquireLockOp, eventType = ClientEvent, evKey = rcvKey args, evId = ClientID ck\<rparr>]\<rparr>"

text \<open>The loop over the servers. What a \<open>Call\<close> gives, whether it succeeds and the reply's
  \<open>Err\<close>, is up to the network: \<open>replies\<close> lists it for the calls the loop makes. None:
  the loop is still calling after the last of them. The result is the server that answered.\<close>

fun sendLoop :: "nat \<Rightarrow> nat \<Rightarrow> (bool \<times> string) list \<Rightarrow> nat option" where
  "sendLoop n srv [] = None"
| "sendLoop n srv ((ok, err) # replies) =
     (if ok \<and> err \<noteq> ErrWrongLeader then Some srv
      else sendLoop n ((srv + 1) mod n) replies)"

definition SendMutex :: "string \<Rightarrow> int \<Rightarrow> (bool \<times> string) list \<Rightarrow> Clerk \<Rightarrow> MutexArgs \<times> Clerk option" where
  "SendMutex key opt replies ck =
     (let reqId = requestId ck + 1;
          ck1 = ck\<lparr>requestId := reqId\<rparr>;
          args = \<lparr>argKey = key, argOp = opt, argClientId = ClientID ck, argRequestId = reqId\<rparr>
      in (args,
          case sendLoop (serverCount ck) (leaderId ck) replies of
            None \<Rightarrow> None
          | Some srv \<Rightarrow> Some (ck1\<lparr>leaderId := srv\<rparr>)))"

definition ClerkLock :: "string \<Rightarrow> (bool \<times> string) list \<Rightarrow> Clerk \<Rightarrow> MutexArgs \<times> Clerk option" where
  "ClerkLock key replies ck = SendMutex key LockOp replies ck"

definition ClerkUnlock :: "string \<Rightarrow> (bool \<times> string) list \<Rightarrow> Clerk \<Rightarrow> MutexArgs \<times> Clerk option" where
  "ClerkUnlock key replies ck = SendMutex key UnlockOp replies ck"

section \<open>What the clerk's loop does\<close>

definition accepted :: "bool \<times> string \<Rightarrow> bool" where
  "accepted r \<longleftrightarrow> fst r \<and> snd r \<noteq> ErrWrongLeader"

lemma sendLoop_iff:
  assumes "srv < n"
  shows "sendLoop n srv replies = Some s \<longleftrightarrow>
    (\<exists>k < length replies. accepted (replies ! k) \<and> (\<forall>i < k. \<not> accepted (replies ! i)) \<and>
       s = (srv + k) mod n)"
  using assms
proof (induction replies arbitrary: srv)
  case (Cons r replies)
  obtain ok err where r: "r = (ok, err)" by (cases r)
  show ?case
  proof (cases "accepted r")
    case True
    then have "sendLoop n srv (r # replies) = Some srv" by (simp add: r accepted_def)
    with True Cons.prems show ?thesis
      unfolding length_Cons Ex_less_Suc2 by (auto simp: All_less_Suc2)
  next
    case False
    then have "sendLoop n srv (r # replies) = sendLoop n ((srv + 1) mod n) replies"
      by (auto simp: r accepted_def)
    moreover have "(srv + 1) mod n < n" using Cons.prems by simp
    ultimately have "sendLoop n srv (r # replies) = Some s \<longleftrightarrow>
      (\<exists>k < length replies. accepted (replies ! k) \<and> (\<forall>i < k. \<not> accepted (replies ! i)) \<and>
         s = (Suc srv + k) mod n)"
      using Cons.IH by (simp add: mod_add_left_eq)
    also have "\<dots> \<longleftrightarrow> (\<exists>k < length (r # replies). accepted ((r # replies) ! k) \<and>
         (\<forall>i < k. \<not> accepted ((r # replies) ! i)) \<and> s = (srv + k) mod n)"
      using False unfolding length_Cons Ex_less_Suc2 by (simp add: All_less_Suc2)
    finally show ?thesis .
  qed
qed simp

text \<open>A clerk tries the servers in turn from the last leader it knew, sends each the same numbered
  request, and returns exactly when one accepts; that server is its leader for the next call.
  It does not return while every server refuses or is unreachable.\<close>

theorem SendMutex_finds_leader:
  assumes "leaderId ck < serverCount ck"
  shows "snd (SendMutex key opt replies ck) = Some ck' \<longleftrightarrow>
    (\<exists>k < length replies. accepted (replies ! k) \<and> (\<forall>i < k. \<not> accepted (replies ! i)) \<and>
       ck' = ck\<lparr>requestId := requestId ck + 1,
                leaderId := (leaderId ck + k) mod serverCount ck\<rparr>)"
proof -
  have "snd (SendMutex key opt replies ck) = Some ck' \<longleftrightarrow>
    (\<exists>s. sendLoop (serverCount ck) (leaderId ck) replies = Some s \<and>
       ck' = ck\<lparr>requestId := requestId ck + 1, leaderId := s\<rparr>)"
    by (auto simp: SendMutex_def Let_def split: option.splits)
  with sendLoop_iff [OF assms, of replies] show ?thesis by auto
qed

theorem SendMutex_finds_leader_witness:
  "snd (SendMutex ''k'' LockOp [(True, ErrWrongLeader), (False, []), (True, OK)] (MakeClerk 3 9))
     = Some ((MakeClerk 3 9)\<lparr>requestId := 1, leaderId := 2\<rparr>)"
proof -
  have "leaderId (MakeClerk 3 9) < serverCount (MakeClerk 3 9)" by (simp add: MakeClerk_def)
  note found = SendMutex_finds_leader [OF this]
  show ?thesis
    by (rule iffD2 [OF found], rule exI [of _ 2])
      (simp add: MakeClerk_def accepted_def OK_def ErrWrongLeader_def less_2_cases_iff all_conj_distrib)
qed

end
