(* ===== verification/LockService.thy ===== *)
theory LockService
  imports LockServer
begin

text \<open>
  The lock service: lock servers above a Raft cluster. An action is one of the cluster's, a
  step of a handler goroutine, a round of an apply loop, or a crash of a machine, which
  restarts the peer and the lock server above it. Commands enter the cluster only through
  the handlers.
\<close>

section \<open>The system\<close>

record lockSystem =
  cluster :: "Op system"
  servers :: "nat \<Rightarrow> LockServer"
  handlers :: "(nat \<times> handler) list"

datatype lockAction =
    RaftAction "Op action"
  | MutexCall nat MutexArgs
  | Register nat
  | Receive nat
  | Timeout nat
  | ApplyOne nat
  | CrashServer nat

fun clusterAction :: "Op action \<Rightarrow> bool" where
  "clusterAction (ClientStart i c) = False"
| "clusterAction (Restart i) = False"
| "clusterAction _ = True"

definition setServer :: "nat \<Rightarrow> LockServer \<Rightarrow> lockSystem \<Rightarrow> lockSystem" where
  "setServer i ls s = s\<lparr>servers := (servers s)(i := ls)\<rparr>"

definition setHandler :: "nat \<Rightarrow> nat \<Rightarrow> handler \<Rightarrow> lockSystem \<Rightarrow> lockSystem" where
  "setHandler h i x s = s\<lparr>handlers := (handlers s)[h := (i, x)]\<rparr>"

fun handlerStep ::
  "(handler \<Rightarrow> LockServer \<Rightarrow> (LockServer \<times> handler) option) \<Rightarrow> nat \<Rightarrow> lockSystem \<Rightarrow> lockSystem option"
where
  "handlerStep f h s =
     (if h < length (handlers s) then
        (let (i, x) = handlers s ! h in
         case f x (servers s i) of
           None \<Rightarrow> None
         | Some (ls, x') \<Rightarrow> Some (setHandler h i x' (setServer i ls s)))
      else None)"

fun lockStep :: "int set \<Rightarrow> lockAction \<Rightarrow> lockSystem \<Rightarrow> lockSystem option" where
  "lockStep ends (RaftAction a) s =
     (if clusterAction a then
        (case sysStep a (cluster s) of None \<Rightarrow> None | Some c \<Rightarrow> Some (s\<lparr>cluster := c\<rparr>))
      else None)"
| "lockStep ends (MutexCall i args) s =
     (if i < nservers (cluster s) then
        (case Start (nodes (cluster s) i) (Some (MutexHandler args)) of
           Inl _ \<Rightarrow> None
         | Inr (rf, index, _, isLeader) \<Rightarrow>
             Some (s\<lparr>cluster := setNode i rf (cluster s),
                     handlers := handlers s @ [(i, Started (MutexHandler args) index isLeader)]\<rparr>))
      else None)"
| "lockStep ends (Register h) s = handlerStep waitForApplied h s"
| "lockStep ends (Receive h) s = handlerStep selectApplied h s"
| "lockStep ends (Timeout h) s =
     handlerStep (\<lambda>x ls. case selectTimeout x of None \<Rightarrow> None | Some x' \<Rightarrow> Some (ls, x')) h s"
| "lockStep ends (ApplyOne i) s =
     (if i < nservers (cluster s) then
        (case applyOpsLoop (nodes (cluster s) i) (servers s i) of
           Inl _ \<Rightarrow> None | Inr ls \<Rightarrow> Some (setServer i ls s))
      else None)"
| "lockStep ends (CrashServer i) s =
     (case sysStep (Restart i) (cluster s) of
        None \<Rightarrow> None
      | Some c \<Rightarrow>
          Some (setServer i (StartLockServer ends i)
            (s\<lparr>cluster := c,
               handlers := map (\<lambda>(k, x). (k, if k = i then Gone else x)) (handlers s)\<rparr>)))"

definition startService :: "int set \<Rightarrow> nat \<Rightarrow> lockSystem" where
  "startService ends n =
     \<lparr>cluster = startSystem n, servers = StartLockServer ends, handlers = []\<rparr>"

definition serviceInit :: "int set \<Rightarrow> lockSystem \<Rightarrow> bool" where
  "serviceInit ends s \<longleftrightarrow> s = startService ends (nservers (cluster s))"

section \<open>The invariant of a server\<close>

text \<open>What is in a channel was received from Raft under the channel's index and is not new.\<close>

definition server_ok :: "LockServer \<Rightarrow> bool" where
  "server_ok ls \<longleftrightarrow>
     (\<forall>index. \<forall>op \<in> set (channelAt ls index). index \<le> int (taken ls) \<and> \<not> isNew (lastId ls) op) \<and>
     store ls = (\<lambda>k. None) \<and> events ls = []"

definition service_inv :: "lockSystem \<Rightarrow> bool" where
  "service_inv s \<longleftrightarrow> reachable raftInit sysStep (cluster s) \<and> (\<forall>i. server_ok (servers s i))"

lemma channelAt_update [simp]:
  "channelAt (ls\<lparr>results := (results ls)(index \<mapsto> ch)\<rparr>) k = (if k = index then ch else channelAt ls k)"
  by (simp add: channelAt_def)

lemma server_okI:
  assumes "server_ok ls" and "\<And>k. set (channelAt ls' k) \<subseteq> set (channelAt ls k)"
    and "taken ls' = taken ls" "lastId ls' = lastId ls" "store ls' = store ls" "events ls' = events ls"
  shows "server_ok ls'"
  using assms unfolding server_ok_def by (auto dest!: subsetD)

lemma isNew_update: "\<not> isNew ids op \<Longrightarrow> isNew ids op' \<Longrightarrow> \<not> isNew (ids(ClientId op' \<mapsto> RequestId op')) op"
  by (auto simp: isNew_def split: option.splits)

lemma isNew_self: "\<not> isNew (ids(ClientId op \<mapsto> RequestId op)) op"
  by (simp add: isNew_def)

lemma executeOp_simps:
  "lastId (executeOp applyToStateMachine op ls) =
     (if isNew (lastId ls) op then (lastId ls)(ClientId op \<mapsto> RequestId op) else lastId ls)"
  "results (executeOp applyToStateMachine op ls) = results ls"
  "channelAt (executeOp applyToStateMachine op ls) = channelAt ls"
  "taken (executeOp applyToStateMachine op ls) = taken ls"
  "store (executeOp applyToStateMachine op ls) = store ls"
  "events (executeOp applyToStateMachine op ls) = events ls"
  by (auto simp: executeOp_def applyToStateMachine_def channelAt_def Let_def)

lemma apply_index:
  assumes "reachable raftInit sysStep s" and "i < nservers s" and "k < length (applyCh (nodes s i))"
  shows "CommandIndex (applyCh (nodes s i) ! k) = int (Suc k)"
proof -
  have e: "map CommandIndex (applyCh (nodes s i)) = [1..lastApplied (nodes s i)]"
    using reachable_peer [OF assms(1,2)] by (simp add: peer_inv_def apply_ok_def)
  from assms(3) have "CommandIndex (applyCh (nodes s i) ! k) = map CommandIndex (applyCh (nodes s i)) ! k"
    by simp
  moreover from assms(3) have "k < length [1..lastApplied (nodes s i)]"
    unfolding e [symmetric] by simp
  ultimately show ?thesis unfolding e by (simp add: nth_upto)
qed

text \<open>The apply loop finds the channel of a new message empty.\<close>

lemma applyOpsLoop_ok:
  assumes "reachable raftInit sysStep c" and "i < nservers c" and ok: "server_ok ls"
    and live: "\<not> killedServer ls" and more: "taken ls < length (applyCh (nodes c i))"
  shows "\<exists>ls'. applyOpsLoop (nodes c i) ls = Inr ls' \<and> server_ok ls'"
proof -
  define msg where "msg = applyCh (nodes c i) ! taken ls"
  have idx: "CommandIndex msg = int (Suc (taken ls))"
    unfolding msg_def by (rule apply_index [OF assms(1,2) more])
  let ?ls = "ls\<lparr>taken := Suc (taken ls)\<rparr>"
  have ch: "channelAt ?ls = channelAt ls" by (simp add: channelAt_def fun_eq_iff)
  from ok have ok1: "server_ok ?ls" by (fastforce simp: server_ok_def ch)
  have run: "applyOpsLoop (nodes c i) ls = applyOps msg ?ls"
    using live more by (simp add: applyOpsLoop_def msg_def)
  show ?thesis
  proof (cases "CommandValid msg \<and> MsgCommand msg \<noteq> None")
    case False
    then have "applyOps msg ?ls = Inr ?ls" by (auto simp: applyOps_def split: option.splits)
    with run ok1 show ?thesis by auto
  next
    case True
    then obtain op where op: "MsgCommand msg = Some op" by auto
    let ?e = "executeOp applyToStateMachine op ?ls"
    have "channelAt ls (int (Suc (taken ls))) = []"
    proof (rule ccontr)
      assume "channelAt ls (int (Suc (taken ls))) \<noteq> []"
      then obtain x where "x \<in> set (channelAt ls (int (Suc (taken ls))))" by (meson last_in_set)
      with ok have "int (Suc (taken ls)) \<le> int (taken ls)" unfolding server_ok_def by blast
      then show False by simp
    qed
    then have "applyOps msg ?ls = Inr (?e\<lparr>results := (results ?e)(int (Suc (taken ls)) \<mapsto> [op])\<rparr>)"
      using True op by (simp add: applyOps_def sendResult_def idx executeOp_simps ch)
    moreover have "server_ok (?e\<lparr>results := (results ?e)(int (Suc (taken ls)) \<mapsto> [op])\<rparr>)"
      (is "server_ok ?f")
    proof -
      have chf: "channelAt ?f k = (if k = int (Suc (taken ls)) then [op] else channelAt ls k)" for k
        by (simp add: channelAt_def executeOp_simps)
      have f: "taken ?f = Suc (taken ls)" "store ?f = store ls" "events ?f = events ls"
        "lastId ?f = lastId ?e" by (simp_all add: executeOp_simps)
      have new: "\<not> isNew (lastId ?e) op" "\<not> isNew (lastId ls) x \<Longrightarrow> \<not> isNew (lastId ?e) x" for x
        using isNew_update [of "lastId ls" x op] isNew_self [of "lastId ls" op]
        by (auto simp: executeOp_simps)
      from ok have "\<forall>k. \<forall>x \<in> set (channelAt ls k). k \<le> int (Suc (taken ls)) \<and> \<not> isNew (lastId ls) x"
        "store ls = (\<lambda>k. None)" "events ls = []" by (fastforce simp: server_ok_def)+
      with new show ?thesis unfolding server_ok_def chf f by auto
    qed
    ultimately show ?thesis using run by simp
  qed
qed

lemma handlerStep_inv:
  assumes inv: "service_inv s" and step: "handlerStep f h s = Some t"
    and f: "\<And>x ls ls' x'. f x ls = Some (ls', x') \<Longrightarrow> server_ok ls \<Longrightarrow> server_ok ls'"
  shows "service_inv t"
proof -
  obtain i x where ix: "handlers s ! h = (i, x)" by fastforce
  with step obtain ls x' where "f x (servers s i) = Some (ls, x')"
    "t = setHandler h i x' (setServer i ls s)"
    by (auto split: if_splits option.splits)
  with inv f show ?thesis by (auto simp: service_inv_def setHandler_def setServer_def)
qed

lemma waitForApplied_ok: "waitForApplied x ls = Some (ls', x') \<Longrightarrow> server_ok ls \<Longrightarrow> server_ok ls'"
  by (cases x) (auto split: if_splits intro: server_okI)

lemma selectApplied_ok: "selectApplied x ls = Some (ls', x') \<Longrightarrow> server_ok ls \<Longrightarrow> server_ok ls'"
  by (cases x) (auto split: list.splits if_splits intro!: server_okI [of ls])

lemma start_ok: "server_ok (StartLockServer ends i)"
  by (simp add: server_ok_def StartLockServer_def channelAt_def)

interpretation lock_service: invariant "serviceInit ends" "lockStep ends" service_inv
proof
  fix s assume "serviceInit ends s"
  then have "cluster s = startSystem (nservers (cluster s))" "servers s = StartLockServer ends"
    unfolding serviceInit_def startService_def by (metis lockSystem.select_convs)+
  then show "service_inv s"
    unfolding service_inv_def using startSystem_reachable_sys start_ok by metis
next
  fix s a t assume inv: "service_inv s" and step: "lockStep ends a s = Some t"
  show "service_inv t"
  proof (cases a)
    case (RaftAction a')
    with step inv show ?thesis
      by (auto simp: service_inv_def split: if_splits option.splits intro: reach_step)
  next
    case (MutexCall i args)
    with step obtain rf index tm isLeader where st: "i < nservers (cluster s)"
      "Start (nodes (cluster s) i) (Some (MutexHandler args)) = Inr (rf, index, tm, isLeader)"
      "t = s\<lparr>cluster := setNode i rf (cluster s),
             handlers := handlers s @ [(i, Started (MutexHandler args) index isLeader)]\<rparr>"
      by (auto split: if_splits sum.splits)
    then have "sysStep (ClientStart i (Some (MutexHandler args))) (cluster s)
        = Some (setNode i rf (cluster s))" by simp
    from reach_step [where step = sysStep, OF _ this] inv have "reachable raftInit sysStep (setNode i rf (cluster s))"
      by (simp only: service_inv_def)
    with inv st(3) show ?thesis by (simp add: service_inv_def)
  next
    case (Register h)
    with step show ?thesis by (auto intro: handlerStep_inv [OF inv _ waitForApplied_ok])
  next
    case (Receive h)
    with step show ?thesis by (auto intro: handlerStep_inv [OF inv _ selectApplied_ok])
  next
    case (Timeout h)
    then have "handlerStep (\<lambda>x ls. case selectTimeout x of None \<Rightarrow> None | Some x' \<Rightarrow> Some (ls, x')) h s
      = Some t" using step by simp
    then show ?thesis by (rule handlerStep_inv [OF inv]) (auto split: option.splits)
  next
    case (ApplyOne i)
    with step obtain ls where st: "i < nservers (cluster s)"
      "applyOpsLoop (nodes (cluster s) i) (servers s i) = Inr ls" "t = setServer i ls s"
      by (auto split: if_splits sum.splits)
    have "\<not> killedServer (servers s i)" "taken (servers s i) < length (applyCh (nodes (cluster s) i))"
      using st(2) by (auto simp: applyOpsLoop_def split: if_splits)
    from inv have "reachable raftInit sysStep (cluster s)" "server_ok (servers s i)"
      by (simp_all add: service_inv_def)
    from applyOpsLoop_ok [OF this(1) st(1) this(2) \<open>\<not> killedServer _\<close> \<open>taken _ < _\<close>] st(2)
    have "server_ok ls" by auto
    with inv st(3) show ?thesis by (simp add: service_inv_def setServer_def)
  next
    case (CrashServer i)
    with step obtain c where "sysStep (Restart i) (cluster s) = Some c"
      "cluster t = c" "servers t = (servers s)(i := StartLockServer ends i)"
      by (auto simp: setServer_def simp del: sysStep.simps split: option.splits)
    moreover from inv have "reachable raftInit sysStep (cluster s)" by (simp add: service_inv_def)
    ultimately have "reachable raftInit sysStep (cluster t)"
      using reach_step [where step = sysStep] by metis
    with inv start_ok \<open>servers t = _\<close> show ?thesis by (simp add: service_inv_def)
  qed
qed

section \<open>Properties\<close>

text \<open>C25. The apply loop never blocks while it holds the server's mutex: every message Raft
  delivers, in any execution with crashes, losses and time-outs, finds room in the channel
  of its index, because Raft delivers each index at most once.\<close>

theorem apply_loop_never_blocks:
  assumes "reachable (serviceInit ends) (lockStep ends) s" and "i < nservers (cluster s)"
    and "\<not> killedServer (servers s i)"
    and "taken (servers s i) < length (applyCh (nodes (cluster s) i))"
  shows "\<exists>ls. applyOpsLoop (nodes (cluster s) i) (servers s i) = Inr ls"
proof -
  from lock_service.reachable_inv [OF assms(1)]
  have "reachable raftInit sysStep (cluster s)" "server_ok (servers s i)"
    by (simp_all add: service_inv_def)
  from applyOpsLoop_ok [OF this(1) assms(2) this(2) assms(3,4)] show ?thesis by blast
qed

text \<open>A reply \<open>OK\<close> is a promise: when a handler answers OK, its server has executed the
  client's request or a later one of that client.\<close>

theorem ok_means_executed:
  assumes "reachable (serviceInit ends) (lockStep ends) s"
    and "selectApplied (Waiting op index) (servers s i) = Some (ls, Replied op OK)"
  shows "\<exists>n. lastId (servers s i) (ClientId op) = Some n \<and> RequestId op \<le> n"
proof -
  from lock_service.reachable_inv [OF assms(1)] have ok: "server_ok (servers s i)"
    by (simp add: service_inv_def)
  from assms(2) obtain x xs where ch: "channelAt (servers s i) index = x # xs"
    and same: "isSameOp op x"
    by (auto simp: mutexReply_def OK_def ErrWrongLeader_def split: list.splits if_splits)
  from ok ch have "\<not> isNew (lastId (servers s i)) x"
    unfolding server_ok_def by (metis list.set_intros(1))
  with same show ?thesis by (auto simp: isNew_def isSameOp_def not_less split: option.splits)
qed

text \<open>No client ever gets a lock: \<open>applyToStateMachine\<close> is empty, so in every state the
  service reaches the store of every server is empty, no lock has an owner and no event has
  been sent, although requests are answered OK.\<close>

theorem locks_never_granted:
  assumes "reachable (serviceInit ends) (lockStep ends) s"
  shows "getLockOwner (store (servers s i)) key = Inr None \<and> events (servers s i) = []"
proof -
  from lock_service.reachable_inv [OF assms] have "server_ok (servers s i)"
    by (simp add: service_inv_def)
  then show ?thesis by (simp add: server_ok_def getLockOwner_def)
qed

section \<open>Duplicates\<close>

text \<open>Retries are harmless, whatever the state machine does: a request that was delivered
  before is ignored when it is delivered again, so it is executed at most once.\<close>

theorem retries_are_ignored:
  assumes "\<forall>op ls. lastId (machine op ls) = lastId ls"
  shows "fold (executeOp machine) (ops @ [op] @ ops' @ [op]) ls
    = fold (executeOp machine) (ops @ [op] @ ops') ls"
proof -
  have keep: "\<not> isNew (lastId l) x \<Longrightarrow> \<not> isNew (lastId (executeOp machine y l)) x" for l x y
    using assms isNew_update [of "lastId l" x y] by (auto simp: executeOp_def Let_def)
  have "\<not> isNew (lastId (fold (executeOp machine) ys l)) x" if "\<not> isNew (lastId l) x" for ys l x
    using that by (induction ys arbitrary: l) (auto dest: keep)
  moreover have "\<not> isNew (lastId (executeOp machine op l)) op" for l
    using assms isNew_self by (auto simp: executeOp_def Let_def)
  ultimately have "\<not> isNew (lastId (fold (executeOp machine) (ops @ [op] @ ops') ls)) op" by simp
  then show ?thesis by (simp add: executeOp_def)
qed

section \<open>A run\<close>

text \<open>
  Peer 0 of three leads. Two goroutines of client 5 ask for the lock \<open>k\<close> and for its release;
  the request with number 2 overtakes the one with number 1 in the network.
\<close>

definition lateArgs :: MutexArgs where
  "lateArgs = \<lparr>argKey = ''k'', argOp = LockOp, argClientId = 5, argRequestId = 1\<rparr>"

definition earlyArgs :: MutexArgs where
  "earlyArgs = \<lparr>argKey = ''k'', argOp = UnlockOp, argClientId = 5, argRequestId = 2\<rparr>"

definition serviceAppend :: "Op AppendEntriesArgs" where
  "serviceAppend = \<lparr>aeTerm = 1, LeaderID = 0, PrevLogIndex = 0, PrevLogTerm = 0,
     Entries = [\<lparr>Command = Some (MutexHandler earlyArgs), Term = 1\<rparr>,
                \<lparr>Command = Some (MutexHandler lateArgs), Term = 1\<rparr>], LeaderCommit = 0\<rparr>"

definition electSchedule :: "lockAction list" where
  "electSchedule = map RaftAction
     [ElectionTick 0, Run 0, Run 0, Run 0, Deliver (VoteReq 0 1 demoVoteArgs),
      Return 0 (VoteRep 0 1 demoVoteArgs \<lparr>rvrTerm = 0, VoteGranted = True\<rparr>), Run 0]"

definition overtakeSchedule :: "lockAction list" where
  "overtakeSchedule = electSchedule @
     [MutexCall 0 earlyArgs, MutexCall 0 lateArgs, Register 0, Register 1] @
     map RaftAction [HeartbeatSpawn 0 1, Run 1, Deliver (AppReq 1 1 serviceAppend),
       Return 1 (AppRep 1 1 serviceAppend demoAppendReply), Apply 0]"

lemma overtake_run:
  "case run_actions (lockStep {}) overtakeSchedule (startService {} 3) of
     None \<Rightarrow> False
   | Some s \<Rightarrow> nservers (cluster s) = 3 \<and> \<not> killedServer (servers s 0) \<and>
       taken (servers s 0) = 0 \<and> length (applyCh (nodes (cluster s) 0)) = 2"
  by code_simp

lemma overtake_run2:
  "case run_actions (lockStep {}) (overtakeSchedule @ [ApplyOne 0]) (startService {} 3) of
     None \<Rightarrow> False
   | Some s \<Rightarrow>
       (case selectApplied (Waiting (MutexHandler earlyArgs) 1) (servers s 0) of
          None \<Rightarrow> False | Some (ls, x) \<Rightarrow> x = Replied (MutexHandler earlyArgs) OK) \<and>
       MsgCommand (applyCh (nodes (cluster s) 0) ! taken (servers s 0)) = Some (MutexHandler lateArgs) \<and>
       lastId (servers s 0) 5 = Some 2 \<and>
       (case run_actions (lockStep {}) [ApplyOne 0, Receive 1] s of
          None \<Rightarrow> False
        | Some t \<Rightarrow> handlers t ! 1 = (0, Replied (MutexHandler lateArgs) OK))"
  by code_simp

lemma service_reachable:
  "run_actions (lockStep ends) acts (startService ends n) = Some s \<Longrightarrow>
     reachable (serviceInit ends) (lockStep ends) s"
  by (rule reachable_run [OF reach_init])
    (simp_all add: serviceInit_def startService_def startSystem_def)

theorem apply_loop_never_blocks_witness:
  "\<exists>s ls. reachable (serviceInit {}) (lockStep {}) s \<and>
     length (applyCh (nodes (cluster s) 0)) = 2 \<and>
     applyOpsLoop (nodes (cluster s) 0) (servers s 0) = Inr ls"
proof -
  from overtake_run obtain s where
    s: "run_actions (lockStep {}) overtakeSchedule (startService {} 3) = Some s"
      "0 < nservers (cluster s)" "\<not> killedServer (servers s 0)"
      "taken (servers s 0) < length (applyCh (nodes (cluster s) 0))"
      "length (applyCh (nodes (cluster s) 0)) = 2"
    by (auto split: option.splits)
  from service_reachable [OF s(1)] have r: "reachable (serviceInit {}) (lockStep {}) s" .
  from apply_loop_never_blocks [OF r s(2,3,4)] r s(5) show ?thesis by blast
qed

lemma overtake_state:
  obtains s t ls where "reachable (serviceInit {}) (lockStep {}) s"
    "selectApplied (Waiting (MutexHandler earlyArgs) 1) (servers s 0)
       = Some (ls, Replied (MutexHandler earlyArgs) OK)"
    "MsgCommand (applyCh (nodes (cluster s) 0) ! taken (servers s 0)) = Some (MutexHandler lateArgs)"
    "lastId (servers s 0) 5 = Some 2"
    "run_actions (lockStep {}) [ApplyOne 0, Receive 1] s = Some t"
    "handlers t ! 1 = (0, Replied (MutexHandler lateArgs) OK)"
proof -
  from overtake_run2 obtain s t ls where
    s: "run_actions (lockStep {}) (overtakeSchedule @ [ApplyOne 0]) (startService {} 3) = Some s"
    and rest: "selectApplied (Waiting (MutexHandler earlyArgs) 1) (servers s 0)
       = Some (ls, Replied (MutexHandler earlyArgs) OK)"
    "MsgCommand (applyCh (nodes (cluster s) 0) ! taken (servers s 0)) = Some (MutexHandler lateArgs)"
    "lastId (servers s 0) 5 = Some 2"
    "run_actions (lockStep {}) [ApplyOne 0, Receive 1] s = Some t"
    "handlers t ! 1 = (0, Replied (MutexHandler lateArgs) OK)"
    by (auto split: option.splits)
  show thesis by (rule that [OF service_reachable [OF s] rest])
qed

theorem ok_means_executed_witness:
  "\<exists>s n. reachable (serviceInit {}) (lockStep {}) s \<and>
     lastId (servers s 0) 5 = Some n \<and> 2 \<le> n"
proof -
  obtain s ls where s: "reachable (serviceInit {}) (lockStep {}) s"
    "selectApplied (Waiting (MutexHandler earlyArgs) 1) (servers s 0)
       = Some (ls, Replied (MutexHandler earlyArgs) OK)"
    by (rule overtake_state) blast
  from ok_means_executed [OF s] s(1) show ?thesis
    by (auto simp: MutexHandler_def earlyArgs_def)
qed

theorem locks_never_granted_witness:
  "\<exists>s. reachable (serviceInit {}) (lockStep {}) s \<and> lastId (servers s 0) 5 = Some 2 \<and>
     getLockOwner (store (servers s 0)) ''k'' = Inr None"
proof -
  obtain s where s: "reachable (serviceInit {}) (lockStep {}) s" "lastId (servers s 0) 5 = Some 2"
    by (rule overtake_state) blast
  with locks_never_granted [OF s(1)] show ?thesis by blast
qed

text \<open>Requests of one client that are in flight together can be lost although they are answered
  OK: when a later request is delivered first, the earlier one counts as a duplicate, and no
  state machine gets to see it.\<close>

theorem overtaken_request_is_lost:
  "\<exists>s t. reachable (serviceInit {}) (lockStep {}) s \<and>
     MsgCommand (applyCh (nodes (cluster s) 0) ! taken (servers s 0)) = Some (MutexHandler lateArgs) \<and>
     (\<forall>machine. executeOp machine (MutexHandler lateArgs) (servers s 0) = servers s 0) \<and>
     run_actions (lockStep {}) [ApplyOne 0, Receive 1] s = Some t \<and>
     handlers t ! 1 = (0, Replied (MutexHandler lateArgs) OK)"
proof -
  obtain s t where s: "reachable (serviceInit {}) (lockStep {}) s"
    "MsgCommand (applyCh (nodes (cluster s) 0) ! taken (servers s 0)) = Some (MutexHandler lateArgs)"
    "lastId (servers s 0) 5 = Some 2"
    "run_actions (lockStep {}) [ApplyOne 0, Receive 1] s = Some t"
    "handlers t ! 1 = (0, Replied (MutexHandler lateArgs) OK)"
    by (rule overtake_state) blast
  have "\<forall>machine. executeOp machine (MutexHandler lateArgs) (servers s 0) = servers s 0"
    using s(3) by (simp add: executeOp_def isNew_def MutexHandler_def lateArgs_def)
  with s show ?thesis by blast
qed

text \<open>The state machine README.md describes keeps the numbers of the clients.\<close>

definition readmeMachine :: "Op \<Rightarrow> LockServer \<Rightarrow> LockServer" where
  "readmeMachine op ls =
     (if opType op = LockOp then ls\<lparr>store := lockKey (store ls) (opKey op) (ClientId op)\<rparr>
      else if opType op = UnlockOp then ls\<lparr>store := unlockKey (store ls) (opKey op) (ClientId op)\<rparr>
      else ls)"

theorem retries_are_ignored_witness:
  "fold (executeOp readmeMachine)
     ([] @ [MutexHandler lateArgs] @ [MutexHandler earlyArgs] @ [MutexHandler lateArgs])
     (StartLockServer {} 0)
   = fold (executeOp readmeMachine)
     ([] @ [MutexHandler lateArgs] @ [MutexHandler earlyArgs]) (StartLockServer {} 0)"
  by (rule retries_are_ignored) (simp add: readmeMachine_def)

end
