(* ===== verification/LockConfig.thy ===== *)
theory LockConfig
  imports LockService Labrpc
begin

text \<open>
  raft-lock/config.go: the tester of the lock service. A lock server runs on a Raft peer and
  clerks come and go; servers are connected to any subset of the others. Pointers are numbers:
  \<open>lheap\<close> holds lock servers with their peers, \<open>clerkAt\<close> the clerks. A server is known to the
  network by its number, a clerk by its id. Random end names are an argument.
\<close>

datatype lockEnd = ServerEnd string | ClerkEnd int

text \<open>What a handler can reach: the lock servers with their peers, and the clerks.\<close>

type_synonym lockHeap = "(nat \<Rightarrow> LockServer \<times> Op Raft) \<times> (nat \<Rightarrow> Clerk)"

record ('a, 'r) lockConfig =
  lnet :: "(lockEnd, lockHeap, 'a, 'r) Network"
  ln :: nat
  lockServers :: "nat option list"
  lheap :: "nat \<Rightarrow> LockServer \<times> Op Raft"
  lsaved :: "Op gobval Persister option list"
  lendnames :: "string list option list"
  clerkAt :: "nat \<Rightarrow> Clerk"
  clerks :: "nat \<Rightarrow> string list option"
  knownClerks :: "int set"
  nextClientId :: int
  opCount :: "32 word"
  rpcs0 :: int

definition lendnameAt :: "nat \<Rightarrow> nat \<Rightarrow> ('a, 'r) lockConfig \<Rightarrow> string go" where
  "lendnameAt i j cfg =
     (if i < length (lendnames cfg) then
        (case lendnames cfg ! i of None \<Rightarrow> Inl IndexOutOfRange | Some es \<Rightarrow> go_index es (int j))
      else Inl IndexOutOfRange)"

definition setLink ::
  "bool \<Rightarrow> nat \<Rightarrow> nat \<Rightarrow> ('a, 'r) lockConfig \<Rightarrow> ('a, 'r) lockConfig go" where
  "setLink yes i j cfg =
     (case lendnameAt i j cfg of
        Inl e \<Rightarrow> Inl e | Inr e \<Rightarrow> Inr (cfg\<lparr>lnet := Enable (ServerEnd e) yes (lnet cfg)\<rparr>))"

definition connectUnlocked :: "nat \<Rightarrow> nat list \<Rightarrow> ('a, 'r) lockConfig \<Rightarrow> ('a, 'r) lockConfig go" where
  "connectUnlocked i to cfg =
     (case go_for (\<lambda>j c. setLink True i j c) to cfg of
        Inl e \<Rightarrow> Inl e
      | Inr cfg1 \<Rightarrow> go_for (\<lambda>j c. setLink True j i c) to cfg1)"

text \<open>The second loop tests the name slice of the index into \<open>from\<close>, not of the server.\<close>

definition disconnectUnlocked ::
  "nat \<Rightarrow> nat list \<Rightarrow> ('a, 'r) lockConfig \<Rightarrow> ('a, 'r) lockConfig go" where
  "disconnectUnlocked i frm cfg =
     (case go_for (\<lambda>j c.
             if i < length (lendnames c)
             then if lendnames c ! i \<noteq> None then setLink False i j c else Inr c
             else Inl IndexOutOfRange) frm cfg of
        Inl e \<Rightarrow> Inl e
      | Inr cfg1 \<Rightarrow>
          go_for (\<lambda>j c.
             if j < length (lendnames c)
             then if lendnames c ! j \<noteq> None then setLink False (frm ! j) i c else Inr c
             else Inl IndexOutOfRange) [0..<length frm] cfg1)"

definition AllServers :: "('a, 'r) lockConfig \<Rightarrow> nat list" where
  "AllServers cfg = [0..<ln cfg]"

definition ConnectAll :: "('a, 'r) lockConfig \<Rightarrow> ('a, 'r) lockConfig go" where
  "ConnectAll cfg = go_for (\<lambda>i c. connectUnlocked i (AllServers c) c) [0..<ln cfg] cfg"

text \<open>Clerks. A clerk's own end lets servers call it; each clerk has an end to every server.\<close>

definition addClerkToNetwork ::
  "(lockHeap, 'a, 'r) reflected list \<Rightarrow> nat \<Rightarrow> ('a, 'r) lockConfig \<Rightarrow> ('a, 'r) lockConfig" where
  "addClerkToNetwork methodsOf ck cfg =
     (let cid = ClientID (clerkAt cfg ck);
          rn = Enable (ClerkEnd cid) True (Connect (ClerkEnd cid) (Int64Name cid) (lnet cfg));
          srv = AddService (MakeService ''Clerk'' ck methodsOf) MakeServer;
          rn1 = rn\<lparr>objects := (objects rn)(ck := srv)\<rparr>
      in cfg\<lparr>lnet := AddServer (Int64Name cid) ck rn1\<rparr>)"

definition clerkEndname :: "nat \<Rightarrow> nat \<Rightarrow> ('a, 'r) lockConfig \<Rightarrow> string go" where
  "clerkEndname ck j cfg =
     (case clerks cfg ck of None \<Rightarrow> Inl IndexOutOfRange | Some es \<Rightarrow> go_index es (int j))"

definition switchClient ::
  "bool \<Rightarrow> nat \<Rightarrow> nat list \<Rightarrow> ('a, 'r) lockConfig \<Rightarrow> ('a, 'r) lockConfig go" where
  "switchClient yes ck servers0 cfg =
     go_for (\<lambda>j c. case clerkEndname ck j c of
         Inl e \<Rightarrow> Inl e
       | Inr e \<Rightarrow> Inr (c\<lparr>lnet := Enable (ServerEnd e) yes (lnet c)\<rparr>)) servers0 cfg"

definition ConnectClientUnlocked ::
  "(lockHeap, 'a, 'r) reflected list \<Rightarrow> nat \<Rightarrow> nat list \<Rightarrow> ('a, 'r) lockConfig \<Rightarrow> ('a, 'r) lockConfig go" where
  "ConnectClientUnlocked methodsOf ck to cfg =
     switchClient True ck to (addClerkToNetwork methodsOf ck cfg)"

definition DisconnectClientUnlocked ::
  "nat \<Rightarrow> nat list \<Rightarrow> ('a, 'r) lockConfig \<Rightarrow> ('a, 'r) lockConfig go" where
  "DisconnectClientUnlocked ck frm cfg = switchClient False ck frm cfg"

definition endsTo ::
  "(nat \<Rightarrow> ('a, 'r) lockConfig \<Rightarrow> string go) \<Rightarrow> ('a, 'r) lockConfig \<Rightarrow> ('a, 'r) lockConfig go" where
  "endsTo nameAt cfg0 =
     go_for (\<lambda>j cfg.
         case nameAt j cfg of
           Inl e \<Rightarrow> Inl e
         | Inr e \<Rightarrow>
            (case MakeEnd (ServerEnd e) (lnet cfg) of
               Inl f \<Rightarrow> Inl f
             | Inr rn \<Rightarrow> Inr (cfg\<lparr>lnet := Connect (ServerEnd e) (IntName (int j)) rn\<rparr>)))
       [0..<ln cfg0] cfg0"

definition makeClient ::
  "(lockHeap, 'a, 'r) reflected list \<Rightarrow> int \<Rightarrow> string list \<Rightarrow> nat \<Rightarrow> nat list
   \<Rightarrow> ('a, 'r) lockConfig \<Rightarrow> ('a, 'r) lockConfig go" where
  "makeClient methodsOf clientID names ck to cfg =
     (case MakeEnd (ClerkEnd clientID) (lnet cfg) of
        Inl e \<Rightarrow> Inl e
      | Inr rn \<Rightarrow>
         (case endsTo (\<lambda>j c. go_index (take (ln cfg) names) (int j)) (cfg\<lparr>lnet := rn\<rparr>) of
            Inl e \<Rightarrow> Inl e
          | Inr cfg1 \<Rightarrow>
             (let cfg2 = cfg1\<lparr>clerkAt := (clerkAt cfg1)(ck := MakeClerk (ln cfg1) clientID),
                              clerks := (clerks cfg1)(ck := Some (take (ln cfg) names)),
                              knownClerks := insert clientID (knownClerks cfg1),
                              nextClientId := nextClientId cfg1 + 1\<rparr>
              in ConnectClientUnlocked methodsOf ck to cfg2)))"

definition deleteClient :: "nat \<Rightarrow> ('a, 'r) lockConfig \<Rightarrow> ('a, 'r) lockConfig" where
  "deleteClient ck cfg =
     cfg\<lparr>clerks := (clerks cfg)(ck := None),
         knownClerks := knownClerks cfg - {ClientID (clerkAt cfg ck)}\<rparr>"

text \<open>Servers. A running server's peer persists to the object \<open>saved[i]\<close> points to.\<close>

definition lsavedAt :: "nat \<Rightarrow> ('a, 'r) lockConfig \<Rightarrow> Op gobval Persister option" where
  "lsavedAt i cfg =
     (case (lsaved cfg ! i, lockServers cfg ! i) of
        (Some ps, Some p) \<Rightarrow> Some (persister (snd (lheap cfg p))) | (x, _) \<Rightarrow> x)"

definition ShutdownServer :: "nat \<Rightarrow> ('a, 'r) lockConfig \<Rightarrow> ('a, 'r) lockConfig go" where
  "ShutdownServer i cfg0 =
     (case disconnectUnlocked i (AllServers cfg0) cfg0 of
        Inl e \<Rightarrow> Inl e
      | Inr cfg1 \<Rightarrow>
         (if i < length (lsaved cfg1) then
           (let cfg2 = cfg1\<lparr>lnet := DeleteServer (IntName (int i)) (lnet cfg1)\<rparr>;
                cfg3 = (case lsavedAt i cfg2 of
                          None \<Rightarrow> cfg2
                        | Some ps \<Rightarrow> cfg2\<lparr>lsaved := (lsaved cfg2)[i := Some (CopyPersister ps)]\<rparr>)
            in case lockServers cfg3 ! i of
                 None \<Rightarrow> Inr cfg3
               | Some p \<Rightarrow>
                   (let (ls, rf) = lheap cfg3 p in
                    Inr (cfg3\<lparr>lheap := (lheap cfg3)(p := (KillServer ls, Kill rf)),
                              lockServers := (lockServers cfg3)[i := None]\<rparr>)))
          else Inl IndexOutOfRange))"

definition StartServer ::
  "(lockHeap, 'a, 'r) reflected list \<Rightarrow> (lockHeap, 'a, 'r) reflected list \<Rightarrow> nat \<Rightarrow> string list \<Rightarrow> nat
   \<Rightarrow> ('a, 'r) lockConfig \<Rightarrow> ('a, 'r) lockConfig go" where
  "StartServer serverMethods raftMethods i names p cfg0 =
     (if i < length (lendnames cfg0) then
       (let cfg1 = cfg0\<lparr>lendnames := (lendnames cfg0)[i := Some (take (ln cfg0) names)]\<rparr> in
        case endsTo (lendnameAt i) cfg1 of
          Inl e \<Rightarrow> Inl e
        | Inr cfg2 \<Rightarrow>
           (let ps = (case lsavedAt i cfg2 of Some ps \<Rightarrow> CopyPersister ps | None \<Rightarrow> MakePersister);
                cfg3 = cfg2\<lparr>lsaved := (lsaved cfg2)[i := Some ps]\<rparr>
            in case Make (ln cfg3) i ps of
                 Inl e \<Rightarrow> Inl e
               | Inr rf \<Rightarrow>
                   (let rn = lnet cfg3;
                        srv = AddService (MakeService ''Raft'' p raftMethods)
                                (AddService (MakeService ''LockServer'' p serverMethods) MakeServer);
                        rn1 = rn\<lparr>objects := (objects rn)(p := srv)\<rparr>
                    in Inr (cfg3\<lparr>lheap := (lheap cfg3)(p := (StartLockServer (knownClerks cfg3) i, rf)),
                                 lockServers := (lockServers cfg3)[i := Some p],
                                 lnet := AddServer (IntName (int i)) p rn1\<rparr>))))
      else Inl IndexOutOfRange)"

definition Leader :: "('a, 'r) lockConfig \<Rightarrow> (bool \<times> nat) go" where
  "Leader cfg =
     (case go_for (\<lambda>i found. case found of Some l \<Rightarrow> Inr (Some l)
          | None \<Rightarrow>
             (case lockServers cfg ! i of
                None \<Rightarrow> Inl NilDereference
              | Some p \<Rightarrow>
                 (let (_, is_leader) = GetState (snd (lheap cfg p)) in
                  Inr (if is_leader then Some i else None)))) [0..<ln cfg] None of
        Inl e \<Rightarrow> Inl e
      | Inr (Some l) \<Rightarrow> Inr (True, l)
      | Inr None \<Rightarrow> Inr (False, 0))"

definition emptyLockConfig :: "nat \<Rightarrow> (nat \<Rightarrow> (lockHeap, 'a, 'r) Server) \<Rightarrow> ('a, 'r) lockConfig" where
  "emptyLockConfig n objs =
     \<lparr>lnet = MakeNetwork objs, ln = n, lockServers = replicate n None, lheap = (\<lambda>p. undefined),
      lsaved = replicate n None, lendnames = replicate n None, clerkAt = (\<lambda>ck. MakeClerk n 0),
      clerks = (\<lambda>ck. None), knownClerks = {}, nextClientId = int n + 1000, opCount = 0, rpcs0 = 0\<rparr>"

definition make_lock_config ::
  "(lockHeap, 'a, 'r) reflected list \<Rightarrow> (lockHeap, 'a, 'r) reflected list \<Rightarrow> nat \<Rightarrow> bool
   \<Rightarrow> (nat \<Rightarrow> string list) \<Rightarrow> (nat \<Rightarrow> nat) \<Rightarrow> (nat \<Rightarrow> (lockHeap, 'a, 'r) Server)
   \<Rightarrow> ('a, 'r) lockConfig go" where
  "make_lock_config serverMethods raftMethods n unreliable names ptr objs =
     (case go_for (\<lambda>i. StartServer serverMethods raftMethods i (names i) (ptr i)) [0..<n]
             (emptyLockConfig n objs) of
        Inl e \<Rightarrow> Inl e
      | Inr cfg1 \<Rightarrow>
         (case ConnectAll cfg1 of
            Inl e \<Rightarrow> Inl e
          | Inr cfg2 \<Rightarrow> Inr (cfg2\<lparr>lnet := Reliable (\<not> unreliable) (lnet cfg2)\<rparr>)))"

text \<open>The time limit of a test, in nanoseconds.\<close>

definition lockTimeout :: "bool \<Rightarrow> int \<Rightarrow> unit go" where
  "lockTimeout hasFailed elapsed =
     (if \<not> hasFailed \<and> elapsed > 120 * 1000000000
      then Inl (Fatal ''test took longer than 120 seconds'') else Inr ())"

definition lockCleanup :: "bool \<Rightarrow> int \<Rightarrow> ('a, 'r) lockConfig \<Rightarrow> ('a, 'r) lockConfig go" where
  "lockCleanup hasFailed elapsed cfg =
     (let killOne = (\<lambda>r h. case r of None \<Rightarrow> h
            | Some p \<Rightarrow> h(p := (KillServer (fst (h p)), Kill (snd (h p)))))
      in case Cleanup (lnet cfg) of
           Inl e \<Rightarrow> Inl e
         | Inr rn \<Rightarrow>
            (case lockTimeout hasFailed elapsed of
               Inl e \<Rightarrow> Inl e
             | Inr _ \<Rightarrow> Inr (cfg\<lparr>lheap := fold killOne (lockServers cfg) (lheap cfg), lnet := rn\<rparr>)))"

definition LockLogSize :: "('a, 'r) lockConfig \<Rightarrow> int go" where
  "LockLogSize cfg =
     go_for (\<lambda>i logsize. case lsavedAt i cfg of
         None \<Rightarrow> Inl NilDereference
       | Some ps \<Rightarrow> (let n = RaftStateSize ps in Inr (if n > logsize then n else logsize)))
       [0..<ln cfg] 0"

definition beginLockTest :: "('a, 'r) lockConfig \<Rightarrow> ('a, 'r) lockConfig" where
  "beginLockTest cfg = cfg\<lparr>rpcs0 := GetTotalCount (lnet cfg), opCount := 0\<rparr>"

definition countOp :: "('a, 'r) lockConfig \<Rightarrow> ('a, 'r) lockConfig" where
  "countOp cfg = cfg\<lparr>opCount := opCount cfg + 1\<rparr>"

text \<open>What \<open>end\<close> prints, apart from the time: servers, RPCs and clerk calls since \<open>begin\<close>.\<close>

definition endLockTest :: "bool \<Rightarrow> int \<Rightarrow> ('a, 'r) lockConfig \<Rightarrow> (nat \<times> int \<times> int) option go" where
  "endLockTest hasFailed elapsed cfg =
     (case lockTimeout hasFailed elapsed of
        Inl e \<Rightarrow> Inl e
      | Inr _ \<Rightarrow>
          if hasFailed = False
          then Inr (Some (ln cfg, GetTotalCount (lnet cfg) - rpcs0 cfg, sint (opCount cfg)))
          else Inr None)"

text \<open>\<open>random_handles\<close>: a copy shuffled by exchanges; \<open>draw i\<close> is what \<open>rand.Intn(i + 1)\<close> gives.\<close>

definition swapAt :: "nat \<Rightarrow> nat \<Rightarrow> 'x list \<Rightarrow> 'x list" where
  "swapAt i j xs = xs[i := xs ! j, j := xs ! i]"

definition random_handles :: "(nat \<Rightarrow> nat) \<Rightarrow> 'x list \<Rightarrow> 'x list" where
  "random_handles draw kvh =
     fold (\<lambda>i sa. swapAt i (draw i mod (i + 1)) sa) [0..<length kvh] kvh"

section \<open>Partitions\<close>

text \<open>
  The abstract view of the network between the servers: the set of the links that let calls
  through. A wired cluster is one whose servers have all been started.
\<close>

definition lname :: "('a, 'r) lockConfig \<Rightarrow> nat \<Rightarrow> nat \<Rightarrow> string" where
  "lname cfg i j = (case lendnames cfg ! i of None \<Rightarrow> '''' | Some es \<Rightarrow> es ! j)"

definition wired :: "('a, 'r) lockConfig \<Rightarrow> bool" where
  "wired cfg \<longleftrightarrow> length (lendnames cfg) = ln cfg \<and>
     (\<forall>i < ln cfg. case lendnames cfg ! i of None \<Rightarrow> False | Some es \<Rightarrow> length es = ln cfg) \<and>
     (\<forall>i < ln cfg. \<forall>j < ln cfg. \<forall>k < ln cfg. \<forall>l < ln cfg.
        lname cfg i j = lname cfg k l \<longrightarrow> i = k \<and> j = l)"

definition links :: "('a, 'r) lockConfig \<Rightarrow> (nat \<times> nat) set" where
  "links cfg = {(i, j). i < ln cfg \<and> j < ln cfg \<and> enabled (lnet cfg) (ServerEnd (lname cfg i j))}"

definition relinked :: "bool \<Rightarrow> (nat \<times> nat) set \<Rightarrow> ('a, 'r) lockConfig \<Rightarrow> ('a, 'r) lockConfig \<Rightarrow> bool" where
  "relinked yes R cfg t \<longleftrightarrow> wired t \<and> ln t = ln cfg \<and> lendnames t = lendnames cfg \<and>
     links t = (if yes then links cfg \<union> R else links cfg - R)"

lemma setLink_relinks:
  assumes w: "wired cfg" and i: "i < ln cfg" and j: "j < ln cfg"
  shows "\<exists>t. setLink yes i j cfg = Inr t \<and> relinked yes {(i, j)} cfg t"
proof -
  from w i obtain es where es: "lendnames cfg ! i = Some es" "length es = ln cfg" and len: "i < length (lendnames cfg)"
    by (auto simp: wired_def split: option.splits)
  let ?t = "cfg\<lparr>lnet := Enable (ServerEnd (lname cfg i j)) yes (lnet cfg)\<rparr>"
  have "setLink yes i j cfg = Inr ?t"
    using es j len by (simp add: setLink_def lendnameAt_def go_index_def slen_def lname_def)
  moreover have n: "lname ?t = lname cfg" by (simp add: lname_def fun_eq_iff)
  have "wired ?t" using w unfolding wired_def n by (auto split: option.splits)
  moreover have inj: "lname cfg k l = lname cfg i j \<longleftrightarrow> k = i \<and> l = j" if "k < ln cfg" "l < ln cfg" for k l
    using w i j that unfolding wired_def by blast
  have "links ?t = (if yes then links cfg \<union> {(i, j)} else links cfg - {(i, j)})"
    using i j inj unfolding links_def n by (auto simp: Enable_def)
  ultimately show ?thesis by (auto simp: relinked_def)
qed

lemma relinks_loop:
  assumes "wired cfg" and "\<And>j. j \<in> set js \<Longrightarrow> f j < ln cfg \<and> g j < ln cfg"
    and "\<And>j c. j \<in> set js \<Longrightarrow> wired c \<Longrightarrow> ln c = ln cfg \<Longrightarrow> body j c = setLink yes (f j) (g j) c"
  shows "\<exists>t. go_for body js cfg = Inr t \<and> relinked yes ((\<lambda>j. (f j, g j)) ` set js) cfg t"
  using assms
proof (induction js arbitrary: cfg)
  case Nil
  then show ?case by (simp add: relinked_def)
next
  case (Cons j js)
  have "body j cfg = setLink yes (f j) (g j) cfg" using Cons.prems by simp
  with setLink_relinks [OF Cons.prems(1), of "f j" "g j" yes] Cons.prems(2) obtain c where
    c: "body j cfg = Inr c" "relinked yes {(f j, g j)} cfg c" by auto
  then have n: "wired c" "ln c = ln cfg" by (auto simp: relinked_def)
  from Cons.IH [OF n(1)] Cons.prems(2,3) n(2) obtain t where
    "go_for body js c = Inr t" "relinked yes ((\<lambda>j. (f j, g j)) ` set js) c t" by auto
  with c show ?case by (intro exI [of _ t]) (auto simp: relinked_def)
qed


text \<open>Three servers, of which server 2 is then cut off.\<close>

definition demoNames :: "nat \<Rightarrow> string list" where
  "demoNames i = (if i = 0 then [''a'', ''b'', ''c''] else if i = 1 then [''d'', ''e'', ''f'']
     else [''g'', ''h'', ''i''])"

definition demoLockConfig :: "(nat, nat) lockConfig go" where
  "demoLockConfig = make_lock_config [] [] 3 False demoNames (\<lambda>i. i) (\<lambda>p. MakeServer)"

lemma demoLockConfig_wired:
  "case demoLockConfig of Inl e \<Rightarrow> False | Inr cfg \<Rightarrow> ln cfg = 3 \<and> length (lendnames cfg) = 3 \<and>
     lendnames cfg ! 0 = Some [''a'', ''b'', ''c''] \<and> lendnames cfg ! 1 = Some [''d'', ''e'', ''f''] \<and>
     lendnames cfg ! 2 = Some [''g'', ''h'', ''i''] \<and> enabled (lnet cfg) (ServerEnd ''b'')"
  by code_simp


text \<open>
  The wrong index in the second loop of \<open>disconnectUnlocked\<close> shows while servers are still to
  be started: server 0 has names, server 1 has none, and cutting 0 off from 1 panics.
\<close>

lemma disconnect_wrong_index:
  "case StartServer [] [] 0 [''a'', ''b''] 0 (emptyLockConfig 2 (\<lambda>p. MakeServer) :: (nat, nat) lockConfig) of
     Inl e \<Rightarrow> False
   | Inr cfg \<Rightarrow> (case disconnectUnlocked 0 [1] cfg of Inl e \<Rightarrow> e = IndexOutOfRange | Inr t \<Rightarrow> False)"
  by code_simp

text \<open>\<open>random_handles\<close> gives all the handles, whatever is drawn.\<close>

lemma mset_swapAt: "i < length xs \<Longrightarrow> j < length xs \<Longrightarrow> mset (swapAt i j xs) = mset xs"
  by (simp add: swapAt_def mset_swap)

lemma random_handles_mset: "mset (random_handles draw xs) = mset xs"
proof -
  have "mset (fold (\<lambda>i sa. swapAt i (draw i mod (i + 1)) sa) [0..<k] ys) = mset ys \<and>
      length (fold (\<lambda>i sa. swapAt i (draw i mod (i + 1)) sa) [0..<k] ys) = length ys"
    if "k \<le> length ys" for k and ys :: "'a list"
    using that
  proof (induction k)
    case (Suc k)
    have "draw k mod (k + 1) < k + 1" by simp
    then have "draw k mod (k + 1) < length ys" using Suc.prems by linarith
    with Suc show ?case by (auto simp: mset_swapAt) (simp add: swapAt_def)
  qed simp
  then show ?thesis by (simp add: random_handles_def)
qed

end
