(* ===== verification/TesterChecks.thy ===== *)
theory TesterChecks
  imports TesterNet RaftFaults
begin

text \<open>
  raft/config.go, the part of the tester that judges the peers: \<open>apply\<close> (\<open>applyMsg\<close>) and
  \<open>checkConsistency\<close>, which every message of an \<open>applyCh\<close> goes through, \<open>nCommitted\<close>,
  \<open>checkOneLeader\<close>, \<open>checkTerms\<close>, \<open>checkNoLeader\<close>, \<open>wait\<close> and \<open>one\<close>. While the tester sleeps
  the cluster runs, so a loop that polls takes what it finds at each poll as an argument.
\<close>

section \<open>Applied messages\<close>

definition checkConsistency ::
  "nat \<Rightarrow> int \<Rightarrow> 'c logEntry \<Rightarrow> ('c, 'a, 'r) config \<Rightarrow> unit go" where
  "checkConsistency server index entry cfg =
     go_for (\<lambda>j u.
         case (logs cfg ! j) index of
           None \<Rightarrow> Inr ()
         | Some e \<Rightarrow> if e \<noteq> entry then Inl (Fatal ''already committed'') else Inr ())
       [0..<length (logs cfg)] ()"

definition applyMsg ::
  "nat \<Rightarrow> 'c ApplyMsg \<Rightarrow> ('c, 'a, 'r) config \<Rightarrow> ('c, 'a, 'r) config go" where
  "applyMsg server m cfg0 =
     (if server < length (didRecv cfg0) then
        let cfg1 =
          (if didRecv cfg0 ! server = False
           then let c = cfg0\<lparr>didRecv := (didRecv cfg0)[server := True]\<rparr> in
             if CommandIndex m = 1
             then if expected c ! server \<noteq> 0 then c else c\<lparr>expected := (expected c)[server := 1]\<rparr>
             else c
           else cfg0) in
        if CommandIndex m \<noteq> expected cfg1 ! server then Inl (Fatal ''applied index'')
        else
          let cfg2 = cfg1\<lparr>expected := (expected cfg1)[server := expected cfg1 ! server + 1]\<rparr>;
              entry = \<lparr>valid = CommandValid m, command = MsgCommand m\<rparr>
          in case checkConsistency server (CommandIndex m) entry cfg2 of
               Inl e \<Rightarrow> Inl e
             | Inr _ \<Rightarrow>
                (let cfg3 = cfg2\<lparr>logs := (logs cfg2)[server :=
                              (logs cfg2 ! server)(CommandIndex m \<mapsto> entry)]\<rparr>;
                     cfg4 = (if CommandIndex m > maxIndex cfg3
                             then cfg3\<lparr>maxIndex := CommandIndex m\<rparr> else cfg3)
                 in Inr (if CommandValid m
                         then cfg4\<lparr>numCommands := (numCommands cfg4)
                                    [server := numCommands cfg4 ! server + 1]\<rparr>
                         else cfg4))
      else Inl IndexOutOfRange)"

text \<open>\<open>applier\<close>: once it has seen its stop channel closed, it only empties \<open>applyCh\<close>.\<close>

fun applier ::
  "bool \<Rightarrow> nat \<Rightarrow> 'c ApplyMsg \<Rightarrow> ('c, 'a, 'r) config \<Rightarrow> ('c, 'a, 'r) config go" where
  "applier listening server m cfg = (if listening then applyMsg server m cfg else Inr cfg)"

definition applyAll ::
  "(nat \<times> 'c ApplyMsg) list \<Rightarrow> ('c, 'a, 'r) config \<Rightarrow> ('c, 'a, 'r) config go" where
  "applyAll es cfg = go_for (\<lambda>(server, m). applyMsg server m) es cfg"

definition entryOf :: "'c ApplyMsg \<Rightarrow> 'c logEntry" where
  "entryOf m = \<lparr>valid = CommandValid m, command = MsgCommand m\<rparr>"

definition messagesOf :: "nat \<Rightarrow> (nat \<times> 'c ApplyMsg) list \<Rightarrow> 'c ApplyMsg list" where
  "messagesOf i es = map snd (filter (\<lambda>(j, m). j = i) es)"

text \<open>What the tester demands: consecutive indices from 1 (or 0), and one entry per index.\<close>

definition consecutive :: "int list \<Rightarrow> bool" where
  "consecutive ks \<longleftrightarrow> (\<exists>b \<in> {0, 1}. ks = [b..b + slen ks - 1])"

definition agreeing :: "(nat \<times> 'c ApplyMsg) list \<Rightarrow> bool" where
  "agreeing es \<longleftrightarrow> (\<forall>(i, m) \<in> set es. \<forall>(j, m') \<in> set es.
     CommandIndex m = CommandIndex m' \<longrightarrow> entryOf m = entryOf m')"

text \<open>A configuration whose peers have just been started.\<close>

definition justStarted :: "('c, 'a, 'r) config \<Rightarrow> bool" where
  "justStarted cfg \<longleftrightarrow>
     didRecv cfg = replicate (cn cfg) False \<and> expected cfg = replicate (cn cfg) 0 \<and>
     logs cfg = replicate (cn cfg) (\<lambda>i. None) \<and> length (numCommands cfg) = cn cfg"

definition applied_ok :: "(nat \<times> 'c ApplyMsg) list \<Rightarrow> nat \<Rightarrow> ('c, 'a, 'r) config \<Rightarrow> bool" where
  "applied_ok es n cfg \<longleftrightarrow>
     length (didRecv cfg) = n \<and> length (expected cfg) = n \<and> length (logs cfg) = n \<and>
     length (numCommands cfg) = n \<and>
     (\<forall>i < n. let ks = map CommandIndex (messagesOf i es) in
        didRecv cfg ! i = (ks \<noteq> []) \<and>
        expected cfg ! i = (if ks = [] then 0 else last ks + 1) \<and>
        (\<forall>k. (logs cfg ! i) k = map_of (map (\<lambda>m. (CommandIndex m, entryOf m)) (rev (messagesOf i es))) k))"

lemma checkConsistency_iff:
  "checkConsistency i k e cfg = Inr () \<longleftrightarrow>
     (\<forall>j < length (logs cfg). \<forall>e'. (logs cfg ! j) k = Some e' \<longrightarrow> e' = e)"
proof -
  have "go_for (\<lambda>j u. case (logs cfg ! j) k of None \<Rightarrow> Inr ()
      | Some e' \<Rightarrow> if e' \<noteq> e then Inl (Fatal ''already committed'') else Inr ()) js () = Inr () \<longleftrightarrow>
    (\<forall>j \<in> set js. \<forall>e'. (logs cfg ! j) k = Some e' \<longrightarrow> e' = e)" for js
    by (induction js) (auto split: option.splits sum.splits)
  from this [of "[0..<length (logs cfg)]"] show ?thesis
    by (auto simp: checkConsistency_def simp del: go_for.simps)
qed

lemma messagesOf_snoc:
  "messagesOf i (es @ [(j, m)]) = messagesOf i es @ (if j = i then [m] else [])"
  by (simp add: messagesOf_def)

lemma consecutive_snoc:
  "consecutive (ks @ [k]) \<longleftrightarrow> consecutive ks \<and> (if ks = [] then k = 0 \<or> k = 1 else k = last ks + 1)"
proof (cases "ks = []")
  case True
  then show ?thesis by (auto simp: consecutive_def)
next
  case False
  then have s: "slen ks > 0" by simp
  have up: "[b..b + slen ks] = [b..b + slen ks - 1] @ [b + slen ks]" for b
    using upto_rec2 [of b "b + slen ks"] s by simp
  have "ks @ [k] = [b..b + slen (ks @ [k]) - 1] \<longleftrightarrow> ks = [b..b + slen ks - 1] \<and> k = b + slen ks" for b
    using up [of b] by simp
  moreover have "last ks + 1 = b + slen ks" if "ks = [b..b + slen ks - 1]" for b
  proof -
    have "last [b..b + slen ks - 1] = b + slen ks - 1"
      using upto_rec2 [of b "b + slen ks - 1"] s by simp
    with that show ?thesis by simp
  qed
  ultimately show ?thesis unfolding consecutive_def using False by (metis False)
qed

lemma agreeing_snoc:
  "agreeing (es @ [(i, m)]) \<longleftrightarrow> agreeing es \<and>
     (\<forall>(j, m') \<in> set es. CommandIndex m' = CommandIndex m \<longrightarrow> entryOf m' = entryOf m)"
  by (auto simp: agreeing_def)

text \<open>The tester's logs hold what has been applied.\<close>

lemma logged:
  assumes ok: "applied_ok es n cfg" and ag: "agreeing es" and j: "j < n"
  shows "(logs cfg ! j) k = Some e \<longleftrightarrow> (\<exists>m. (j, m) \<in> set es \<and> CommandIndex m = k \<and> entryOf m = e)"
proof -
  let ?ms = "map (\<lambda>m. (CommandIndex m, entryOf m)) (rev (messagesOf j es))"
  have l: "(logs cfg ! j) k = map_of ?ms k" using ok j by (simp add: applied_ok_def Let_def)
  have set: "m \<in> set (messagesOf j es) \<longleftrightarrow> (j, m) \<in> set es" for m
    by (force simp: messagesOf_def)
  show ?thesis
  proof
    assume "(logs cfg ! j) k = Some e"
    then have "(k, e) \<in> set ?ms" unfolding l by (rule map_of_SomeD)
    then show "\<exists>m. (j, m) \<in> set es \<and> CommandIndex m = k \<and> entryOf m = e" using set by auto
  next
    assume "\<exists>m. (j, m) \<in> set es \<and> CommandIndex m = k \<and> entryOf m = e"
    then obtain m where m: "(j, m) \<in> set es" "CommandIndex m = k" "entryOf m = e" by blast
    then have "k \<in> fst ` set ?ms" using set by force
    then obtain e' where e': "map_of ?ms k = Some e'" by (metis map_of_eq_None_iff not_None_eq)
    then have "(k, e') \<in> set ?ms" by (rule map_of_SomeD)
    then obtain m' where "(j, m') \<in> set es" "CommandIndex m' = k" "entryOf m' = e'" using set by auto
    with m ag have "e' = e" by (fastforce simp: agreeing_def)
    with e' l show "(logs cfg ! j) k = Some e" by simp
  qed
qed

definition acceptable :: "(nat \<times> 'c ApplyMsg) list \<Rightarrow> nat \<Rightarrow> 'c ApplyMsg \<Rightarrow> bool" where
  "acceptable es i m \<longleftrightarrow>
     (let ks = map CommandIndex (messagesOf i es); k = CommandIndex m in
        (if ks = [] then k = 0 \<or> k = 1 else k = last ks + 1) \<and>
        (\<forall>(j, m') \<in> set es. CommandIndex m' = k \<longrightarrow> entryOf m' = entryOf m))"

lemma apply_step:
  assumes ok: "applied_ok es n cfg" and ag: "agreeing es" and servers: "\<forall>(j, m) \<in> set es. j < n"
    and i: "i < n"
  shows "(\<exists>t. applyMsg i m cfg = Inr t) \<longleftrightarrow> acceptable es i m"
    and "applyMsg i m cfg = Inr t \<Longrightarrow> applied_ok (es @ [(i, m)]) n t"
proof -
  let ?ks = "map CommandIndex (messagesOf i es)" and ?k = "CommandIndex m"
  let ?c = "cfg\<lparr>didRecv := (didRecv cfg)[i := True]\<rparr>"
  have len: "length (didRecv cfg) = n" "length (expected cfg) = n" "length (logs cfg) = n"
    "length (numCommands cfg) = n" using ok by (auto simp: applied_ok_def)
  have st: "didRecv cfg ! i = (?ks \<noteq> [])" "expected cfg ! i = (if ?ks = [] then 0 else last ?ks + 1)"
    using ok i by (auto simp: applied_ok_def Let_def)
  define cfg1 where "cfg1 =
    (if didRecv cfg ! i = False
     then if ?k = 1 then if expected ?c ! i \<noteq> 0 then ?c else ?c\<lparr>expected := (expected ?c)[i := 1]\<rparr> else ?c
     else cfg)"
  have c1: "expected cfg1 ! i = (if ?ks = [] then if ?k = 1 then 1 else 0 else last ?ks + 1)"
    "didRecv cfg1 = (didRecv cfg)[i := True]" "logs cfg1 = logs cfg" "numCommands cfg1 = numCommands cfg"
    "(expected cfg1)[i := x] = (expected cfg)[i := x]" for x
    using st len i list_update_id [of "didRecv cfg" i] by (auto simp: cfg1_def)
  define cfg2 where "cfg2 = cfg1\<lparr>expected := (expected cfg1)[i := expected cfg1 ! i + 1]\<rparr>"
  have a: "applyMsg i m cfg =
    (if ?k \<noteq> expected cfg1 ! i then Inl (Fatal ''applied index'')
     else case checkConsistency i ?k (entryOf m) cfg2 of
       Inl e \<Rightarrow> Inl e
     | Inr _ \<Rightarrow>
        (let cfg3 = cfg2\<lparr>logs := (logs cfg2)[i := (logs cfg2 ! i)(?k \<mapsto> entryOf m)]\<rparr>;
             cfg4 = (if ?k > maxIndex cfg3 then cfg3\<lparr>maxIndex := ?k\<rparr> else cfg3)
         in Inr (if CommandValid m
                 then cfg4\<lparr>numCommands := (numCommands cfg4)[i := numCommands cfg4 ! i + 1]\<rparr>
                 else cfg4)))"
    unfolding applyMsg_def Let_def cfg2_def cfg1_def entryOf_def by (simp only: len i if_True)
  have cons: "checkConsistency i ?k (entryOf m) cfg2 = Inr () \<longleftrightarrow>
      (\<forall>(j, m') \<in> set es. CommandIndex m' = ?k \<longrightarrow> entryOf m' = entryOf m)"
    unfolding checkConsistency_iff
    using logged [OF ok ag] len servers by (fastforce simp: cfg2_def c1)
  have k: "?k = expected cfg1 ! i \<longleftrightarrow> (if ?ks = [] then ?k = 0 \<or> ?k = 1 else ?k = last ?ks + 1)"
    using c1(1) by auto
  show "(\<exists>t. applyMsg i m cfg = Inr t) \<longleftrightarrow> acceptable es i m"
    unfolding a acceptable_def Let_def cons [symmetric] k [symmetric]
    by (auto split: sum.splits)
  assume t: "applyMsg i m cfg = Inr t"
  with a have kk: "?k = expected cfg1 ! i" by (auto split: if_splits)
  from t a kk have t': "didRecv t = didRecv cfg1" "logs t = (logs cfg)[i := (logs cfg ! i)(?k \<mapsto> entryOf m)]"
    "expected t = (expected cfg)[i := ?k + 1]" "length (numCommands t) = n"
    using c1(5) len by (auto simp: Let_def cfg2_def c1(3,4) split: sum.splits if_splits)
  show "applied_ok (es @ [(i, m)]) n t"
    using ok i len unfolding applied_ok_def Let_def messagesOf_snoc
    by (auto simp: t' c1(2) nth_list_update fun_eq_iff)
qed

definition passes :: "(nat \<times> 'c ApplyMsg) list \<Rightarrow> nat \<Rightarrow> bool" where
  "passes es n \<longleftrightarrow> (\<forall>(j, m) \<in> set es. j < n) \<and>
     (\<forall>i < n. consecutive (map CommandIndex (messagesOf i es))) \<and> agreeing es"

lemma passes_snoc:
  "passes (es @ [(i, m)]) n \<longleftrightarrow> passes es n \<and> i < n \<and> acceptable es i m"
proof -
  define P where "P \<longleftrightarrow> (let ks = map CommandIndex (messagesOf i es); k = CommandIndex m in
    if ks = [] then k = 0 \<or> k = 1 else k = last ks + 1)"
  define Q where "Q \<longleftrightarrow> (\<forall>(j, m') \<in> set es. CommandIndex m' = CommandIndex m \<longrightarrow> entryOf m' = entryOf m)"
  have a: "consecutive (map CommandIndex (messagesOf j (es @ [(i, m)]))) \<longleftrightarrow>
      consecutive (map CommandIndex (messagesOf j es)) \<and> (j = i \<longrightarrow> P)" for j
    by (cases "j = i") (simp_all add: messagesOf_snoc consecutive_snoc P_def Let_def)
  have "acceptable es i m \<longleftrightarrow> P \<and> Q" by (simp add: acceptable_def P_def Q_def Let_def)
  then show ?thesis unfolding passes_def a agreeing_snoc Q_def [symmetric] by auto
qed

lemma applyAll_passes:
  assumes "justStarted cfg"
  shows "(\<exists>t. applyAll es cfg = Inr t) \<longleftrightarrow> passes es (cn cfg)"
    and "applyAll es cfg = Inr t \<Longrightarrow> applied_ok es (cn cfg) t"
proof -
  have "((\<exists>t. applyAll es cfg = Inr t) \<longleftrightarrow> passes es (cn cfg)) \<and>
      (\<forall>t. applyAll es cfg = Inr t \<longrightarrow> applied_ok es (cn cfg) t)"
  proof (induction es rule: rev_induct)
    case Nil
    have "consecutive []" by (auto simp: consecutive_def intro: exI [of _ 0])
    with assms show ?case
      by (auto simp: applyAll_def passes_def applied_ok_def messagesOf_def agreeing_def justStarted_def)
  next
    case (snoc x es)
    obtain i m where x: "x = (i, m)" by fastforce
    have step: "applyAll (es @ [x]) cfg =
      (case applyAll es cfg of Inl e \<Rightarrow> Inl e | Inr t \<Rightarrow> applyMsg i m t)"
      by (simp add: applyAll_def go_for_append x split: sum.splits)
    show ?case
    proof (cases "applyAll es cfg")
      case (Inl e)
      with snoc step show ?thesis by (auto simp: x passes_snoc)
    next
      case (Inr t)
      with snoc have ok: "applied_ok es (cn cfg) t" and acc: "passes es (cn cfg)" by auto
      then have ag: "agreeing es" "\<forall>(j, m) \<in> set es. j < cn cfg" by (auto simp: passes_def)
      show ?thesis
      proof (cases "i < cn cfg")
        case True
        from apply_step [OF ok ag True, of m] Inr step acc True show ?thesis
          by (auto simp: x passes_snoc)
      next
        case False
        with ok have "applyMsg i m t = Inl IndexOutOfRange"
          by (simp add: applyMsg_def applied_ok_def)
        with Inr step False show ?thesis by (auto simp: x passes_snoc)
      qed
    qed
  qed
  then show "(\<exists>t. applyAll es cfg = Inr t) \<longleftrightarrow> passes es (cn cfg)"
    and "applyAll es cfg = Inr t \<Longrightarrow> applied_ok es (cn cfg) t" by auto
qed

text \<open>C31. The tester's verdict is exact: messages of freshly started peers pass, in whatever order
  they arrive, if and only if they come from peers of the cluster, each peer counts its indices
  up from 1 (or 0), and no two messages with one index carry different entries.\<close>

theorem tester_verdict_exact:
  assumes "justStarted cfg"
  shows "(\<exists>t. applyAll es cfg = Inr t) \<longleftrightarrow>
    (\<forall>(i, m) \<in> set es. i < cn cfg) \<and>
    (\<forall>i < cn cfg. \<exists>b \<in> {0, 1}. map CommandIndex (messagesOf i es)
       = [b..b + slen (messagesOf i es) - 1]) \<and>
    (\<forall>(i, m) \<in> set es. \<forall>(j, m') \<in> set es.
       CommandIndex m = CommandIndex m' \<longrightarrow> entryOf m = entryOf m')"
  using applyAll_passes(1) [OF assms, of es]
  by (simp add: passes_def consecutive_def agreeing_def slen_def)

lemma take_from_1: "take k [1..n] = [1..min (int k) n]"
proof (induction k)
  case (Suc k)
  show ?case
  proof (cases "int k < n")
    case True
    then have "k < length [1..n]" by simp
    with True have "take (Suc k) [1..n] = take k [1..n] @ [int k + 1]"
      by (simp add: take_Suc_conv_app_nth)
    with Suc True show ?thesis using upto_rec2 [of 1 "int k + 1"] by (simp add: min_def add.commute)
  next
    case False
    with Suc show ?thesis by (simp add: min_def)
  qed
qed simp


lemma emptyConfig_started: "justStarted (emptyConfig n rn)"
  by (simp add: justStarted_def emptyConfig_def)

definition firstMsg :: "nat ApplyMsg" where
  "firstMsg = \<lparr>CommandValid = True, MsgCommand = Some 7, CommandIndex = 1\<rparr>"

theorem tester_verdict_exact_witness:
  "(\<exists>t :: (nat, nat, nat) config. applyAll [(0, firstMsg), (1, firstMsg)]
      (emptyConfig 2 (newNetwork False (\<lambda>p. MakeServer))) = Inr t) \<and>
   \<not> (\<exists>t :: (nat, nat, nat) config. applyAll [(0, firstMsg), (1, firstMsg\<lparr>MsgCommand := Some 8\<rparr>)]
      (emptyConfig 2 (newNetwork False (\<lambda>p. MakeServer))) = Inr t)"
proof
  let ?cfg = "emptyConfig 2 (newNetwork False (\<lambda>p. MakeServer)) :: (nat, nat, nat) config"
  have n: "cn ?cfg = 2" by (simp add: emptyConfig_def)
  show "\<exists>t. applyAll [(0, firstMsg), (1, firstMsg)] ?cfg = Inr t"
    unfolding tester_verdict_exact [OF emptyConfig_started]
    by (auto simp: n messagesOf_def firstMsg_def slen_def less_2_cases_iff intro!: bexI [of _ 1])
  show "\<not> (\<exists>t. applyAll [(0, firstMsg), (1, firstMsg\<lparr>MsgCommand := Some 8\<rparr>)] ?cfg = Inr t)"
    unfolding tester_verdict_exact [OF emptyConfig_started]
    by (auto simp: firstMsg_def entryOf_def)
qed


section \<open>Snapshots and statistics\<close>

text \<open>\<open>checkCommitted\<close> returns at the first server that has an entry at the index.\<close>

fun committedLoop ::
  "int \<Rightarrow> 'c option \<Rightarrow> (int \<Rightarrow> 'c logEntry option) list \<Rightarrow> unit go" where
  "committedLoop index cmd [] = Inl (Fatal ''no log entry has been found'')"
| "committedLoop index cmd (l # ls) =
     (case l index of
        None \<Rightarrow> committedLoop index cmd ls
      | Some e \<Rightarrow>
          if \<not> valid e then Inl (Fatal ''stores a dummy entry'')
          else if command e \<noteq> cmd then Inl (Fatal ''stores command'')
          else Inr ())"

definition checkCommitted ::
  "int \<Rightarrow> 'c option \<Rightarrow> ('c, 'a, 'r) config \<Rightarrow> unit go" where
  "checkCommitted index cmd cfg = committedLoop index cmd (logs cfg)"

definition testerRpcCount :: "nat \<Rightarrow> ('c, 'a, 'r) config \<Rightarrow> int go" where
  "testerRpcCount server cfg = NetGetCount (IntName (int server)) (cnet cfg)"

definition rpcTotal :: "('c, 'a, 'r) config \<Rightarrow> int" where
  "rpcTotal cfg = GetTotalCount (cnet cfg)"

definition bytesTotal :: "('c, 'a, 'r) config \<Rightarrow> int" where
  "bytesTotal cfg = GetTotalBytes (cnet cfg)"

text \<open>
  \<open>begin\<close> and \<open>end\<close> of a test. The report of \<open>end\<close> is what it prints, apart from the time: the
  number of peers, of RPCs, of bytes (an \<open>int64\<close>) and of agreements since \<open>begin\<close>.
\<close>

definition beginTest :: "('c, 'a, 'r) config \<Rightarrow> ('c, 'a, 'r) config" where
  "beginTest cfg =
     cfg\<lparr>rpcsAt0 := rpcTotal cfg, bytesAt0 := bytesTotal cfg, maxIndexAt0 := maxIndex cfg\<rparr>"

definition endTest ::
  "bool \<Rightarrow> int \<Rightarrow> ('c, 'a, 'r) config \<Rightarrow> (nat \<times> int \<times> int \<times> int) option go" where
  "endTest hasFailed elapsed cfg =
     (case checkTimeout hasFailed elapsed of
        Inl e \<Rightarrow> Inl e
      | Inr _ \<Rightarrow>
          if hasFailed = False
          then let nrpc = rpcTotal cfg - rpcsAt0 cfg;
                   nbytes = signed_take_bit 63 (bytesTotal cfg - bytesAt0 cfg);
                   ncmds = maxIndex cfg - maxIndexAt0 cfg
               in Inr (Some (cn cfg, nrpc, nbytes, ncmds))
          else Inr None)"

section \<open>Polling the peers\<close>

text \<open>
  \<open>checkOneLeader\<close> sleeps and then asks every connected peer: \<open>polls iters i\<close> is the heap it
  finds when it asks peer \<open>i\<close>. A nil peer panics. \<open>leaders\<close> maps a term to the leaders it has;
  Go visits a map in any order, which does not change the result.
\<close>

definition getState :: "nat \<Rightarrow> (nat \<Rightarrow> 'c Raft) \<Rightarrow> ('c, 'a, 'r) config \<Rightarrow> (int \<times> bool) go" where
  "getState i h cfg =
     (case rafts cfg ! i of None \<Rightarrow> Inl NilDereference | Some p \<Rightarrow> Inr (GetState (h p)))"

fun addLeader :: "int \<Rightarrow> nat \<Rightarrow> (int \<times> nat list) list \<Rightarrow> (int \<times> nat list) list" where
  "addLeader t i [] = [(t, [i])]"
| "addLeader t i ((t', ls) # rest) =
     (if t' = t then (t', ls @ [i]) # rest else (t', ls) # addLeader t i rest)"

definition pollLeaders ::
  "(nat \<Rightarrow> nat \<Rightarrow> 'c Raft) \<Rightarrow> ('c, 'a, 'r) config \<Rightarrow> (int \<times> nat list) list go" where
  "pollLeaders h cfg =
     go_for (\<lambda>i leaders.
         if connected cfg ! i then
           (case getState i (h i) cfg of
              Inl e \<Rightarrow> Inl e
            | Inr (t, leader) \<Rightarrow> Inr (if leader then addLeader t i leaders else leaders))
         else Inr leaders)
       [0..<cn cfg] []"

definition lastTermWithLeader :: "(int \<times> nat list) list \<Rightarrow> int go" where
  "lastTermWithLeader leaders =
     go_for (\<lambda>(t, ls) lastTerm.
         if slen ls > 1 then Inl (Fatal ''>1 leaders'')
         else Inr (if t > lastTerm then t else lastTerm))
       leaders (-1)"

fun leaderLoop ::
  "nat \<Rightarrow> (nat \<Rightarrow> nat \<Rightarrow> nat \<Rightarrow> 'c Raft) \<Rightarrow> ('c, 'a, 'r) config \<Rightarrow> nat \<Rightarrow> nat go" where
  "leaderLoop 0 polls cfg iters = Inl (Fatal ''expected one leader, got none'')"
| "leaderLoop (Suc n) polls cfg iters =
     (case pollLeaders (polls iters) cfg of
        Inl e \<Rightarrow> Inl e
      | Inr leaders \<Rightarrow>
         (case lastTermWithLeader leaders of
            Inl e \<Rightarrow> Inl e
          | Inr t \<Rightarrow>
              if slen leaders \<noteq> 0 then
                (case map_of leaders t of
                   None \<Rightarrow> Inl IndexOutOfRange
                 | Some ls \<Rightarrow> go_index ls 0)
              else leaderLoop n polls cfg (iters + 1)))"

definition checkOneLeader ::
  "(nat \<Rightarrow> nat \<Rightarrow> nat \<Rightarrow> 'c Raft) \<Rightarrow> ('c, 'a, 'r) config \<Rightarrow> nat go" where
  "checkOneLeader polls cfg = leaderLoop 10 polls cfg 0"

definition checkTerms :: "(nat \<Rightarrow> nat \<Rightarrow> 'c Raft) \<Rightarrow> ('c, 'a, 'r) config \<Rightarrow> int go" where
  "checkTerms h cfg =
     go_for (\<lambda>i t.
         if connected cfg ! i then
           (case getState i (h i) cfg of
              Inl e \<Rightarrow> Inl e
            | Inr (xterm, _) \<Rightarrow>
                if t = -1 then Inr xterm
                else if t \<noteq> xterm then Inl (Fatal ''servers disagree on term'') else Inr t)
         else Inr t)
       [0..<cn cfg] (-1)"

definition checkNoLeader :: "(nat \<Rightarrow> nat \<Rightarrow> 'c Raft) \<Rightarrow> ('c, 'a, 'r) config \<Rightarrow> unit go" where
  "checkNoLeader h cfg =
     go_for (\<lambda>i u.
         if connected cfg ! i then
           (case getState i (h i) cfg of
              Inl e \<Rightarrow> Inl e
            | Inr (_, is_leader) \<Rightarrow> if is_leader then Inl (Fatal ''expected no leader'') else Inr ())
         else Inr ())
       [0..<cn cfg] ()"

text \<open>
  How many servers think a log entry is committed, and the entry: the last one seen. The mutex
  is taken for each server anew: \<open>look i\<close> is the configuration when server \<open>i\<close> is looked at.
\<close>

definition noEntry :: "'c logEntry" where
  "noEntry = \<lparr>valid = False, command = None\<rparr>"

definition nCommitted :: "int \<Rightarrow> nat \<Rightarrow> (nat \<Rightarrow> ('c, 'a, 'r) config) \<Rightarrow> int \<times> 'c logEntry" where
  "nCommitted index nrafts look =
     fold (\<lambda>i (count, entry).
         case (logs (look i) ! i) index of
           None \<Rightarrow> (count, entry)
         | Some e \<Rightarrow> if expected (look i) ! i > index then (count + 1, e) else (count, entry))
       [0..<nrafts] (0, noEntry)"

text \<open>
  \<open>wait\<close> polls at most 30 times and then looks once more; \<open>polls\<close> are the configurations it
  finds. It gives up when a peer has moved to a later term.
\<close>

definition movedOn :: "int \<Rightarrow> nat \<Rightarrow> (nat \<Rightarrow> ('c, 'a, 'r) config) \<Rightarrow> bool go" where
  "movedOn startTerm nrafts look =
     go_for (\<lambda>i gone. if gone then Inr True else
         (case rafts (look i) ! i of None \<Rightarrow> Inl NilDereference
          | Some p \<Rightarrow> (let (t, _) = GetState (heap (look i) p) in Inr (t > startTerm))))
       [0..<nrafts] False"

fun waitLoop :: "nat \<Rightarrow> (nat \<Rightarrow> nat \<Rightarrow> ('c, 'a, 'r) config) \<Rightarrow> int \<Rightarrow> nat \<Rightarrow> int \<Rightarrow> int \<Rightarrow> nat
  \<Rightarrow> (bool \<times> 'c logEntry) go" where
  "waitLoop 0 polls index nrafts n startTerm k =
     (let (nd, e) = nCommitted index nrafts (polls k) in
      if nd < n then Inl (Fatal ''only some decided'') else Inr (True, e))"
| "waitLoop (Suc m) polls index nrafts n startTerm k =
     (let (nd, _) = nCommitted index nrafts (polls k) in
      if nd \<ge> n then waitLoop 0 polls index nrafts n startTerm (k + 1)
      else if startTerm > -1 then
        (case movedOn startTerm nrafts (polls (k + 1)) of
           Inl e \<Rightarrow> Inl e
         | Inr True \<Rightarrow> Inr (False, noEntry)
         | Inr False \<Rightarrow> waitLoop m polls index nrafts n startTerm (k + 2))
      else waitLoop m polls index nrafts n startTerm (k + 1))"

definition waitCommitted ::
  "(nat \<Rightarrow> nat \<Rightarrow> ('c, 'a, 'r) config) \<Rightarrow> int \<Rightarrow> int \<Rightarrow> int \<Rightarrow> (bool \<times> 'c logEntry) go" where
  "waitCommitted polls index n startTerm =
     waitLoop 30 polls index (length (rafts (polls 0 0))) n startTerm 0"

text \<open>
  \<open>one\<close>: try the servers in turn from the one after the last leader, then poll for agreement.
  A round has what the cluster does before each try (\<open>env\<close>) and the configurations found in
  the polls of its two seconds; the ten seconds are over when there is no further round.
\<close>

fun tryServers ::
  "nat \<Rightarrow> (nat \<Rightarrow> ('c, 'a, 'r) config \<Rightarrow> ('c, 'a, 'r) config) \<Rightarrow> 'c option \<Rightarrow> nat
   \<Rightarrow> ('c, 'a, 'r) config \<Rightarrow> (nat \<times> ('c, 'a, 'r) config \<times> int) go" where
  "tryServers 0 env cmd starts0 cfg = Inr (starts0, cfg, -1)"
| "tryServers (Suc m) env cmd starts0 cfg0 =
     (let cfg = env m cfg0;
          starts = (starts0 + 1) mod cn cfg
      in case (if connected cfg ! starts then rafts cfg ! starts else None) of
           None \<Rightarrow> tryServers m env cmd starts cfg
         | Some p \<Rightarrow>
            (case Start (heap cfg p) cmd of
               Inl e \<Rightarrow> Inl e
             | Inr (rf, index1, _, accepts) \<Rightarrow>
                (let cfg1 = cfg\<lparr>heap := (heap cfg)(p := rf)\<rparr> in
                 if accepts then Inr (starts, cfg1, index1)
                 else tryServers m env cmd starts cfg1)))"

fun agreement ::
  "int \<Rightarrow> int \<Rightarrow> 'c option \<Rightarrow> nat \<Rightarrow> (nat \<Rightarrow> ('c, 'a, 'r) config) list \<Rightarrow> bool" where
  "agreement index expectedServers cmd nrafts [] = False"
| "agreement index expectedServers cmd nrafts (look # looks) =
     (let (nd, e) = nCommitted index nrafts look in
      if nd > 0 \<and> nd \<ge> expectedServers \<and> e = \<lparr>valid = True, command = cmd\<rparr> then True
      else agreement index expectedServers cmd nrafts looks)"

type_synonym ('c, 'a, 'r) round =
  "(nat \<Rightarrow> ('c, 'a, 'r) config \<Rightarrow> ('c, 'a, 'r) config) \<times> (nat \<Rightarrow> ('c, 'a, 'r) config) list"

fun oneLoop ::
  "('c, 'a, 'r) round list \<Rightarrow> 'c option \<Rightarrow> int \<Rightarrow> bool \<Rightarrow> nat \<Rightarrow> ('c, 'a, 'r) config \<Rightarrow> int go" where
  "oneLoop [] cmd expectedServers retry starts cfg = Inl (Fatal ''failed to reach agreement'')"
| "oneLoop ((env, looks) # rounds) cmd expectedServers retry starts cfg =
     (case tryServers (cn cfg) env cmd starts cfg of
        Inl e \<Rightarrow> Inl e
      | Inr (starts', cfg', index) \<Rightarrow>
          if index \<noteq> -1 then
            if agreement index expectedServers cmd (length (rafts cfg)) looks then Inr index
            else if retry = False then Inl (Fatal ''failed to reach agreement'')
            else oneLoop rounds cmd expectedServers retry starts' cfg'
          else oneLoop rounds cmd expectedServers retry starts' cfg')"

definition one ::
  "('c, 'a, 'r) round list \<Rightarrow> 'c option \<Rightarrow> int \<Rightarrow> bool \<Rightarrow> ('c, 'a, 'r) config \<Rightarrow> int go" where
  "one rounds cmd expectedServers retry cfg = oneLoop rounds cmd expectedServers retry 0 cfg"

section \<open>What the checks mean\<close>

text \<open>Whom a poll sees as leader.\<close>

definition seenLeader :: "(nat \<Rightarrow> nat \<Rightarrow> 'c Raft) \<Rightarrow> ('c, 'a, 'r) config \<Rightarrow> nat \<Rightarrow> int \<Rightarrow> bool" where
  "seenLeader h cfg i t \<longleftrightarrow> i < cn cfg \<and> connected cfg ! i \<and>
     (\<exists>p. rafts cfg ! i = Some p \<and> GetState (h i p) = (t, True))"

definition leadersOf :: "int \<Rightarrow> (int \<times> nat list) list \<Rightarrow> nat list" where
  "leadersOf t ls = (case map_of ls t of None \<Rightarrow> [] | Some xs \<Rightarrow> xs)"

lemma leadersOf_add:
  "leadersOf t' (addLeader t i ls) = (if t' = t then leadersOf t ls @ [i] else leadersOf t' ls)"
  by (induction t i ls rule: addLeader.induct) (auto simp: leadersOf_def split: option.splits)

lemma addLeader_set: "fst ` set (addLeader t i ls) = insert t (fst ` set ls)"
  by (induction t i ls rule: addLeader.induct) auto

lemma addLeader_distinct: "distinct (map fst ls) \<Longrightarrow> distinct (map fst (addLeader t i ls))"
  by (induction t i ls rule: addLeader.induct) (auto simp: addLeader_set)

lemmas addLeader_keys = addLeader_set addLeader_distinct


lemma pollLeaders_seen:
  assumes "pollLeaders h cfg = Inr ls"
  shows "distinct (map fst ls) \<and> (\<forall>t. leadersOf t ls = filter (\<lambda>i. seenLeader h cfg i t) [0..<cn cfg]) \<and>
    (\<forall>t. t \<in> fst ` set ls \<longleftrightarrow> leadersOf t ls \<noteq> [])"
proof -
  let ?body = "\<lambda>i leaders. if connected cfg ! i then
           (case getState i (h i) cfg of
              Inl e \<Rightarrow> Inl e
            | Inr (t, leader) \<Rightarrow> Inr (if leader then addLeader t i leaders else leaders))
         else Inr leaders"
  have "distinct (map fst ls) \<and> (\<forall>t. leadersOf t ls = filter (\<lambda>i. seenLeader h cfg i t) [0..<k]) \<and>
    (\<forall>t. t \<in> fst ` set ls \<longleftrightarrow> leadersOf t ls \<noteq> [])"
    if "go_for ?body [0..<k] [] = Inr ls" "k \<le> cn cfg" for k ls
    using that
  proof (induction k arbitrary: ls)
    case 0
    then show ?case by (simp add: leadersOf_def)
  next
    case (Suc k)
    from Suc.prems obtain l where l: "go_for ?body [0..<k] [] = Inr l" "?body k l = Inr ls"
      by (auto simp: go_for_append split: sum.splits)
    note IH = Suc.IH [OF l(1)]
    show ?case
    proof (cases "connected cfg ! k")
      case False
      with l(2) IH Suc.prems(2) show ?thesis by (auto simp: seenLeader_def)
    next
      case True
      with l(2) obtain p t b where p: "rafts cfg ! k = Some p" "GetState (h k p) = (t, b)"
        "ls = (if b then addLeader t k l else l)"
        by (auto simp: getState_def split: option.splits sum.splits prod.splits)
      have seen: "seenLeader h cfg k t' \<longleftrightarrow> b \<and> t' = t" for t'
        using True p Suc.prems(2) by (auto simp: seenLeader_def)
      from IH Suc.prems(2) show ?thesis
        by (auto simp: p(3) seen leadersOf_add addLeader_keys)
    qed
  qed
  from this [of "cn cfg" ls] assms show ?thesis by (simp add: pollLeaders_def)
qed

lemma lastTerm_max:
  assumes "lastTermWithLeader ls = Inr t"
  shows "(\<forall>(t', xs) \<in> set ls. t' \<le> t \<and> length xs \<le> 1)"
proof -
  let ?body = "\<lambda>(t, ls) lastTerm. if slen ls > 1 then Inl (Fatal ''>1 leaders'')
         else Inr (if t > lastTerm then t else lastTerm)"
  have "b \<le> t \<and> (\<forall>(t', xs) \<in> set ls. t' \<le> t \<and> length xs \<le> 1)"
    if "go_for ?body ls b = Inr t" for b t
    using that
  proof (induction ls arbitrary: b)
    case (Cons l ls)
    obtain t1 xs where l: "l = (t1, xs)" by fastforce
    with Cons.prems have "\<not> slen xs > 1" "go_for ?body ls (if t1 > b then t1 else b) = Inr t"
      by (auto split: if_splits)
    with Cons.IH [of "if t1 > b then t1 else b"] l show ?case by (auto simp: slen_def split: if_splits)
  qed simp
  with assms show ?thesis by (auto simp: lastTermWithLeader_def)
qed

text \<open>\<open>checkOneLeader\<close> returns a peer only if one of its ten polls saw it lead, in the highest
  term in which that poll saw any leader, and the poll saw no two leaders of one term.\<close>

theorem checkOneLeader_sound:
  assumes "checkOneLeader polls cfg = Inr i"
  shows "\<exists>iters < 10. \<exists>t. seenLeader (polls iters) cfg i t \<and>
    (\<forall>j t'. seenLeader (polls iters) cfg j t' \<longrightarrow> t' \<le> t) \<and>
    (\<forall>j j' t'. seenLeader (polls iters) cfg j t' \<and> seenLeader (polls iters) cfg j' t' \<longrightarrow> j = j')"
proof -
  have "\<exists>iters < k + n. \<exists>t. seenLeader (polls iters) cfg i t \<and>
    (\<forall>j t'. seenLeader (polls iters) cfg j t' \<longrightarrow> t' \<le> t) \<and>
    (\<forall>j j' t'. seenLeader (polls iters) cfg j t' \<and> seenLeader (polls iters) cfg j' t' \<longrightarrow> j = j')"
    if "leaderLoop n polls cfg k = Inr i" for n k
    using that
  proof (induction n arbitrary: k)
    case (Suc n)
    from Suc.prems obtain ls t where ls: "pollLeaders (polls k) cfg = Inr ls"
      and t: "lastTermWithLeader ls = Inr t"
      and r: "(if slen ls \<noteq> 0 then (case map_of ls t of None \<Rightarrow> Inl IndexOutOfRange | Some xs \<Rightarrow> go_index xs 0)
        else leaderLoop n polls cfg (k + 1)) = Inr i"
      by (auto split: sum.splits)
    note seen = pollLeaders_seen [OF ls] and max = lastTerm_max [OF t]
    show ?case
    proof (cases "slen ls = 0")
      case True
      with r Suc.IH [of "k + 1"] show ?thesis by auto
    next
      case False
      with r obtain xs where xs: "map_of ls t = Some xs" "xs \<noteq> []" "i = xs ! 0"
        by (auto simp: go_index_Inr split: option.splits)
      then have "i \<in> set (leadersOf t ls)" by (simp add: leadersOf_def)
      with seen have i: "seenLeader (polls k) cfg i t" by auto
      have one: "t' \<le> t \<and> leadersOf t' ls = [j]" if "seenLeader (polls k) cfg j t'" for j t'
      proof -
        have j: "j \<in> set (leadersOf t' ls)" using seen that by (auto simp: seenLeader_def)
        then obtain ys where ys: "map_of ls t' = Some ys" by (cases "map_of ls t'") (auto simp: leadersOf_def)
        then have "(t', ys) \<in> set ls" by (rule map_of_SomeD)
        with max have "t' \<le> t" "length ys \<le> 1" by auto
        with j ys show ?thesis by (auto simp: leadersOf_def le_Suc_eq length_Suc_conv)
      qed
      have "j = j'" if "seenLeader (polls k) cfg j t'" "seenLeader (polls k) cfg j' t'" for j j' t'
        using one [OF that(1)] one [OF that(2)] by simp
      with i one show ?thesis by (intro exI [of _ k]) auto
    qed
  qed simp
  from this [of 10 0] assms show ?thesis by (simp add: checkOneLeader_def)
qed

definition counts :: "(nat \<Rightarrow> ('c, 'a, 'r) config) \<Rightarrow> int \<Rightarrow> 'c logEntry \<Rightarrow> nat \<Rightarrow> bool" where
  "counts look index e i \<longleftrightarrow> (logs (look i) ! i) index = Some e \<and> index < expected (look i) ! i"

lemma nCommitted_counts:
  "nCommitted index n look = (c, e) \<Longrightarrow>
     c = int (card {i. i < n \<and> (\<exists>e. counts look index e i)}) \<and> (c > 0 \<longrightarrow> (\<exists>i < n. counts look index e i))"
proof (induction n arbitrary: c e)
  case 0
  then show ?case by (simp add: nCommitted_def)
next
  case (Suc n)
  obtain c0 e0 where r: "nCommitted index n look = (c0, e0)" by fastforce
  note IH = Suc.IH [OF r]
  have split: "{i. i < Suc n \<and> (\<exists>e. counts look index e i)} = {i. i < n \<and> (\<exists>e. counts look index e i)} \<union>
      (if \<exists>e. counts look index e n then {n} else {})" by (auto simp: less_Suc_eq)
  have fin: "finite {i. i < n \<and> (\<exists>e. counts look index e i)}" by simp
  have step: "(c, e) = (case (logs (look n) ! n) index of None \<Rightarrow> (c0, e0)
      | Some e1 \<Rightarrow> if expected (look n) ! n > index then (c0 + 1, e1) else (c0, e0))"
    using Suc.prems r by (simp add: nCommitted_def)
  show ?case
  proof (cases "\<exists>e. counts look index e n")
    case True
    with step have "c = c0 + 1" "counts look index e n" by (auto simp: counts_def)
    with IH split fin True show ?thesis by (auto simp: card_insert_if)
  next
    case False
    with step have "c = c0" "e = e0"
      by (auto simp: counts_def split: option.splits if_splits)
    with IH split False show ?thesis by (auto simp: less_Suc_eq)
  qed
qed

text \<open>\<open>one\<close> returns an index only if it has seen, in a poll, at least the demanded number of
  servers with an entry at that index in their logs, and one of them with the submitted
  command.\<close>

theorem one_sound:
  assumes "one rounds cmd expectedServers retry cfg = Inr index"
  shows "\<exists>env looks look n. (env, looks) \<in> set rounds \<and> look \<in> set looks \<and>
    max 1 expectedServers \<le> int (card {i. i < n \<and> (\<exists>e. counts look index e i)}) \<and>
    (\<exists>i < n. counts look index \<lparr>valid = True, command = cmd\<rparr> i)"
proof -
  have agr: "\<exists>look \<in> set looks. max 1 expectedServers \<le> int (card {i. i < n \<and> (\<exists>e. counts look index e i)}) \<and>
    (\<exists>i < n. counts look index \<lparr>valid = True, command = cmd\<rparr> i)"
    if "agreement index expectedServers cmd n looks" for n looks
    using that
  proof (induction looks)
    case (Cons look looks)
    obtain c e where r: "nCommitted index n look = (c, e)" by fastforce
    show ?case
    proof (cases "c > 0 \<and> c \<ge> expectedServers \<and> e = \<lparr>valid = True, command = cmd\<rparr>")
      case True
      with nCommitted_counts [OF r] show ?thesis by auto
    next
      case False
      then have "\<not> (0 < c \<and> expectedServers \<le> c \<and> e = \<lparr>valid = True, command = cmd\<rparr>)" by simp
      with Cons.prems r have "agreement index expectedServers cmd n looks"
        by (simp del: de_Morgan_conj)
      with Cons.IH show ?thesis by auto
    qed
  qed simp
  have "\<exists>env looks n. (env, looks) \<in> set rounds \<and> agreement index expectedServers cmd n looks"
    if "oneLoop rounds cmd expectedServers retry starts cfg = Inr index" for starts cfg
    using that
  proof (induction rounds cmd expectedServers retry starts cfg rule: oneLoop.induct)
    case (2 env looks rounds cmd expectedServers retry starts cfg)
    from 2(3) obtain starts' cfg' ix where tr: "tryServers (cn cfg) env cmd starts cfg = Inr (starts', cfg', ix)"
      by (cases "tryServers (cn cfg) env cmd starts cfg") auto
    show ?case
    proof (cases "ix \<noteq> -1 \<and> agreement ix expectedServers cmd (length (rafts cfg)) looks")
      case True
      with 2(3) tr have "ix = index" by simp
      with True show ?thesis by auto
    next
      case False
      then have "oneLoop rounds cmd expectedServers retry starts' cfg' = Inr index"
        using 2(3) tr by (auto split: if_splits)
      with 2(1,2) [OF tr refl refl] False 2(3) tr show ?thesis by (fastforce split: if_splits)
    qed
  qed simp
  from this [of 0 cfg] assms obtain env looks n where
    r: "(env, looks) \<in> set rounds" and a: "agreement index expectedServers cmd n looks"
    by (auto simp: one_def)
  from agr [OF a] r show ?thesis by blast
qed

section \<open>A cluster on which the checks succeed\<close>

text \<open>Three connected peers; peer 1 leads in term 2 and has applied the command 7, as has peer 0.\<close>

definition demoPeer :: "nat \<Rightarrow> nat Raft" where
  "demoPeer p =
     \<lparr>peers = 3, me = p, persister = MakePersister, dead = False, currentTerm = 2, votedFor = 1,
      role = (if p = 1 then Leader else Follower), log = [\<lparr>Command = None, Term = 0\<rparr>],
      commitIndex = 0, nextIndex = [1, 1, 1], matchIndex = [0, 0, 0], lastApplied = 0,
      electionTimer = 0, heartbeatTimer = 0, applyCh = [], Commit = 0, logPrevIndex = 0,
      logPrevTerm = 0\<rparr>"

definition demoCluster :: "(nat, nat, nat) config" where
  "demoCluster = (emptyConfig 3 (newNetwork False (\<lambda>p. MakeServer)))
     \<lparr>rafts := [Some 0, Some 1, Some 2], heap := demoPeer, connected := [True, True, True]\<rparr>"

definition demoApplied :: "nat \<Rightarrow> (nat, nat, nat) config" where
  "demoApplied i = demoCluster
     \<lparr>logs := [[1 \<mapsto> \<lparr>valid = True, command = Some 7\<rparr>], [1 \<mapsto> \<lparr>valid = True, command = Some 7\<rparr>], Map.empty],
      expected := [2, 2, 0]\<rparr>"

theorem checkOneLeader_sound_witness:
  "checkOneLeader (\<lambda>iters i. demoPeer) demoCluster = Inr 1 \<and>
   (\<exists>t. seenLeader (\<lambda>i. demoPeer) demoCluster 1 t)"
proof -
  have "checkOneLeader (\<lambda>iters i. demoPeer) demoCluster = Inr 1" by code_simp
  with checkOneLeader_sound [OF this] show ?thesis by auto
qed

theorem one_sound_witness:
  "\<exists>n. 2 \<le> int (card {i. i < n \<and> (\<exists>e. counts demoApplied 1 e i)})"
proof -
  have "one [(\<lambda>k c. c, [demoApplied])] (Some 7) 2 False demoCluster = Inr 1" by code_simp
  from one_sound [OF this] show ?thesis by auto
qed

end
