(* ===== verification/Labgob.thy ===== *)
theory Labgob
  imports Prelude
begin

text \<open>
  labgob/labgob.go: the checks around encoding/gob. A Go program has finitely many types; they
  are a table, and a type is its index in it, so that recursive types are cycles of the table.
  A value is a tree whose pointers are addresses of a heap, so values may be cyclic, too. Names
  are ASCII. Encoding itself is gob's. The theorems say
  which types are checked, that no field is reported twice, and how much of a value is looked at.
\<close>

section \<open>Types\<close>

datatype typeDesc =
    StructType string "(string \<times> nat) list"
  | SliceType nat
  | ArrayType nat
  | PtrType nat
  | MapType nat nat
  | OtherType

record gobState =
  checked :: "nat set"
  errorCount :: int
  printed :: "string list"

definition typeAt :: "typeDesc list \<Rightarrow> nat \<Rightarrow> typeDesc" where
  "typeAt ts t = (if t < length ts then ts ! t else OtherType)"

definition isUpper :: "string \<Rightarrow> bool" where
  "isUpper name = (case name of [] \<Rightarrow> False
     | c # cs \<Rightarrow> of_char (CHR ''A'') \<le> (of_char c :: nat) \<and> of_char c \<le> (of_char (CHR ''Z'') :: nat))"

definition lowerCaseMessage :: "string \<Rightarrow> string \<Rightarrow> string" where
  "lowerCaseMessage f t = ''labgob error: lower-case field '' @ f @ '' of '' @ t
     @ '' in RPC or persist will break your Raft''"

text \<open>
  What the switch of \<open>checkType\<close> goes on with: the fields of a struct, each with the names that
  a message about it has, the element of a slice, array or pointer, element and key of a map.
\<close>

fun parts :: "typeDesc \<Rightarrow> ((string \<times> string) option \<times> nat) list" where
  "parts (StructType name fs) = map (\<lambda>(f, t). (Some (f, name), t)) fs"
| "parts (SliceType t) = [(None, t)]"
| "parts (ArrayType t) = [(None, t)]"
| "parts (PtrType t) = [(None, t)]"
| "parts (MapType e k) = [(None, e), (None, k)]"
| "parts OtherType = []"

definition checkField :: "(string \<times> string) option \<Rightarrow> gobState \<Rightarrow> gobState" where
  "checkField field st =
     (case field of
        None \<Rightarrow> st
      | Some (f, t) \<Rightarrow>
          if isUpper f = False
          then st\<lparr>printed := printed st @ [lowerCaseMessage f t], errorCount := errorCount st + 1\<rparr>
          else st)"

text \<open>The calls of \<open>checkType\<close> for a list of parts; a type that is checked is not entered again.\<close>

function checkTypes ::
  "typeDesc list \<Rightarrow> ((string \<times> string) option \<times> nat) list \<Rightarrow> gobState \<Rightarrow> gobState" where
  "checkTypes ts [] st = st"
| "checkTypes ts ((field, t) # rest) st =
     (let st1 = checkField field st in
      if t \<in> checked st1 then checkTypes ts rest st1
      else checkTypes ts rest
             (checkTypes ts (parts (typeAt ts t)) (st1\<lparr>checked := insert t (checked st1)\<rparr>)))"
  by pat_completeness auto

lemma checked_checkField [simp]: "checked (checkField field st) = checked st"
  by (simp add: checkField_def split: option.splits prod.splits)

lemma checkTypes_grows:
  "checkTypes_dom (ts, xs, st) \<Longrightarrow> checked st \<subseteq> checked (checkTypes ts xs st)"
  by (induction ts xs st rule: checkTypes.pinduct) (auto simp: checkTypes.psimps Let_def)

definition remaining :: "typeDesc list \<Rightarrow> gobState \<Rightarrow> nat" where
  "remaining ts st = card ({..<length ts} - checked st)"

lemma remaining_mono: "checked st \<subseteq> checked st' \<Longrightarrow> remaining ts st' \<le> remaining ts st"
  unfolding remaining_def by (rule card_mono) auto

termination checkTypes
proof (relation "inv_image (less_than <*lex*> less_than) (\<lambda>(ts, xs, st). (remaining ts st, length xs))")
  fix ts field t rest st st1
  assume st1: "st1 = checkField field st"
  show "t \<in> checked st1 \<Longrightarrow> ((ts, rest, st1), ts, (field, t) # rest, st)
    \<in> inv_image (less_than <*lex*> less_than) (\<lambda>(ts, xs, st). (remaining ts st, length xs))"
    by (simp add: st1 remaining_def)
  assume new: "t \<notin> checked st1"
  let ?st2 = "st1\<lparr>checked := insert t (checked st1)\<rparr>"
  show "((ts, parts (typeAt ts t), ?st2), ts, (field, t) # rest, st)
    \<in> inv_image (less_than <*lex*> less_than) (\<lambda>(ts, xs, st). (remaining ts st, length xs))"
  proof (cases "t < length ts")
    case True
    with new have "remaining ts ?st2 < remaining ts st"
      unfolding remaining_def by (intro psubset_card_mono) (auto simp: st1)
    then show ?thesis by simp
  next
    case False
    then have "parts (typeAt ts t) = []" by (simp add: typeAt_def)
    moreover have "remaining ts ?st2 \<le> remaining ts st" by (rule remaining_mono) (auto simp: st1)
    ultimately show ?thesis by auto
  qed
  assume "checkTypes_dom (ts, parts (typeAt ts t), ?st2)"
  from checkTypes_grows [OF this] have
    "remaining ts (checkTypes ts (parts (typeAt ts t)) ?st2) \<le> remaining ts st"
    by (intro remaining_mono) (auto simp: st1)
  then show "((ts, rest, checkTypes ts (parts (typeAt ts t)) ?st2), ts, (field, t) # rest, st)
    \<in> inv_image (less_than <*lex*> less_than) (\<lambda>(ts, xs, st). (remaining ts st, length xs))"
    by auto
qed auto

definition checkType :: "typeDesc list \<Rightarrow> nat \<Rightarrow> gobState \<Rightarrow> gobState" where
  "checkType ts t st = checkTypes ts [(None, t)] st"

section \<open>Values\<close>

text \<open>
  \<open>Scalar t d\<close> is a bool, number or string of type name \<open>t\<close>; \<open>d\<close> says whether it has the zero
  value. Every other kind is not looked into.
\<close>

datatype goValue =
    Struct "(string \<times> goValue) list"
  | Ptr "nat option"
  | Scalar string bool
  | OtherValue

definition fieldName :: "string \<Rightarrow> string \<Rightarrow> string" where
  "fieldName name f = (if name \<noteq> '''' then name @ ''.'' @ f else f)"

definition defaultMessage :: "string \<Rightarrow> string" where
  "defaultMessage what =
     ''labgob warning: Decoding into a non-default variable/field '' @ what @ '' may not work''"

definition scalarDefault :: "string \<Rightarrow> bool \<Rightarrow> string \<Rightarrow> gobState \<Rightarrow> gobState" where
  "scalarDefault tname isZero name st =
     (if isZero = False then
        (let what = (if name = '''' then tname else name);
             st1 = (if errorCount st < 1
                    then st\<lparr>printed := printed st @ [defaultMessage what]\<rparr> else st)
         in st1\<lparr>errorCount := errorCount st1 + 1\<rparr>)
      else st)"

function checkDefault1 :: "(nat \<Rightarrow> goValue) \<Rightarrow> goValue \<Rightarrow> int \<Rightarrow> string \<Rightarrow> gobState \<Rightarrow> gobState"
  and fieldDefaults ::
    "(nat \<Rightarrow> goValue) \<Rightarrow> (string \<times> goValue) list \<Rightarrow> int \<Rightarrow> string \<Rightarrow> gobState \<Rightarrow> gobState"
where
  "checkDefault1 heap v depth name st =
     (if depth > 3 then st
      else case v of
        Struct fs \<Rightarrow> fieldDefaults heap fs depth name st
      | Ptr None \<Rightarrow> st
      | Ptr (Some a) \<Rightarrow> checkDefault1 heap (heap a) (depth + 1) name st
      | Scalar t d \<Rightarrow> scalarDefault t d name st
      | OtherValue \<Rightarrow> st)"
| "fieldDefaults heap [] depth name st = st"
| "fieldDefaults heap ((f, vv) # fs) depth name st =
     fieldDefaults heap fs depth name
       (checkDefault1 heap vv (depth + 1) (fieldName name f) st)"
  by pat_completeness auto

termination
  by (relation "inv_image (less_than <*lex*> less_than)
      (\<lambda>x. case x of Inl (h, v, d, n, st) \<Rightarrow> (nat (4 - d), size v)
                   | Inr (h, fs, d, n, st) \<Rightarrow> (nat (4 - d), size_list (size_prod (\<lambda>f. 0) size) fs))") auto

definition checkDefault :: "(nat \<Rightarrow> goValue) \<Rightarrow> goValue option \<Rightarrow> gobState \<Rightarrow> gobState" where
  "checkDefault heap v st = (case v of None \<Rightarrow> st | Some x \<Rightarrow> checkDefault1 heap x 1 '''' st)"

section \<open>The wrappers\<close>

text \<open>A value comes with its type; what gob does then is a function of its own state.\<close>

definition checkValue :: "typeDesc list \<Rightarrow> nat \<Rightarrow> gobState \<Rightarrow> gobState" where
  "checkValue ts t st = checkType ts t st"

definition Encode :: "typeDesc list \<Rightarrow> ('g \<Rightarrow> 'g) \<Rightarrow> nat \<Rightarrow> gobState \<times> 'g \<Rightarrow> gobState \<times> 'g" where
  "Encode ts gobEncode t = (\<lambda>(st, g). (checkValue ts t st, gobEncode g))"

text \<open>\<open>EncodeValue\<close> gets a \<open>reflect.Value\<close> and checks what is in it.\<close>

definition EncodeValue ::
  "typeDesc list \<Rightarrow> ('g \<Rightarrow> 'g) \<Rightarrow> nat \<Rightarrow> gobState \<times> 'g \<Rightarrow> gobState \<times> 'g" where
  "EncodeValue ts gobEncodeValue t = (\<lambda>(st, g). (checkValue ts t st, gobEncodeValue g))"

definition Decode ::
  "typeDesc list \<Rightarrow> (nat \<Rightarrow> goValue) \<Rightarrow> ('g \<Rightarrow> 'g) \<Rightarrow> nat \<Rightarrow> goValue option \<Rightarrow> gobState \<times> 'g
   \<Rightarrow> gobState \<times> 'g" where
  "Decode ts heap gobDecode t e =
     (\<lambda>(st, g). (let st1 = checkValue ts t st in (checkDefault heap e st1, gobDecode g)))"

definition Register :: "typeDesc list \<Rightarrow> ('g \<Rightarrow> 'g) \<Rightarrow> nat \<Rightarrow> gobState \<times> 'g \<Rightarrow> gobState \<times> 'g" where
  "Register ts gobRegister t = (\<lambda>(st, g). (checkValue ts t st, gobRegister g))"

section \<open>Which types are checked\<close>

definition partOf :: "typeDesc list \<Rightarrow> (nat \<times> nat) set" where
  "partOf ts = {(t, u). u \<in> snd ` set (parts (typeAt ts t))}"

definition lowerCase :: "((string \<times> string) option \<times> nat) list \<Rightarrow> int" where
  "lowerCase xs = int (length (filter (\<lambda>(field, t). case field of None \<Rightarrow> False
     | Some (f, name) \<Rightarrow> \<not> isUpper f) xs))"

definition badFields :: "typeDesc list \<Rightarrow> nat \<Rightarrow> int" where
  "badFields ts t = lowerCase (parts (typeAt ts t))"

lemma errorCount_checkField:
  "errorCount (checkField field st) = errorCount st + lowerCase [(field, t)]"
  by (auto simp: checkField_def lowerCase_def split: option.splits)

lemma lowerCase_Cons: "lowerCase (x # xs) = lowerCase [x] + lowerCase xs"
  by (simp add: lowerCase_def)

text \<open>What a list of calls adds: its parts, closed under parts, each type counted once.\<close>

definition explored ::
  "typeDesc list \<Rightarrow> ((string \<times> string) option \<times> nat) list \<Rightarrow> gobState \<Rightarrow> gobState \<Rightarrow> bool" where
  "explored ts xs st st' \<longleftrightarrow>
     checked st \<subseteq> checked st' \<and> snd ` set xs \<subseteq> checked st' \<and>
     (\<forall>t \<in> checked st' - checked st. partOf ts `` {t} \<subseteq> checked st') \<and>
     checked st' \<subseteq> checked st \<union> (partOf ts)\<^sup>* `` (snd ` set xs) \<and>
     finite (checked st' - checked st) \<and>
     errorCount st' = errorCount st + lowerCase xs + (\<Sum>t \<in> checked st' - checked st. badFields ts t)"

lemma explored_trans:
  assumes a: "explored ts ((None, t) # []) st st1" and b: "explored ts rest st1 st2"
  shows "explored ts ((None, t) # rest) st st2"
proof -
  let ?N1 = "checked st1 - checked st" and ?N2 = "checked st2 - checked st1"
  have split: "checked st2 - checked st = ?N1 \<union> ?N2" "?N1 \<inter> ?N2 = {}"
    using a b by (auto simp: explored_def)
  have "(\<Sum>u \<in> checked st2 - checked st. badFields ts u)
      = (\<Sum>u \<in> ?N1. badFields ts u) + (\<Sum>u \<in> ?N2. badFields ts u)"
    unfolding split(1) using a b split(2) by (intro sum.union_disjoint) (auto simp: explored_def)
  moreover have "lowerCase [(None, t)] = 0" by (simp add: lowerCase_def)
  ultimately have err: "errorCount st2 = errorCount st + lowerCase ((None, t) # rest)
      + (\<Sum>u \<in> checked st2 - checked st. badFields ts u)"
    using a b lowerCase_Cons [of "(None, t)" rest] by (simp add: explored_def)
  have grow: "checked st \<subseteq> checked st1" "checked st1 \<subseteq> checked st2" "t \<in> checked st1"
    "snd ` set rest \<subseteq> checked st2" using a b by (auto simp: explored_def)
  have closed: "partOf ts `` {u} \<subseteq> checked st2" if "u \<in> checked st2 - checked st" for u
  proof (cases "u \<in> checked st1")
    case True
    with that a have "partOf ts `` {u} \<subseteq> checked st1" unfolding explored_def by blast
    with grow(2) show ?thesis by blast
  next
    case False
    with that b show ?thesis unfolding explored_def by blast
  qed
  have "checked st1 \<subseteq> checked st \<union> (partOf ts)\<^sup>* `` {t}"
    "checked st2 \<subseteq> checked st1 \<union> (partOf ts)\<^sup>* `` (snd ` set rest)"
    using a b by (simp_all add: explored_def)
  then have "checked st2 \<subseteq> checked st \<union> (partOf ts)\<^sup>* `` (snd ` set ((None, t) # rest))" by auto
  moreover have "finite (checked st2 - checked st)"
    unfolding split(1) using a b by (simp add: explored_def)
  ultimately show ?thesis using err grow closed unfolding explored_def by auto
qed

lemma explored_enter:
  assumes new: "t \<notin> checked st"
    and a: "explored ts (parts (typeAt ts t)) (st\<lparr>checked := insert t (checked st)\<rparr>) st'"
  shows "explored ts [(None, t)] st st'"
proof -
  let ?N = "checked st' - insert t (checked st)"
  have t: "t \<in> checked st'" using a by (auto simp: explored_def)
  have split: "checked st' - checked st = insert t ?N" using t new by auto
  have fin: "finite ?N" using a by (simp add: explored_def)
  have "snd ` set (parts (typeAt ts t)) = partOf ts `` {t}" by (auto simp: partOf_def)
  moreover have "(partOf ts)\<^sup>* `` (partOf ts `` {t}) \<subseteq> (partOf ts)\<^sup>* `` {t}"
    by (auto intro: converse_rtrancl_into_rtrancl)
  ultimately show ?thesis
    using a new fin t unfolding explored_def split
    by (auto simp: badFields_def lowerCase_def [of "[(None, t)]"])
qed

lemma explored_seen: "t \<in> checked st \<Longrightarrow> explored ts [(None, t)] st st"
  by (auto simp: explored_def lowerCase_def)

lemma explored_field:
  assumes "explored ts ((None, t) # rest) (checkField field st) st'"
  shows "explored ts ((field, t) # rest) st st'"
proof -
  have "lowerCase ((field, t) # rest) = lowerCase [(field, t)] + lowerCase ((None, t) # rest)"
    using lowerCase_Cons [of "(field, t)" rest] lowerCase_Cons [of "(None, t)" rest]
    by (simp add: lowerCase_def)
  with assms errorCount_checkField [of field st t] show ?thesis by (simp add: explored_def)
qed

lemma checkTypes_explores: "explored ts xs st (checkTypes ts xs st)"
proof (induction ts xs st rule: checkTypes.induct)
  case (1 ts st)
  then show ?case by (simp add: explored_def lowerCase_def)
next
  case (2 ts field t rest st)
  let ?st1 = "checkField field st"
  show ?case
  proof (cases "t \<in> checked ?st1")
    case True
    from explored_trans [OF explored_seen [OF True] 2(1) [OF refl True]] True show ?thesis
      by (auto simp: Let_def intro: explored_field)
  next
    case False
    from explored_trans [OF explored_enter [OF False 2(2) [OF refl False]] 2(3) [OF refl False]] False
    show ?thesis by (auto simp: Let_def intro: explored_field)
  qed
qed

text \<open>C34. \<open>checkType\<close> returns for every type, also a recursive one, and what it does is exact: it
  checks the types the type is built from, directly or indirectly, that were not checked
  before, and counts each lower-case field of these once, so a program's warnings do not
  depend on how often or in which order its types are used.\<close>

theorem checkType_exact:
  assumes "partOf ts `` checked st \<subseteq> checked st"
  shows "checked (checkType ts t st) = checked st \<union> (partOf ts)\<^sup>* `` {t} \<and>
    errorCount (checkType ts t st) =
      errorCount st + (\<Sum>u \<in> (partOf ts)\<^sup>* `` {t} - checked st. badFields ts u) \<and>
    partOf ts `` checked (checkType ts t st) \<subseteq> checked (checkType ts t st)"
proof -
  let ?st' = "checkType ts t st"
  have e: "explored ts [(None, t)] st ?st'" unfolding checkType_def by (rule checkTypes_explores)
  have closed: "partOf ts `` checked ?st' \<subseteq> checked ?st'"
  proof
    fix u assume "u \<in> partOf ts `` checked ?st'"
    then obtain v where v: "v \<in> checked ?st'" "(v, u) \<in> partOf ts" by auto
    show "u \<in> checked ?st'"
    proof (cases "v \<in> checked st")
      case True
      with v assms have "u \<in> checked st" by blast
      with e show ?thesis by (auto simp: explored_def)
    next
      case False
      with v e show ?thesis unfolding explored_def by blast
    qed
  qed
  have "t \<in> checked ?st'" using e by (simp add: explored_def)
  then have "(partOf ts)\<^sup>* `` {t} \<subseteq> checked ?st'"
    using closed by (metis Image_closed_trancl Image_mono empty_subsetI insert_subset subset_refl)
  with e have c: "checked ?st' = checked st \<union> (partOf ts)\<^sup>* `` {t}" by (auto simp: explored_def)
  have "lowerCase [(None, t)] = 0" by (simp add: lowerCase_def)
  moreover have "checked ?st' - checked st = (partOf ts)\<^sup>* `` {t} - checked st" using c by auto
  ultimately have "errorCount ?st' =
      errorCount st + (\<Sum>u \<in> (partOf ts)\<^sup>* `` {t} - checked st. badFields ts u)"
    using e by (simp add: explored_def)
  with c closed show ?thesis by blast
qed

text \<open>A linked list whose first field is not capitalized, and which refers to itself.\<close>

definition demoTypes :: "typeDesc list" where
  "demoTypes = [StructType ''Node'' [(''val'', 1), (''Next'', 2)], OtherType, PtrType 0]"

definition startGob :: gobState where
  "startGob = \<lparr>checked = {}, errorCount = 0, printed = []\<rparr>"

theorem checkType_exact_witness:
  "errorCount (checkType demoTypes 0 startGob) = 1 \<and>
   (\<Sum>u \<in> (partOf demoTypes)\<^sup>* `` {0}. badFields demoTypes u) = 1"
proof -
  have "errorCount (checkType demoTypes 0 startGob) = 1" by code_simp
  with checkType_exact [of demoTypes startGob 0] show ?thesis by (simp add: startGob_def)
qed

section \<open>How much of a value is looked at\<close>

text \<open>The non-zero scalars of a value above a depth: what \<open>checkDefault\<close> is meant to notice.\<close>

fun nonZero :: "(nat \<Rightarrow> goValue) \<Rightarrow> nat \<Rightarrow> goValue \<Rightarrow> int" where
  "nonZero heap 0 v = 0"
| "nonZero heap (Suc k) v =
     (case v of
        Struct fs \<Rightarrow> sum_list (map (\<lambda>(f, vv). nonZero heap k vv) fs)
      | Ptr (Some a) \<Rightarrow> nonZero heap k (heap a)
      | Scalar t isZero \<Rightarrow> if isZero then 0 else 1
      | _ \<Rightarrow> 0)"

lemma nonZero_nonneg: "0 \<le> nonZero heap k v"
  by (induction heap k v rule: nonZero.induct)
    (auto split: goValue.splits option.splits intro!: sum_list_nonneg)

text \<open>\<open>n\<close> errors more, of which the first ever is printed.\<close>

definition warned :: "int \<Rightarrow> gobState \<Rightarrow> gobState \<Rightarrow> bool" where
  "warned n st st' \<longleftrightarrow> 0 \<le> n \<and> errorCount st' = errorCount st + n \<and> checked st' = checked st \<and>
     (\<exists>ms. printed st' = printed st @ ms \<and>
        length ms = (if errorCount st < 1 \<and> n > 0 then 1 else 0))"

lemma warned_trans:
  "0 \<le> errorCount st \<Longrightarrow> warned m st st1 \<Longrightarrow> warned n st1 st2 \<Longrightarrow> warned (m + n) st st2"
  unfolding warned_def by (auto split: if_splits)

lemma warned_refl: "warned 0 st st"
  by (simp add: warned_def)

lemma checkDefault1_warned:
  "0 \<le> errorCount st \<Longrightarrow>
     warned (nonZero heap (nat (4 - depth)) v) st (checkDefault1 heap v depth name st)"
  "0 \<le> errorCount st \<Longrightarrow>
     warned (sum_list (map (\<lambda>(f, vv). nonZero heap (nat (3 - depth)) vv) fs)) st
       (fieldDefaults heap fs depth name st)"
proof (induction heap v depth name st and heap fs depth name st
    rule: checkDefault1_fieldDefaults.induct)
  case (1 heap v depth name st)
  show ?case
  proof (cases "depth > 3")
    case True
    then show ?thesis by (simp add: warned_refl)
  next
    case False
    then have n: "nat (4 - depth) = Suc (nat (3 - depth))" by simp
    have d: "nat (4 - (depth + 1)) = nat (3 - depth)" by simp
    show ?thesis
    proof (cases v)
      case (Struct fs)
      with 1(1) [OF False Struct] 1(3) False n show ?thesis by simp
    next
      case (Ptr p)
      with 1(2) [OF False] 1(3) False n d show ?thesis
        by (cases p) (simp_all add: warned_refl)
    next
      case (Scalar t z)
      with False n 1(3) show ?thesis
        by (auto simp: scalarDefault_def warned_def Let_def)
    qed (use False n in \<open>simp add: warned_refl\<close>)
  qed
next
  case (2 heap depth name st)
  then show ?case by (simp add: warned_refl)
next
  case (3 heap f vv fs depth name st)
  let ?st1 = "checkDefault1 heap vv (depth + 1) (fieldName name f) st"
  have d: "nat (4 - (depth + 1)) = nat (3 - depth)" by simp
  have a: "warned (nonZero heap (nat (3 - depth)) vv) st ?st1"
    using 3(1) [OF 3(3)] unfolding d .
  then have "0 \<le> errorCount ?st1" using 3(3) by (simp add: warned_def)
  from warned_trans [OF 3(3) a 3(2) [OF this]] show ?case by simp
qed

text \<open>\<open>checkDefault\<close> returns for every value, also a cyclic one, because it looks at most three
  levels deep; it counts exactly the non-zero scalars it finds there, prints one warning if
  there is any and no error was counted before, and never more than one.\<close>

theorem checkDefault_warns_once:
  assumes "0 \<le> errorCount st"
  shows "errorCount (checkDefault heap (Some v) st) = errorCount st + nonZero heap 3 v \<and>
    length (printed (checkDefault heap (Some v) st)) =
      length (printed st) + (if errorCount st = 0 \<and> nonZero heap 3 v > 0 then 1 else 0)"
  using checkDefault1_warned(1) [OF assms, of heap 1 v "''''"] assms
  by (auto simp: warned_def checkDefault_def split: if_splits)

text \<open>A reply that is reused: a struct with a set flag and a pointer back to itself.\<close>

definition demoHeap :: "nat \<Rightarrow> goValue" where
  "demoHeap a = Struct [(''VoteGranted'', Scalar ''bool'' False), (''Self'', Ptr (Some a))]"

theorem checkDefault_warns_once_witness:
  "errorCount (checkDefault demoHeap (Some (Ptr (Some 5))) startGob) = 1 \<and>
   length (printed (checkDefault demoHeap (Some (Ptr (Some 5))) startGob)) = 1"
proof -
  have "nonZero demoHeap 3 (Ptr (Some 5)) = 1" by code_simp
  with checkDefault_warns_once [of startGob demoHeap "Ptr (Some 5)"] show ?thesis
    by (simp add: startGob_def)
qed

end
