(* ===== verification/WeatherStations.thy ===== *)
theory WeatherStations
  imports Prelude
begin

text \<open>
  ws/mutex_aggregator.go, and what both aggregators of weather reports share. Floating-point numbers are a type with the
  operations the code uses, given by the record \<open>floatOps\<close>; the reports of a batch are added
  in the order in which they arrive. A station may answer at any time or never. Every step
  is one critical section or one channel operation; \<open>out\<close> is unbuffered, so a send waits
  for the reader.
\<close>

record 'f WeatherReport =
  Val :: 'f
  Id :: int
  Batch :: int

record 'f floatOps =
  zero :: 'f
  add :: "'f \<Rightarrow> 'f \<Rightarrow> 'f"
  divide :: "'f \<Rightarrow> int \<Rightarrow> 'f"
  NaN :: 'f
  isNaN :: "'f \<Rightarrow> bool"

text \<open>What README.md asks for: the average of the observations, NaN when there is none.\<close>

definition average :: "'f floatOps \<Rightarrow> 'f list \<Rightarrow> 'f" where
  "average F vs = (if vs = [] then NaN F else divide F (foldl (add F) (zero F) vs) (slen vs))"

text \<open>Integers with a value for NaN, on which runs can be computed.\<close>

definition intFloat :: "int option floatOps" where
  "intFloat = \<lparr>zero = Some 0,
     add = (\<lambda>x y. case (x, y) of (Some a, Some b) \<Rightarrow> Some (a + b) | _ \<Rightarrow> None),
     divide = (\<lambda>x n. case x of Some a \<Rightarrow> Some (a div n) | None \<Rightarrow> None),
     NaN = None, isNaN = (\<lambda>x. x = None)\<rparr>"

section \<open>The mutex-based aggregator\<close>

text \<open>
  The main goroutine selects, waits at \<open>out <- report\<close> with the mutex held, is about to start
  the next batch, or has returned. \<open>requests\<close> are the goroutines that wait for a station;
  \<open>sent\<close> is what \<open>out\<close> has carried and \<open>arrivals\<close> what the stations have answered, with the
  batch that was current.
\<close>

datatype 'f phase = Selecting | Sending "'f WeatherReport" | NewBatch | Terminated

record 'f mutexAgg =
  sum :: 'f
  cnt :: int
  batch :: int
  mphase :: "'f phase"
  requests :: "(int \<times> int) list"
  sent :: "'f WeatherReport list"
  arrivals :: "(int \<times> int \<times> 'f) list"

datatype 'f aggAction =
    Answer int int 'f
  | Tick
  | ReadOut
  | StartBatch
  | Quit

text \<open>\<open>retrieveData\<close>, once its station has answered.\<close>

definition retrieveData :: "'f floatOps \<Rightarrow> int \<Rightarrow> 'f \<Rightarrow> 'f mutexAgg \<Rightarrow> 'f mutexAgg" where
  "retrieveData F currentBatch v s =
     (if batch s = currentBatch \<and> \<not> isNaN F v
      then s\<lparr>sum := add F (sum s) v, cnt := cnt s + 1\<rparr> else s)"

definition newBatch :: "'f floatOps \<Rightarrow> nat \<Rightarrow> int \<Rightarrow> 'f mutexAgg \<Rightarrow> 'f mutexAgg" where
  "newBatch F k b s =
     s\<lparr>sum := zero F, cnt := 0, requests := requests s @ map (\<lambda>i. (int i, b)) [0..<k]\<rparr>"

definition mutexReport :: "'f floatOps \<Rightarrow> 'f mutexAgg \<Rightarrow> 'f WeatherReport" where
  "mutexReport F s =
     (if cnt s > 0 then \<lparr>Val = divide F (sum s) (cnt s), Id = 0, Batch = batch s\<rparr>
      else \<lparr>Val = NaN F, Id = 0, Batch = batch s\<rparr>)"

fun mutexStep :: "'f floatOps \<Rightarrow> nat \<Rightarrow> 'f aggAction \<Rightarrow> 'f mutexAgg \<Rightarrow> 'f mutexAgg option" where
  "mutexStep F k (Answer i b v) s =
     (case mphase s of
        Sending _ \<Rightarrow> None
      | _ \<Rightarrow>
          if (i, b) \<in> set (requests s)
          then Some ((retrieveData F b v s)\<lparr>requests := remove1 (i, b) (requests s),
                                           arrivals := arrivals s @ [(batch s, b, v)]\<rparr>)
          else None)"
| "mutexStep F k Tick s =
     (case mphase s of Selecting \<Rightarrow> Some (s\<lparr>mphase := Sending (mutexReport F s)\<rparr>) | _ \<Rightarrow> None)"
| "mutexStep F k ReadOut s =
     (case mphase s of
        Sending r \<Rightarrow> Some (s\<lparr>sent := sent s @ [r], batch := batch s + 1, mphase := NewBatch\<rparr>)
      | _ \<Rightarrow> None)"
| "mutexStep F k StartBatch s =
     (case mphase s of
        NewBatch \<Rightarrow> Some ((newBatch F k (batch s) s)\<lparr>mphase := Selecting\<rparr>) | _ \<Rightarrow> None)"
| "mutexStep F k Quit s =
     (case mphase s of Selecting \<Rightarrow> Some (s\<lparr>mphase := Terminated\<rparr>) | _ \<Rightarrow> None)"

definition mutexAggregator :: "'f floatOps \<Rightarrow> nat \<Rightarrow> 'f mutexAgg" where
  "mutexAggregator F k =
     newBatch F k 0
       \<lparr>sum = zero F, cnt = 0, batch = 0, mphase = Selecting, requests = [], sent = [],
        arrivals = []\<rparr>"

definition mutexInit :: "'f floatOps \<Rightarrow> nat \<Rightarrow> 'f mutexAgg \<Rightarrow> bool" where
  "mutexInit F k s \<longleftrightarrow> s = mutexAggregator F k"

text \<open>The observations of a batch: the reports of the batch that arrived while it was current.\<close>

definition inTime :: "'f floatOps \<Rightarrow> (int \<times> int \<times> 'f) list \<Rightarrow> int \<Rightarrow> 'f list" where
  "inTime F as b = map (\<lambda>(c, d, v). v) (filter (\<lambda>(c, d, v). c = b \<and> d = b \<and> \<not> isNaN F v) as)"

definition reportOf :: "'f floatOps \<Rightarrow> (int \<times> int \<times> 'f) list \<Rightarrow> int \<Rightarrow> 'f WeatherReport" where
  "reportOf F as b = \<lparr>Val = average F (inTime F as b), Id = 0, Batch = b\<rparr>"

text \<open>All requests, or all arrivals, are of batches up to a bound.\<close>

definition requestsUpTo :: "int \<Rightarrow> (int \<times> int) list \<Rightarrow> bool" where
  "requestsUpTo b rs \<longleftrightarrow> (\<forall>(i, d) \<in> set rs. d \<le> b)"

definition arrivedUpTo :: "int \<Rightarrow> (int \<times> int \<times> 'f) list \<Rightarrow> bool" where
  "arrivedUpTo b as \<longleftrightarrow> (\<forall>(c, d, v) \<in> set as. c \<le> b)"

lemma upTo_mono:
  "requestsUpTo b rs \<Longrightarrow> b \<le> b' \<Longrightarrow> requestsUpTo b' rs"
  "arrivedUpTo b as \<Longrightarrow> b \<le> b' \<Longrightarrow> arrivedUpTo b' as"
  by (fastforce simp: requestsUpTo_def arrivedUpTo_def)+

lemma requestsUpTo_remove: "requestsUpTo b rs \<Longrightarrow> requestsUpTo b (remove1 x rs)"
  unfolding requestsUpTo_def by (meson notin_set_remove1)

definition agg_inv :: "'f floatOps \<Rightarrow> 'f mutexAgg \<Rightarrow> bool" where
  "agg_inv F s \<longleftrightarrow>
     (\<forall>i < length (sent s). sent s ! i = reportOf F (arrivals s) (int i)) \<and>
     batch s = int (length (sent s)) \<and>
     requestsUpTo (batch s - (if mphase s = NewBatch then 1 else 0)) (requests s) \<and>
     arrivedUpTo (batch s) (arrivals s) \<and>
     (mphase s \<noteq> NewBatch \<longrightarrow>
        sum s = foldl (add F) (zero F) (inTime F (arrivals s) (batch s)) \<and>
        cnt s = slen (inTime F (arrivals s) (batch s))) \<and>
     (mphase s = NewBatch \<longrightarrow> inTime F (arrivals s) (batch s) = []) \<and>
     (\<forall>r. mphase s = Sending r \<longrightarrow> r = reportOf F (arrivals s) (batch s))"

lemma inTime_append:
  "inTime F (as @ [(c, d, v)]) b
     = inTime F as b @ (if c = b \<and> d = b \<and> \<not> isNaN F v then [v] else [])"
  by (simp add: inTime_def)

lemma inTime_other: "arrivedUpTo b as \<Longrightarrow> b < b' \<Longrightarrow> inTime F as b' = []"
  by (fastforce simp: arrivedUpTo_def inTime_def filter_empty_conv)

lemma reportOf_append: "c \<noteq> b \<Longrightarrow> reportOf F (as @ [(c, d, v)]) b = reportOf F as b"
  by (simp add: reportOf_def inTime_append)

lemma mutexReport_of:
  assumes "sum s = foldl (add F) (zero F) (inTime F (arrivals s) (batch s))"
    and "cnt s = slen (inTime F (arrivals s) (batch s))"
  shows "mutexReport F s = reportOf F (arrivals s) (batch s)"
  using assms by (simp add: mutexReport_def reportOf_def average_def)

lemma agg_step:
  assumes inv: "agg_inv F s" and step: "mutexStep F k a s = Some t"
  shows "agg_inv F t"
proof (cases a)
  case (Answer i b v)
  with step have ns: "\<forall>r. mphase s \<noteq> Sending r" and req: "(i, b) \<in> set (requests s)"
    and t: "t = (retrieveData F b v s)\<lparr>requests := remove1 (i, b) (requests s),
                                       arrivals := arrivals s @ [(batch s, b, v)]\<rparr>"
    by (auto split: phase.splits if_splits)
  from inv req have late: "mphase s = NewBatch \<Longrightarrow> b \<noteq> batch s"
    by (fastforce simp: agg_inv_def requestsUpTo_def)
  have "\<forall>i < length (sent s). sent s ! i = reportOf F (arrivals s @ [(batch s, b, v)]) (int i)"
    using inv by (auto simp: agg_inv_def reportOf_append)
  moreover have "arrivedUpTo (batch s) (arrivals s @ [(batch s, b, v)])"
    using inv by (auto simp: agg_inv_def arrivedUpTo_def)
  ultimately show ?thesis
    using inv ns late unfolding t agg_inv_def
    by (auto simp: retrieveData_def inTime_append requestsUpTo_remove)
next
  case Tick
  with step have ph: "mphase s = Selecting" and t: "t = s\<lparr>mphase := Sending (mutexReport F s)\<rparr>"
    by (auto split: phase.splits)
  with inv have "mutexReport F s = reportOf F (arrivals s) (batch s)"
    by (intro mutexReport_of) (auto simp: agg_inv_def)
  with inv ph t show ?thesis by (auto simp: agg_inv_def)
next
  case ReadOut
  with step obtain r where ph: "mphase s = Sending r"
    and t: "t = s\<lparr>sent := sent s @ [r], batch := batch s + 1, mphase := NewBatch\<rparr>"
    by (auto split: phase.splits)
  have "inTime F (arrivals s) (batch s + 1) = []"
    using inv by (intro inTime_other [of "batch s"]) (auto simp: agg_inv_def)
  moreover from inv ph have i: "\<forall>i < length (sent s). sent s ! i = reportOf F (arrivals s) (int i)"
    "batch s = int (length (sent s))" "r = reportOf F (arrivals s) (batch s)"
    "requestsUpTo (batch s) (requests s)" "arrivedUpTo (batch s + 1) (arrivals s)"
    by (auto simp: agg_inv_def intro: upTo_mono)
  moreover from i(1-3) have "\<forall>i < length (sent s @ [r]). (sent s @ [r]) ! i = reportOf F (arrivals s) (int i)"
    by (simp add: nth_append less_Suc_eq)
  ultimately show ?thesis unfolding t agg_inv_def by simp
next
  case StartBatch
  with step have ph: "mphase s = NewBatch"
    and t: "t = (newBatch F k (batch s) s)\<lparr>mphase := Selecting\<rparr>"
    by (auto split: phase.splits)
  from inv have "requestsUpTo (batch s - (if mphase s = NewBatch then 1 else 0)) (requests s)"
    unfolding agg_inv_def by blast
  with ph have "requestsUpTo (batch s - 1) (requests s)" by simp
  then have "requestsUpTo (batch s) (requests s @ map (\<lambda>i. (int i, batch s)) [0..<k])"
    by (fastforce simp: requestsUpTo_def)
  moreover from inv ph have "inTime F (arrivals s) (batch s) = []" "batch s = int (length (sent s))"
    "arrivedUpTo (batch s) (arrivals s)"
    "\<forall>i < length (sent s). sent s ! i = reportOf F (arrivals s) (int i)"
    unfolding agg_inv_def by blast+
  ultimately show ?thesis unfolding t agg_inv_def newBatch_def by simp
next
  case Quit
  with step inv show ?thesis by (auto simp: agg_inv_def split: phase.splits)
qed

interpretation mutex_agg: invariant "mutexInit F k" "mutexStep F k" "agg_inv F"
proof
  fix s assume "mutexInit F k s"
  then show "agg_inv F s"
    by (auto simp: mutexInit_def mutexAggregator_def newBatch_def agg_inv_def inTime_def
        requestsUpTo_def arrivedUpTo_def)
next
  fix s a t assume "agg_inv F s" "mutexStep F k a s = Some t"
  then show "agg_inv F t" by (rule agg_step)
qed

text \<open>C35. The mutex-based aggregator reports every batch once, in order, with the average of the
  observations of that batch that arrived before its period ended; late ones count nowhere,
  whatever the order in which the stations answer.\<close>

theorem mutex_reports_averages:
  assumes "reachable (mutexInit F k) (mutexStep F k) s"
  shows "sent s = map (reportOf F (arrivals s)) (map int [0..<length (sent s)])"
  using mutex_agg.reachable_inv [OF assms] by (intro nth_equalityI) (simp_all add: agg_inv_def)

theorem mutex_reports_averages_witness:
  "\<exists>s. reachable (mutexInit intFloat 2) (mutexStep intFloat 2) s \<and>
     sent s = [\<lparr>Val = Some 15, Id = 0, Batch = 0\<rparr>, \<lparr>Val = Some 4, Id = 0, Batch = 1\<rparr>]"
proof -
  let ?as = "[Answer 1 0 (Some 20), Answer 0 0 (Some 10), Tick, ReadOut, StartBatch,
              Answer 0 1 (Some 4), Answer 1 1 None, Tick, ReadOut]"
  have "case run_actions (mutexStep intFloat 2) ?as (mutexAggregator intFloat 2) of
     None \<Rightarrow> False
   | Some s \<Rightarrow> map (reportOf intFloat (arrivals s)) (map int [0..<length (sent s)])
       = [\<lparr>Val = Some 15, Id = 0, Batch = 0\<rparr>, \<lparr>Val = Some 4, Id = 0, Batch = 1\<rparr>]" by code_simp
  then obtain s where
    run: "run_actions (mutexStep intFloat 2) ?as (mutexAggregator intFloat 2) = Some s"
    and out: "map (reportOf intFloat (arrivals s)) (map int [0..<length (sent s)])
       = [\<lparr>Val = Some 15, Id = 0, Batch = 0\<rparr>, \<lparr>Val = Some 4, Id = 0, Batch = 1\<rparr>]"
    by (auto simp del: run_actions.simps split: option.splits)
  have r: "reachable (mutexInit intFloat 2) (mutexStep intFloat 2) s"
    by (rule reachable_run [OF reach_init run]) (simp add: mutexInit_def)
  from out mutex_reports_averages [OF r] r show ?thesis by auto
qed

text \<open>
  This aggregator cannot be stopped while it waits for the reader of \<open>out\<close>: a quit signal is
  not looked at and, as the mutex is held, no station's answer gets through.
\<close>

lemma mutex_ignores_quit:
  "mphase s = Sending r \<Longrightarrow> mutexStep F k a s = None \<or> a = ReadOut"
  by (cases a) auto

end
