(* ===== verification/WeatherChannels.thy ===== *)
theory WeatherChannels
  imports WeatherStations
begin

text \<open>
  ws/channel_aggregator.go: the aggregator without mutexes. Each batch has its own collector
  goroutine with its own \<open>responseChan\<close>, which the main loop stops by closing \<open>signal\<close>. A step
  is one channel operation; a \<open>select\<close> with several ready cases may take any of them. A value
  sent on \<open>quit\<close> is taken by one of the goroutines that wait for it.
\<close>

datatype 'f cphase = Collecting | Reporting "'f WeatherReport" | Finished

text \<open>
  A collector: \<open>asked\<close> are its stations' goroutines, \<open>responseChan\<close> the buffered responses,
  \<open>received\<close> those it has taken and \<open>answered\<close> all that the stations gave for the batch. \<open>signalled\<close> says that its \<open>signal\<close> channel is closed.
\<close>

record 'f collector =
  csum :: 'f
  ccount :: int
  asked :: "int list"
  responseChan :: "'f list"
  received :: "'f list"
  answered :: "'f list"
  signalled :: bool
  cphase :: "'f cphase"

text \<open>
  The main loop and its collectors, one per batch. \<open>quits\<close> counts the values offered on \<open>quit\<close>
  and not taken yet; \<open>outs\<close> is what \<open>out\<close> has carried.
\<close>

record 'f channelAgg =
  current :: int
  looping :: bool
  collectors :: "'f collector list"
  quits :: nat
  outs :: "'f WeatherReport list"

definition startCollector :: "'f floatOps \<Rightarrow> nat \<Rightarrow> 'f collector" where
  "startCollector F k =
     \<lparr>csum = zero F, ccount = 0, asked = map int [0..<k], responseChan = [], received = [],
      answered = [], signalled = False, cphase = Collecting\<rparr>"

definition channelAggregator :: "'f floatOps \<Rightarrow> nat \<Rightarrow> 'f channelAgg" where
  "channelAggregator F k =
     \<lparr>current = 0, looping = True, collectors = [startCollector F k], quits = 0, outs = []\<rparr>"

text \<open>The goroutine of a station: its response goes to \<open>responseChan\<close>, of capacity \<open>k\<close>.\<close>

definition respond :: "nat \<Rightarrow> int \<Rightarrow> 'f \<Rightarrow> 'f collector \<Rightarrow> 'f collector option" where
  "respond k i v c =
     (if i \<in> set (asked c) \<and> length (responseChan c) < k
      then Some (c\<lparr>asked := remove1 i (asked c), responseChan := responseChan c @ [v],
                   answered := answered c @ [v]\<rparr>)
      else None)"

definition giveUp :: "int \<Rightarrow> 'f collector \<Rightarrow> 'f collector option" where
  "giveUp i c = (if i \<in> set (asked c) then Some (c\<lparr>asked := remove1 i (asked c)\<rparr>) else None)"

text \<open>The loop of \<open>retrieveData\<close>: a response is taken, or the closed signal is seen.\<close>

definition receive :: "'f floatOps \<Rightarrow> 'f collector \<Rightarrow> 'f collector option" where
  "receive F c =
     (case (cphase c, responseChan c) of
        (Collecting, v # vs) \<Rightarrow>
          let c' = c\<lparr>responseChan := vs, received := received c @ [v]\<rparr>
          in Some (if isNaN F v then c' else c'\<lparr>csum := add F (csum c) v, ccount := ccount c + 1\<rparr>)
      | _ \<Rightarrow> None)"

definition channelReport :: "'f floatOps \<Rightarrow> int \<Rightarrow> 'f collector \<Rightarrow> 'f WeatherReport" where
  "channelReport F b c =
     (if ccount c > 0 then \<lparr>Val = divide F (csum c) (ccount c), Id = 0, Batch = b\<rparr>
      else \<lparr>Val = NaN F, Id = 0, Batch = b\<rparr>)"

definition stopCollecting :: "'f floatOps \<Rightarrow> int \<Rightarrow> 'f collector \<Rightarrow> 'f collector option" where
  "stopCollecting F b c =
     (case cphase c of
        Collecting \<Rightarrow>
          if signalled c then Some (c\<lparr>cphase := Reporting (channelReport F b c)\<rparr>) else None
      | _ \<Rightarrow> None)"

definition leave :: "'f collector \<Rightarrow> 'f collector option" where
  "leave c = (case cphase c of Reporting r \<Rightarrow> Some (c\<lparr>cphase := Finished\<rparr>) | _ \<Rightarrow> None)"

datatype 'f chanAction =
    Respond nat int 'f
  | StationQuit nat int
  | Receive nat
  | SeeSignal nat
  | Deliver nat
  | CollectorQuit nat
  | Stamp
  | SendQuit
  | LoopQuit

text \<open>A step of the collector of one batch.\<close>

definition onCollector ::
    "nat \<Rightarrow> ('f collector \<Rightarrow> 'f collector option) \<Rightarrow> 'f channelAgg \<Rightarrow> 'f channelAgg option" where
  "onCollector b f s =
     (if b < length (collectors s)
      then map_option (\<lambda>c. s\<lparr>collectors := (collectors s)[b := c]\<rparr>) (f (collectors s ! b))
      else None)"

definition takeQuit :: "'f channelAgg \<Rightarrow> 'f channelAgg option" where
  "takeQuit s = (if quits s > 0 then Some (s\<lparr>quits := quits s - 1\<rparr>) else None)"

text \<open>The main loop when \<open>stamp\<close> fires: the running collector is signalled, a new one started.\<close>

definition nextBatch :: "'f floatOps \<Rightarrow> nat \<Rightarrow> 'f channelAgg \<Rightarrow> 'f channelAgg" where
  "nextBatch F k s =
     s\<lparr>collectors := (collectors s)[nat (current s) := (collectors s ! nat (current s))\<lparr>signalled := True\<rparr>]
                      @ [startCollector F k],
       current := current s + 1\<rparr>"

fun chanStep :: "'f floatOps \<Rightarrow> nat \<Rightarrow> 'f chanAction \<Rightarrow> 'f channelAgg \<Rightarrow> 'f channelAgg option" where
  "chanStep F k (Respond b i v) s = onCollector b (respond k i v) s"
| "chanStep F k (StationQuit b i) s = Option.bind (takeQuit s) (onCollector b (giveUp i))"
| "chanStep F k (Receive b) s = onCollector b (receive F) s"
| "chanStep F k (SeeSignal b) s = onCollector b (stopCollecting F (int b)) s"
| "chanStep F k (Deliver b) s =
     (if b < length (collectors s)
      then case cphase (collectors s ! b) of
             Reporting r \<Rightarrow> onCollector b leave (s\<lparr>outs := outs s @ [r]\<rparr>)
           | _ \<Rightarrow> None
      else None)"
| "chanStep F k (CollectorQuit b) s = Option.bind (takeQuit s) (onCollector b leave)"
| "chanStep F k Stamp s = (if looping s then Some (nextBatch F k s) else None)"
| "chanStep F k SendQuit s = Some (s\<lparr>quits := quits s + 1\<rparr>)"
| "chanStep F k LoopQuit s =
     (if looping s then map_option (\<lambda>t. t\<lparr>looping := False\<rparr>) (takeQuit s) else None)"

definition chanInit :: "'f floatOps \<Rightarrow> nat \<Rightarrow> 'f channelAgg \<Rightarrow> bool" where
  "chanInit F k s \<longleftrightarrow> s = channelAggregator F k"

section \<open>What a collector reports\<close>

definition observations :: "'f floatOps \<Rightarrow> 'f collector \<Rightarrow> 'f list" where
  "observations F c = filter (\<lambda>v. \<not> isNaN F v) (received c)"

definition batchReport :: "'f floatOps \<Rightarrow> int \<Rightarrow> 'f collector \<Rightarrow> 'f WeatherReport" where
  "batchReport F b c = \<lparr>Val = average F (observations F c), Id = 0, Batch = b\<rparr>"

text \<open>
  A collector keeps the running sum of what it has received; it reports only after its signal;
  no station's goroutine can find \<open>responseChan\<close> full.
\<close>

definition collector_ok :: "'f floatOps \<Rightarrow> nat \<Rightarrow> nat \<Rightarrow> 'f collector \<Rightarrow> bool" where
  "collector_ok F k b c \<longleftrightarrow>
     csum c = foldl (add F) (zero F) (observations F c) \<and>
     ccount c = slen (observations F c) \<and>
     answered c = received c @ responseChan c \<and>
     length (asked c) + length (answered c) \<le> k \<and>
     (\<forall>r. cphase c = Reporting r \<longrightarrow> r = batchReport F (int b) c) \<and>
     (cphase c \<noteq> Collecting \<longrightarrow> signalled c)"

lemma channelReport_of: "collector_ok F k b c \<Longrightarrow> channelReport F (int b) c = batchReport F (int b) c"
  by (simp add: collector_ok_def channelReport_def batchReport_def average_def)

text \<open>
  A collector that has finished keeps what it has received, so the relation between the reports
  and the collectors survives every step.
\<close>

definition keeps :: "'f collector \<Rightarrow> 'f collector \<Rightarrow> bool" where
  "keeps c d \<longleftrightarrow> (cphase c = Finished \<longrightarrow> cphase d = Finished \<and> received d = received c) \<and>
     signalled d = signalled c"

lemma length_asked:
  "i \<in> set xs \<Longrightarrow> length (remove1 i xs) + n < k \<longleftrightarrow> length xs + n \<le> k"
proof -
  assume "i \<in> set xs"
  then obtain m where "length xs = Suc m" by (cases xs) auto
  with \<open>i \<in> set xs\<close> show ?thesis by (auto simp: length_remove1)
qed

lemma respond_ok: "respond k i v c = Some d \<Longrightarrow> collector_ok F k b c \<Longrightarrow>
    collector_ok F k b d \<and> keeps c d"
  by (auto simp: respond_def collector_ok_def keeps_def observations_def batchReport_def
      length_asked Suc_le_eq split: if_splits)

lemma giveUp_ok: "giveUp i c = Some d \<Longrightarrow> collector_ok F k b c \<Longrightarrow> collector_ok F k b d \<and> keeps c d"
  by (auto simp: giveUp_def collector_ok_def keeps_def observations_def batchReport_def
      length_remove1 split: if_splits)

lemma receive_ok: "receive F c = Some d \<Longrightarrow> collector_ok F k b c \<Longrightarrow> collector_ok F k b d \<and> keeps c d"
  by (auto simp: receive_def collector_ok_def keeps_def observations_def Let_def
      split: cphase.splits list.splits if_splits)

lemma stop_ok: "stopCollecting F (int b) c = Some d \<Longrightarrow> collector_ok F k b c \<Longrightarrow>
    collector_ok F k b d \<and> keeps c d"
  using channelReport_of [of F k b c]
  by (auto simp: stopCollecting_def collector_ok_def keeps_def observations_def batchReport_def
      split: cphase.splits if_splits)

lemma leave_ok: "leave c = Some d \<Longrightarrow> collector_ok F k b c \<Longrightarrow> collector_ok F k b d \<and> keeps c d"
  by (auto simp: leave_def collector_ok_def keeps_def observations_def split: cphase.splits)

lemma startCollector_ok: "collector_ok F k b (startCollector F k)"
  by (simp add: collector_ok_def startCollector_def observations_def)

section \<open>The aggregator\<close>

definition chan_inv :: "'f floatOps \<Rightarrow> nat \<Rightarrow> 'f channelAgg \<Rightarrow> bool" where
  "chan_inv F k s \<longleftrightarrow>
     current s + 1 = int (length (collectors s)) \<and>
     (\<forall>b < length (collectors s). collector_ok F k b (collectors s ! b) \<and>
        (signalled (collectors s ! b) \<longleftrightarrow> Suc b < length (collectors s))) \<and>
     distinct (map Batch (outs s)) \<and>
     (\<forall>r \<in> set (outs s). \<exists>b < length (collectors s).
        cphase (collectors s ! b) = Finished \<and> r = batchReport F (int b) (collectors s ! b))"

lemma chan_inv_collector:
  assumes inv: "chan_inv F k s" and step: "onCollector b f s = Some t"
    and f: "\<And>d. f (collectors s ! b) = Some d \<Longrightarrow>
              collector_ok F k b (collectors s ! b) \<Longrightarrow>
              collector_ok F k b d \<and> keeps (collectors s ! b) d"
  shows "chan_inv F k t"
proof -
  from step obtain d where b: "b < length (collectors s)" and d: "f (collectors s ! b) = Some d"
    and t: "t = s\<lparr>collectors := (collectors s)[b := d]\<rparr>"
    by (auto simp: onCollector_def split: if_splits)
  from inv b have "collector_ok F k b (collectors s ! b)" by (simp add: chan_inv_def)
  from f [OF d this] have ok: "collector_ok F k b d" and kp: "keeps (collectors s ! b) d" by auto
  have keep: "r = batchReport F (int b) d" "cphase d = Finished"
    if "cphase (collectors s ! b) = Finished" "r = batchReport F (int b) (collectors s ! b)" for r
    using that kp by (auto simp: keeps_def batchReport_def observations_def)
  have "\<exists>c < length (collectors t). cphase (collectors t ! c) = Finished \<and>
          r = batchReport F (int c) (collectors t ! c)" if "r \<in> set (outs t)" for r
  proof -
    from inv that obtain c where c: "c < length (collectors s)"
      "cphase (collectors s ! c) = Finished" "r = batchReport F (int c) (collectors s ! c)"
      by (auto simp: chan_inv_def t)
    with b keep show ?thesis
      by (intro exI [of _ c]) (auto simp: t nth_list_update)
  qed
  moreover from inv b ok kp have "collector_ok F k c (collectors t ! c) \<and>
      (signalled (collectors t ! c) \<longleftrightarrow> Suc c < length (collectors t))"
    if "c < length (collectors t)" for c
    using that by (auto simp: chan_inv_def t nth_list_update keeps_def)
  ultimately show ?thesis using inv by (auto simp: chan_inv_def t)
qed

lemma chan_inv_quit: "takeQuit s = Some t \<Longrightarrow> chan_inv F k s \<Longrightarrow> chan_inv F k t"
  by (auto simp: takeQuit_def chan_inv_def split: if_splits)

lemma chan_inv_deliver:
  assumes inv: "chan_inv F k s" and b: "b < length (collectors s)"
    and ph: "cphase (collectors s ! b) = Reporting r"
    and step: "onCollector b leave (s\<lparr>outs := outs s @ [r]\<rparr>) = Some t"
  shows "chan_inv F k t"
proof -
  let ?c = "collectors s ! b"
  from step b ph have t: "t = s\<lparr>outs := outs s @ [r],
      collectors := (collectors s)[b := ?c\<lparr>cphase := Finished\<rparr>]\<rparr>"
    by (simp add: onCollector_def leave_def)
  have "onCollector b leave s = Some (s\<lparr>collectors := (collectors s)[b := ?c\<lparr>cphase := Finished\<rparr>]\<rparr>)"
    (is "_ = Some ?u") using b ph by (simp add: onCollector_def leave_def)
  then have u: "chan_inv F k ?u" by (rule chan_inv_collector [OF inv]) (rule leave_ok)
  from inv b ph have r: "r = batchReport F (int b) ?c" by (simp add: chan_inv_def collector_ok_def)
  have fresh: "Batch r' \<noteq> Batch r" if "r' \<in> set (outs s)" for r'
  proof -
    from inv that obtain c where "cphase (collectors s ! c) = Finished" "Batch r' = int c"
      by (auto simp: chan_inv_def batchReport_def)
    with ph r show ?thesis by (auto simp: batchReport_def)
  qed
  then have "Batch r \<notin> Batch ` set (outs s)" by fastforce
  with u have "distinct (map Batch (outs t))" by (simp add: chan_inv_def t)
  moreover have "r = batchReport F (int b) (collectors t ! b) \<and> cphase (collectors t ! b) = Finished"
    using b r by (simp add: t batchReport_def observations_def)
  ultimately show ?thesis using u b unfolding chan_inv_def t by auto
qed

lemma chan_inv_next:
  assumes inv: "chan_inv F k s"
  shows "chan_inv F k (nextBatch F k s)"
proof -
  let ?n = "length (collectors s)" and ?t = "nextBatch F k s"
  from inv have cur: "current s + 1 = int ?n" by (simp add: chan_inv_def)
  have old: "keepsAll" if "keepsAll \<longleftrightarrow> (\<forall>c < ?n. collector_ok F k c (collectors ?t ! c) \<and>
      signalled (collectors ?t ! c) \<and> batchReport F (int c) (collectors ?t ! c) =
        batchReport F (int c) (collectors s ! c) \<and>
      cphase (collectors ?t ! c) = cphase (collectors s ! c))" for keepsAll
    using inv cur unfolding that
    by (auto simp: nextBatch_def nth_append nth_list_update chan_inv_def collector_ok_def
        batchReport_def observations_def)
  have "collector_ok F k c (collectors ?t ! c) \<and>
      (signalled (collectors ?t ! c) \<longleftrightarrow> Suc c < length (collectors ?t))"
    if "c < length (collectors ?t)" for c
  proof (cases "c < ?n")
    case True
    with old show ?thesis by (simp add: nextBatch_def)
  next
    case False
    with that have "c = ?n" by (simp add: nextBatch_def)
    then show ?thesis by (simp add: nextBatch_def nth_append startCollector_ok) (simp add: startCollector_def)
  qed
  moreover have "\<exists>c < length (collectors ?t). cphase (collectors ?t ! c) = Finished \<and>
      r = batchReport F (int c) (collectors ?t ! c)" if "r \<in> set (outs ?t)" for r
  proof -
    from that inv obtain c where c: "c < ?n" "cphase (collectors s ! c) = Finished"
      "r = batchReport F (int c) (collectors s ! c)" by (auto simp: chan_inv_def nextBatch_def)
    with old show ?thesis by (intro exI [of _ c]) (simp add: nextBatch_def)
  qed
  moreover have "current ?t + 1 = int (length (collectors ?t))" "distinct (map Batch (outs ?t))"
    using inv by (auto simp: chan_inv_def nextBatch_def)
  ultimately show ?thesis unfolding chan_inv_def by blast
qed

lemma chan_step:
  assumes inv: "chan_inv F k s" and step: "chanStep F k a s = Some t"
  shows "chan_inv F k t"
proof (cases a)
  case (Deliver b)
  with step show ?thesis
    by (auto split: if_splits cphase.splits intro: chan_inv_deliver [OF inv])
next
  case (StationQuit b i)
  with step obtain u where u: "takeQuit s = Some u" "onCollector b (giveUp i) u = Some t"
    by (auto simp: bind_eq_Some_conv)
  show ?thesis by (rule chan_inv_collector [OF chan_inv_quit [OF u(1) inv] u(2)]) (rule giveUp_ok)
next
  case (CollectorQuit b)
  with step obtain u where u: "takeQuit s = Some u" "onCollector b leave u = Some t"
    by (auto simp: bind_eq_Some_conv)
  show ?thesis by (rule chan_inv_collector [OF chan_inv_quit [OF u(1) inv] u(2)]) (rule leave_ok)
next
  case LoopQuit
  with step obtain u where u: "takeQuit s = Some u" and t: "t = u\<lparr>looping := False\<rparr>"
    by (auto split: if_splits)
  from chan_inv_quit [OF u inv] show ?thesis by (simp add: t chan_inv_def)
next
  case Stamp
  with step show ?thesis by (auto intro: chan_inv_next [OF inv] split: if_splits)
next
  case SendQuit
  with step inv show ?thesis by (auto simp: chan_inv_def)
qed (use step in \<open>auto intro: chan_inv_collector [OF inv _ respond_ok]
       chan_inv_collector [OF inv _ receive_ok] chan_inv_collector [OF inv _ stop_ok]\<close>)

interpretation channel_agg: invariant "chanInit F k" "chanStep F k" "chan_inv F k"
proof
  fix s assume "chanInit F k s"
  then show "chan_inv F k s"
    by (simp add: chanInit_def channelAggregator_def chan_inv_def startCollector_ok)
       (simp add: startCollector_def)
next
  fix s a t assume "chan_inv F k s" "chanStep F k a s = Some t"
  then show "chan_inv F k t" by (rule chan_step)
qed

text \<open>A station's goroutine that has its response is never blocked: \<open>responseChan\<close> has room.\<close>

lemma respond_never_blocks:
  assumes "reachable (chanInit F k) (chanStep F k) s" and "b < length (collectors s)"
    and "i \<in> set (asked (collectors s ! b))"
  shows "chanStep F k (Respond b i v) s \<noteq> None"
proof -
  from channel_agg.reachable_inv [OF assms(1)] assms(2)
  have "collector_ok F k b (collectors s ! b)" by (simp add: chan_inv_def)
  moreover from assms(3) obtain m where "length (asked (collectors s ! b)) = Suc m"
    by (cases "asked (collectors s ! b)") auto
  ultimately have "length (responseChan (collectors s ! b)) < k"
    by (auto simp: collector_ok_def)
  with assms(2,3) show ?thesis by (simp add: onCollector_def respond_def)
qed

text \<open>C36. The channel-based aggregator reports no batch twice, and a report is the average of the
  observations among the first answers the stations gave for that batch, over no other batch,
  and is sent only when the period of the batch has ended.\<close>

theorem channel_reports_averages:
  assumes "reachable (chanInit F k) (chanStep F k) s"
  shows "distinct (map Batch (outs s)) \<and>
    (\<forall>r. r \<in> set (outs s) \<longrightarrow> (\<exists>b n. int b < current s \<and>
       r = \<lparr>Val = average F (filter (\<lambda>v. \<not> isNaN F v) (take n (answered (collectors s ! b)))),
            Id = 0, Batch = int b\<rparr>))"
proof -
  have inv: "chan_inv F k s" by (rule channel_agg.reachable_inv [OF assms])
  have "\<exists>b n. int b < current s \<and>
       r = \<lparr>Val = average F (filter (\<lambda>v. \<not> isNaN F v) (take n (answered (collectors s ! b)))),
            Id = 0, Batch = int b\<rparr>" if "r \<in> set (outs s)" for r
  proof -
    from inv that obtain b where b: "b < length (collectors s)"
      "cphase (collectors s ! b) = Finished" "r = batchReport F (int b) (collectors s ! b)"
      by (auto simp: chan_inv_def)
    with inv have "Suc b < length (collectors s)"
      and "answered (collectors s ! b)
             = received (collectors s ! b) @ responseChan (collectors s ! b)"
      by (auto simp: chan_inv_def collector_ok_def)
    with inv b(3) show ?thesis
      by (intro exI [of _ b] exI [of _ "length (received (collectors s ! b))"])
         (auto simp: chan_inv_def batchReport_def observations_def)
  qed
  with inv show ?thesis by (auto simp: chan_inv_def)
qed

theorem channel_reports_averages_witness:
  "\<exists>s. reachable (chanInit intFloat 2) (chanStep intFloat 2) s \<and>
     outs s = [\<lparr>Val = Some 4, Id = 0, Batch = 1\<rparr>, \<lparr>Val = Some 20, Id = 0, Batch = 0\<rparr>] \<and>
     distinct (map Batch (outs s))"
proof -
  let ?as = "[Respond 0 1 (Some 20), Receive 0, Stamp, Respond 0 0 (Some 10), SeeSignal 0,
              Respond 1 0 (Some 4), Receive 1, Stamp, SeeSignal 1, Deliver 1, Deliver 0]"
  have "case run_actions (chanStep intFloat 2) ?as (channelAggregator intFloat 2) of
     None \<Rightarrow> False
   | Some s \<Rightarrow> outs s
       = [\<lparr>Val = Some 4, Id = 0, Batch = 1\<rparr>, \<lparr>Val = Some 20, Id = 0, Batch = 0\<rparr>]" by code_simp
  then obtain s where
    run: "run_actions (chanStep intFloat 2) ?as (channelAggregator intFloat 2) = Some s"
    and out: "outs s = [\<lparr>Val = Some 4, Id = 0, Batch = 1\<rparr>, \<lparr>Val = Some 20, Id = 0, Batch = 0\<rparr>]"
    by (auto simp del: run_actions.simps split: option.splits)
  have r: "reachable (chanInit intFloat 2) (chanStep intFloat 2) s"
    by (rule reachable_run [OF reach_init run]) (simp add: chanInit_def)
  from channel_reports_averages [OF r] r out show ?thesis by auto
qed

section \<open>Stopping\<close>

text \<open>
  README.md asks the aggregator to terminate on a signal on \<open>quit\<close>. The signal is a single value,
  and a goroutine of a batch may take it: then the main loop never returns.
\<close>

lemma loops_on:
  assumes "looping s" and "quits s = 0" and "SendQuit \<notin> set as"
    and "run_actions (chanStep F k) as s = Some t"
  shows "looping t \<and> quits t = 0"
proof -
  have one: "looping u' \<and> quits u' = 0"
    if "looping u" "quits u = 0" "a \<noteq> SendQuit" "chanStep F k a u = Some u'" for u u' a
    using that by (cases a) (auto simp: takeQuit_def onCollector_def nextBatch_def split: if_splits cphase.splits)
  from assms show ?thesis
  proof (induction as arbitrary: s)
    case (Cons a as)
    then obtain u where u: "chanStep F k a s = Some u" "run_actions (chanStep F k) as u = Some t"
      by (auto split: option.splits)
    from Cons.prems(3) have "a \<noteq> SendQuit" "SendQuit \<notin> set as" by auto
    with one [OF Cons.prems(1,2) _ u(1)] have "looping u" "quits u = 0" by auto
    from Cons.IH [OF this \<open>SendQuit \<notin> set as\<close> u(2)] show ?case .
  qed simp
qed

text \<open>The channel-based aggregator can lose the quit signal to the collector of an ended batch,
  which waits for the reader of \<open>out\<close>: however the system is scheduled afterwards, its main loop
  goes on and starts new batches, and cannot return.\<close>

theorem channel_loses_quit:
  assumes "run_actions (chanStep F k) [Stamp, SeeSignal 0, SendQuit, CollectorQuit 0]
             (channelAggregator F k) = Some s"
    and "SendQuit \<notin> set as" and "run_actions (chanStep F k) as s = Some t"
  shows "looping t \<and> chanStep F k LoopQuit t = None \<and> chanStep F k Stamp t \<noteq> None"
proof -
  from assms(1) have "looping s \<and> quits s = 0"
    by (auto simp: channelAggregator_def nextBatch_def onCollector_def stopCollecting_def
        startCollector_def takeQuit_def leave_def)
  with loops_on [of s as F k t] assms(2,3) have "looping t" "quits t = 0" by auto
  then show ?thesis by (simp add: takeQuit_def)
qed

theorem channel_loses_quit_witness:
  "\<exists>s t. run_actions (chanStep intFloat 2) [Stamp, SeeSignal 0, SendQuit, CollectorQuit 0]
            (channelAggregator intFloat 2) = Some s \<and>
     run_actions (chanStep intFloat 2) [Stamp, SeeSignal 1, Deliver 1] s = Some t \<and>
     looping t \<and> chanStep intFloat 2 LoopQuit t = None"
proof -
  let ?st = "chanStep intFloat 2"
  have "case run_actions ?st [Stamp, SeeSignal 0, SendQuit, CollectorQuit 0]
          (channelAggregator intFloat 2) of
     None \<Rightarrow> False
   | Some s \<Rightarrow> (case run_actions ?st [Stamp, SeeSignal 1, Deliver 1] s of
        None \<Rightarrow> False | Some t \<Rightarrow> True)" by code_simp
  then obtain s t where
    r: "run_actions ?st [Stamp, SeeSignal 0, SendQuit, CollectorQuit 0]
          (channelAggregator intFloat 2) = Some s"
       "run_actions ?st [Stamp, SeeSignal 1, Deliver 1] s = Some t"
    by (auto simp del: run_actions.simps split: option.splits)
  from channel_loses_quit [OF r(1) _ r(2)] r show ?thesis by auto
qed

text \<open>
  When the main loop does return, nobody closes the \<open>signal\<close> of the running batch, and a
  collector does not look at \<open>quit\<close> while it collects: its goroutine stays for ever.
\<close>

definition stuck :: "nat \<Rightarrow> 'f channelAgg \<Rightarrow> bool" where
  "stuck b s \<longleftrightarrow> \<not> looping s \<and> b < length (collectors s) \<and>
     cphase (collectors s ! b) = Collecting \<and> \<not> signalled (collectors s ! b)"

lemma collector_leaks:
  "stuck b s \<Longrightarrow> run_actions (chanStep F k) as s = Some t \<Longrightarrow> stuck b t"
proof (induction as arbitrary: s)
  case (Cons a as)
  then obtain u where u: "chanStep F k a s = Some u" "run_actions (chanStep F k) as u = Some t"
    by (auto split: option.splits)
  from Cons.prems(1) u(1) have "stuck b u"
    by (cases a) (auto simp: stuck_def onCollector_def takeQuit_def nth_list_update respond_def
        giveUp_def receive_def stopCollecting_def leave_def Let_def bind_eq_Some_conv
        split: if_splits cphase.splits list.splits)
  with Cons.IH u(2) show ?case by blast
qed simp

end
