(* ===== verification/WeatherRPC.thy ===== *)
theory WeatherRPC
  imports WeatherStations GoStrings "HOL-Library.Signed_Division"
begin

text \<open>
  ws/ws.go and ws/setup.go: the weather stations and the function \<open>getWeatherData\<close> through which
  an aggregator asks them, with the sockets and the default server of net/rpc behind it. What a
  handler draws at random, what the clock shows and whether a connection breaks are arguments; so
  are the operations on floating-point numbers. Durations are counted in nanoseconds.
\<close>

section \<open>A weather station\<close>

record 'f stationFloats = "'f floatOps" +
  ofInt :: "int \<Rightarrow> 'f"
  times :: "'f \<Rightarrow> 'f \<Rightarrow> 'f"
  minus :: "'f \<Rightarrow> 'f \<Rightarrow> 'f"
  less :: "'f \<Rightarrow> 'f \<Rightarrow> bool"
  truncated :: "'f \<Rightarrow> int"
  margin :: 'f

record 'f WeatherStation =
  stationId :: int
  averagePeriod :: 'f
  testName :: string

text \<open>What one call of the handler draws: \<open>Intn(10)\<close>, \<open>Intn(2)\<close>, \<open>Float64()\<close>, \<open>Intn(100)\<close>.\<close>

record 'f draws =
  random :: int
  before :: int
  fraction :: 'f
  degrees :: int

definition second :: int where "second = 10 ^ 9"

definition stationDelay :: "'f stationFloats \<Rightarrow> 'f \<Rightarrow> 'f draws \<Rightarrow> int" where
  "stationDelay F avg d =
     (let delay = truncated F (times F (times F (fraction d) (minus F avg (margin F))) (ofInt F second)) in
      if before d = 1 then delay
      else signed_take_bit 63 (delay +
        truncated F (times F (add F avg (times F (ofInt F 2) (margin F))) (ofInt F second))))"

text \<open>\<open>None\<close>: the handler hangs. Otherwise it sleeps for the delay and sets the reply.\<close>

definition GetWeatherRPCHandler ::
  "'f stationFloats \<Rightarrow> 'f WeatherStation \<Rightarrow> 'f draws \<Rightarrow> int \<Rightarrow> (int \<times> 'f WeatherReport) option" where
  "GetWeatherRPCHandler F t d argBatch =
     (if random d = 6 then None
      else Some (stationDelay F (averagePeriod t) d,
        \<lparr>Val = ofInt F (degrees d), Id = stationId t, Batch = argBatch\<rparr>))"

section \<open>The sockets and the RPC server\<close>

text \<open>
  All the listeners serve the default HTTP mux and with it the one default RPC server, in which a
  service is registered under the name of its type. \<open>rpc.Register\<close> of a name that is taken is an error
  and changes nothing.
\<close>

record 'f rpcNetwork =
  service :: "'f WeatherStation option"
  listeners :: "string list"

definition registerStation :: "'f WeatherStation \<Rightarrow> 'f rpcNetwork \<Rightarrow> 'f rpcNetwork \<times> bool" where
  "registerStation t n =
     (case service n of None \<Rightarrow> (n\<lparr>service := Some t\<rparr>, True) | Some _ \<Rightarrow> (n, False))"

definition sockAddr :: "string \<Rightarrow> int \<Rightarrow> string" where
  "sockAddr test i = ''/tmp/'' @ filter (\<lambda>c. c \<noteq> CHR ''/'') test @ ''_'' @ Itoa i @ ''.sock''"

definition createStation ::
  "(string \<Rightarrow> bool) \<Rightarrow> 'f \<Rightarrow> string \<Rightarrow> nat \<Rightarrow> 'f rpcNetwork \<Rightarrow> 'f rpcNetwork go" where
  "createStation canListen avg test i n =
     (let n' = fst (registerStation \<lparr>stationId = int i, averagePeriod = avg, testName = test\<rparr> n) in
      if canListen (sockAddr test (int i))
      then Inr (n'\<lparr>listeners := listeners n' @ [sockAddr test (int i)]\<rparr>)
      else Inl (Fatal ''listen error:''))"

definition createWeatherStations ::
  "(string \<Rightarrow> bool) \<Rightarrow> nat \<times> 'f \<times> string \<Rightarrow> 'f rpcNetwork \<Rightarrow> 'f rpcNetwork go" where
  "createWeatherStations canListen test n =
     (case test of (k, avg, name) \<Rightarrow> go_for (createStation canListen avg name) [0..<k] n)"

definition noStations :: "'f rpcNetwork" where
  "noStations = \<lparr>service = None, listeners = []\<rparr>"

definition createAll ::
  "(string \<Rightarrow> bool) \<Rightarrow> (nat \<times> 'f \<times> string) list \<Rightarrow> 'f rpcNetwork go" where
  "createAll canListen tests = go_for (createWeatherStations canListen) tests noStations"

section \<open>Asking for data\<close>

record weatherCallReceipt =
  receiptId :: int
  receiptBatch :: int

record 'f internalWeatherCallReport =
  requestedAtTime :: int
  returnedAtTime :: int
  measuredValue :: 'f
  callId :: int
  callBatch :: int
  measuredDelay :: int

text \<open>The back channels to the tester, both of the same capacity.\<close>

record 'f backChannels =
  backChannelValues :: "'f internalWeatherCallReport list"
  backChannelRPCReceipts :: "weatherCallReceipt list"

text \<open>A call ends the process, waits, for the tester or for ever, or returns a report.\<close>

datatype 'f weatherCall =
    Fails fault
  | Waits "'f backChannels"
  | Returns "'f WeatherReport" "'f backChannels"

text \<open>The clock as a call reads it: at its begin, before it dials, and after the answer.\<close>

record callClock =
  requestedAt :: int
  startTime :: int
  returnedAt :: int

definition quick :: "'f stationFloats \<Rightarrow> 'f \<Rightarrow> int \<Rightarrow> bool" where
  "quick F avg delay \<longleftrightarrow>
     less F (ofInt F (delay sdiv 1000)) (times F avg (ofInt F (second sdiv 1000)))"

text \<open>
  A call sends its receipt, which waits while the channel is full (\<open>None\<close>), then it asks the
  station. The two halves are apart because other goroutines and the tester run in between.
\<close>

definition sendReceipt :: "nat \<Rightarrow> int \<Rightarrow> int \<Rightarrow> 'f backChannels \<Rightarrow> 'f backChannels option" where
  "sendReceipt cap i b ch =
     (if length (backChannelRPCReceipts ch) \<ge> cap then None
      else Some (ch\<lparr>backChannelRPCReceipts :=
        backChannelRPCReceipts ch @ [\<lparr>receiptId = i, receiptBatch = b\<rparr>]\<rparr>))"

definition askStation ::
  "'f stationFloats \<Rightarrow> nat \<Rightarrow> 'f \<Rightarrow> string \<Rightarrow> 'f rpcNetwork \<Rightarrow> bool \<Rightarrow> 'f draws \<Rightarrow> callClock \<Rightarrow>
     int \<Rightarrow> int \<Rightarrow> 'f backChannels \<Rightarrow> 'f weatherCall" where
  "askStation F cap avg test n broken d clock i b ch =
     (if sockAddr test i \<notin> set (listeners n) then Fails (Fatal ''dialing:'')
      else
        case (if broken then None else service n) of
          None \<Rightarrow> Fails (Fatal ''getWeather error:'')
        | Some t \<Rightarrow>
           (case GetWeatherRPCHandler F t d b of
              None \<Rightarrow> Waits ch
            | Some (slept, reply) \<Rightarrow>
               let delay = returnedAt clock - startTime clock;
                 report = \<lparr>requestedAtTime = requestedAt clock, returnedAtTime = returnedAt clock,
                   measuredValue = Val reply, callId = i, callBatch = b, measuredDelay = delay\<rparr>;
                 answer = \<lparr>Val = Val reply, Id = i, Batch = b\<rparr> in
               if quick F avg delay then
                 (if length (backChannelValues ch) \<ge> cap then Waits ch
                  else Returns answer (ch\<lparr>backChannelValues := backChannelValues ch @ [report]\<rparr>))
               else Returns answer ch))"

definition getWeatherData ::
  "'f stationFloats \<Rightarrow> nat \<Rightarrow> 'f \<Rightarrow> string \<Rightarrow> 'f rpcNetwork \<Rightarrow> bool \<Rightarrow> 'f draws \<Rightarrow> callClock \<Rightarrow>
     int \<Rightarrow> int \<Rightarrow> 'f backChannels \<Rightarrow> 'f weatherCall" where
  "getWeatherData F cap avg test n broken d clock i b ch =
     (case sendReceipt cap i b ch of
        None \<Rightarrow> Waits ch
      | Some ch' \<Rightarrow> askStation F cap avg test n broken d clock i b ch')"

section \<open>Which station answers\<close>

lemma service_create:
  assumes "createStation canListen avg test i n = Inr n'"
  shows "service n = Some t \<Longrightarrow> service n' = Some t"
    and "service n = None \<Longrightarrow>
      service n' = Some \<lparr>stationId = int i, averagePeriod = avg, testName = test\<rparr>"
    and "set (listeners n') = insert (sockAddr test (int i)) (set (listeners n))"
  using assms by (auto simp: createStation_def registerStation_def Let_def split: if_splits option.splits)

lemma createStations_effect:
  assumes "go_for (createStation canListen avg test) [0..<k] n = Inr n'"
  shows "service n = Some t \<Longrightarrow> service n' = Some t"
    and "service n = None \<Longrightarrow> 0 < k \<Longrightarrow>
      service n' = Some \<lparr>stationId = 0, averagePeriod = avg, testName = test\<rparr>"
    and "set (listeners n') = set (listeners n) \<union> (\<lambda>i. sockAddr test (int i)) ` {..<k}"
proof -
  have "(\<forall>t. service n = Some t \<longrightarrow> service n' = Some t) \<and>
    (service n = None \<longrightarrow> 0 < k \<longrightarrow>
      service n' = Some \<lparr>stationId = 0, averagePeriod = avg, testName = test\<rparr>) \<and>
    set (listeners n') = set (listeners n) \<union> (\<lambda>i. sockAddr test (int i)) ` {..<k}"
    using assms
  proof (induction k arbitrary: n')
    case (Suc k)
    from Suc.prems obtain m where m: "go_for (createStation canListen avg test) [0..<k] n = Inr m"
      "createStation canListen avg test k m = Inr n'"
      by (auto simp: go_for_append split: sum.splits)
    note ih = Suc.IH [OF m(1)] and last = service_create [OF m(2)]
    have "service n' = Some \<lparr>stationId = 0, averagePeriod = avg, testName = test\<rparr>"
      if "service n = None"
    proof (cases "k = 0")
      case True
      with m(1) that last(2) show ?thesis by simp
    next
      case False
      with that ih last(1) show ?thesis by simp
    qed
    moreover have "set (listeners n') = set (listeners n) \<union> (\<lambda>i. sockAddr test (int i)) ` {..<Suc k}"
      using ih last(3) by (simp add: lessThan_Suc)
    ultimately show ?case using ih last(1) by simp
  qed simp
  then show "service n = Some t \<Longrightarrow> service n' = Some t"
    and "service n = None \<Longrightarrow> 0 < k \<Longrightarrow>
      service n' = Some \<lparr>stationId = 0, averagePeriod = avg, testName = test\<rparr>"
    and "set (listeners n') = set (listeners n) \<union> (\<lambda>i. sockAddr test (int i)) ` {..<k}" by blast+
qed

lemma createWeatherStations_tuple:
  "createWeatherStations canListen (k, avg, name) n = go_for (createStation canListen avg name) [0..<k] n"
  by (simp add: createWeatherStations_def)

lemma createTests_effect:
  "go_for (createWeatherStations canListen) tests n = Inr n' \<Longrightarrow>
    (\<forall>t. service n = Some t \<longrightarrow> service n' = Some t) \<and>
    set (listeners n) \<subseteq> set (listeners n') \<and>
    (\<forall>(k, avg, name) \<in> set tests. \<forall>i < k. sockAddr name (int i) \<in> set (listeners n'))"
proof (induction tests arbitrary: n)
  case (Cons test tests)
  obtain k avg name where t: "test = (k, avg, name)" by (cases test) auto
  with Cons.prems obtain m where m: "go_for (createStation canListen avg name) [0..<k] n = Inr m"
    "go_for (createWeatherStations canListen) tests m = Inr n'"
    by (auto simp: createWeatherStations_tuple split: sum.splits)
  from createStations_effect [OF m(1)] Cons.IH [OF m(2)] t show ?case by auto
qed simp

lemma createAll_effect:
  assumes "createAll canListen ((k0, avg0, name0) # rest) = Inr n" and "0 < k0"
  shows "service n = Some \<lparr>stationId = 0, averagePeriod = avg0, testName = name0\<rparr>"
    and "(k, avg, name) \<in> set ((k0, avg0, name0) # rest) \<Longrightarrow> i < k \<Longrightarrow>
      sockAddr name (int i) \<in> set (listeners n)"
proof -
  from assms(1) obtain m where m: "go_for (createStation canListen avg0 name0) [0..<k0] noStations = Inr m"
    "go_for (createWeatherStations canListen) rest m = Inr n"
    by (auto simp: createAll_def createWeatherStations_tuple split: sum.splits)
  from createStations_effect(2) [OF m(1) _ assms(2)] createTests_effect [OF m(2)]
  show "service n = Some \<lparr>stationId = 0, averagePeriod = avg0, testName = name0\<rparr>"
    by (simp add: noStations_def)
  show "(k, avg, name) \<in> set ((k0, avg0, name0) # rest) \<Longrightarrow> i < k \<Longrightarrow>
      sockAddr name (int i) \<in> set (listeners n)"
    using createTests_effect [OF assms(1) [unfolded createAll_def]] by blast
qed

text \<open>C40. Every request is answered by the first station of the first test. Whatever tests have
  created stations, with whatever numbers and periods: asking for the data of any station of any
  of them reaches a listener, but the service behind it is station 0 of the first test, with the
  delays of that test's period. No call fails; one that draws 6 hangs; every other one returns the
  drawn temperature under the identifier and the batch that were asked for, and is recorded for
  the tester with its receipt, and with its value when it was quick.\<close>

theorem one_station_answers:
  assumes "createAll canListen ((k0, avg0, name0) # rest) = Inr n" and "0 < k0"
    and "(k, avg, name) \<in> set ((k0, avg0, name0) # rest)" and "i < k"
    and "length (backChannelRPCReceipts ch) < cap" and "length (backChannelValues ch) < cap"
  shows "service n = Some \<lparr>stationId = 0, averagePeriod = avg0, testName = name0\<rparr> \<and>
    (let receipts = backChannelRPCReceipts ch @ [\<lparr>receiptId = int i, receiptBatch = b\<rparr>];
       delay = returnedAt clock - startTime clock;
       report = \<lparr>requestedAtTime = requestedAt clock, returnedAtTime = returnedAt clock,
         measuredValue = ofInt F (degrees d), callId = int i, callBatch = b, measuredDelay = delay\<rparr> in
     getWeatherData F cap avg name n False d clock (int i) b ch =
       (if random d = 6 then Waits (ch\<lparr>backChannelRPCReceipts := receipts\<rparr>)
        else Returns \<lparr>Val = ofInt F (degrees d), Id = int i, Batch = b\<rparr>
          (if quick F avg delay
           then ch\<lparr>backChannelValues := backChannelValues ch @ [report], backChannelRPCReceipts := receipts\<rparr>
           else ch\<lparr>backChannelRPCReceipts := receipts\<rparr>)))"
proof -
  note n = createAll_effect(1) [OF assms(1,2)] createAll_effect(2) [OF assms(1-4)]
  with assms(5,6) show ?thesis
    by (simp add: getWeatherData_def sendReceipt_def askStation_def GetWeatherRPCHandler_def Let_def)
qed

text \<open>Numbers with three decimals for the floating-point ones, and the first and the fourth test
  of ws_test.go. With the longest draws, a request of the second of these tests is answered after
  1.75 seconds, where a station of its own period of 5 seconds would take 10.15.\<close>

definition milliFloat :: "int stationFloats" where
  "milliFloat = \<lparr>zero = 0, add = (+), divide = (\<lambda>x n. x div n), NaN = 0, isNaN = (\<lambda>x. False),
     ofInt = (\<lambda>n. 1000 * n), times = (\<lambda>x y. x * y div 1000), minus = (-), less = (<),
     truncated = (\<lambda>x. x div 1000), margin = 150\<rparr>"

definition twoTests :: "(nat \<times> int \<times> string) list" where
  "twoTests = [(1, 800, ''TestMutexAggregatorTestK1''),
     (3, 5000, ''TestMutexAggregator/TestLongAveragePeriod'')]"

definition longDraws :: "int draws" where
  "longDraws = \<lparr>random = 0, before = 0, fraction = 1000, degrees = 21\<rparr>"

lemma twoTests_created:
  "case createAll (\<lambda>f. True) twoTests of Inl e \<Rightarrow> False | Inr n \<Rightarrow>
     (case service n of None \<Rightarrow> False | Some t \<Rightarrow>
        GetWeatherRPCHandler milliFloat t longDraws 4 =
          Some (1750000000, \<lparr>Val = 21000, Id = 0, Batch = 4\<rparr>)) \<and>
     stationDelay milliFloat 5000 longDraws = 10150000000"
  by code_simp

theorem one_station_answers_witness:
  "case createAll (\<lambda>f. True) twoTests of Inl e \<Rightarrow> False | Inr n \<Rightarrow>
     (case service n of None \<Rightarrow> False | Some t \<Rightarrow> stationId t = 0 \<and> averagePeriod t = 800) \<and>
     getWeatherData milliFloat 30 5000 ''TestMutexAggregator/TestLongAveragePeriod'' n False longDraws
       \<lparr>requestedAt = 0, startTime = 10, returnedAt = 1750000500\<rparr> 2 4
       \<lparr>backChannelValues = [], backChannelRPCReceipts = []\<rparr> =
     Returns \<lparr>Val = 21000, Id = 2, Batch = 4\<rparr>
       \<lparr>backChannelValues = [\<lparr>requestedAtTime = 0, returnedAtTime = 1750000500, measuredValue = 21000,
            callId = 2, callBatch = 4, measuredDelay = 1750000490\<rparr>],
        backChannelRPCReceipts = [\<lparr>receiptId = 2, receiptBatch = 4\<rparr>]\<rparr>"
proof -
  from twoTests_created obtain n where n: "createAll (\<lambda>f. True) twoTests = Inr n"
    by (auto split: sum.splits)
  have q: "quick milliFloat 5000 1750000490" by code_simp
  let ?ch = "\<lparr>backChannelValues = [], backChannelRPCReceipts = []\<rparr> :: int backChannels"
  have "2 < (3 :: nat)" "0 < (1 :: nat)" "length (backChannelRPCReceipts ?ch) < 30"
    "length (backChannelValues ?ch) < 30"
    "(3, 5000, ''TestMutexAggregator/TestLongAveragePeriod'') \<in> set twoTests"
    by (simp_all add: twoTests_def)
  from one_station_answers [OF n [unfolded twoTests_def] this(2) this(5) [unfolded twoTests_def] this(1,3,4),
      of 4 "\<lparr>requestedAt = 0, startTime = 10, returnedAt = 1750000500\<rparr>" milliFloat longDraws]
  show ?thesis unfolding n using q by (simp add: longDraws_def milliFloat_def)
qed

end
