(* ===== verification/WeatherSystem.thy ===== *)
theory WeatherSystem
  imports WeatherRPC WeatherChannels
begin

text \<open>
  The weather system put together: an aggregator asks the stations of ws/ws.go through
  \<open>getWeatherData\<close> of ws/setup.go. Each of its goroutines sends a receipt, waits for its station and
  then for the aggregator, and the tester reads the back channels at any time. What an aggregator
  has to do with this is an interface, the locale \<open>aggregator\<close>, which both of them implement.
\<close>

section \<open>The composition\<close>

text \<open>
  Of the requests of the aggregator, \<open>inCall\<close> have sent their receipt and \<open>toDeliver\<close> have been
  answered; \<open>receipts\<close> are all that were ever sent.
\<close>

record ('s, 'f) weatherSystem =
  aggr :: 's
  chans :: "'f backChannels"
  inCall :: "(int \<times> int) list"
  toDeliver :: "((int \<times> int) \<times> 'f) list"
  receipts :: "(int \<times> int) list"

datatype ('f, 'e, 'm) weatherAction =
    BeginCall int int
  | EndCall int int "'f draws" callClock
  | HandOver 'e int int 'f
  | Main 'm
  | Tester "'f backChannels"

definition validDraws :: "'f draws \<Rightarrow> bool" where
  "validDraws d \<longleftrightarrow> random d \<in> {0..9} \<and> before d \<in> {0..1} \<and> degrees d \<in> {0..99}"

text \<open>
  \<open>pend i b g\<close>: the aggregator in state \<open>g\<close> has a goroutine for station \<open>i\<close> and batch \<open>b\<close>;
  \<open>endS\<close> are the steps that such a goroutine takes with its answer, \<open>mainS\<close> all others. No
  connection between the processes of one machine breaks. The tester takes messages out of the
  back channels and puts some of them back, so a step of it leaves any content.
\<close>

fun weatherStep ::
  "(int \<Rightarrow> int \<Rightarrow> 's \<Rightarrow> bool) \<Rightarrow> ('e \<Rightarrow> int \<Rightarrow> int \<Rightarrow> 'f \<Rightarrow> 's \<Rightarrow> 's option) \<Rightarrow> ('m \<Rightarrow> 's \<Rightarrow> 's option) \<Rightarrow>
     'f stationFloats \<Rightarrow> nat \<Rightarrow> 'f \<Rightarrow> string \<Rightarrow> 'f rpcNetwork \<Rightarrow> ('f, 'e, 'm) weatherAction \<Rightarrow>
     ('s, 'f) weatherSystem \<Rightarrow> ('s, 'f) weatherSystem option" where
  "weatherStep pend endS mainS F cap avg test n (BeginCall i b) s =
     (if pend i b (aggr s) \<and> (i, b) \<notin> set (inCall s) \<and> (i, b) \<notin> fst ` set (toDeliver s)
      then map_option (\<lambda>ch. s\<lparr>chans := ch, inCall := inCall s @ [(i, b)], receipts := receipts s @ [(i, b)]\<rparr>)
             (sendReceipt cap i b (chans s))
      else None)"
| "weatherStep pend endS mainS F cap avg test n (EndCall i b d clock) s =
     (if (i, b) \<in> set (inCall s) \<and> validDraws d
      then (case askStation F cap avg test n False d clock i b (chans s) of
              Returns report ch \<Rightarrow>
                Some (s\<lparr>chans := ch, inCall := remove1 (i, b) (inCall s),
                        toDeliver := toDeliver s @ [((i, b), Val report)]\<rparr>)
            | _ \<Rightarrow> None)
      else None)"
| "weatherStep pend endS mainS F cap avg test n (HandOver e i b v) s =
     (if ((i, b), v) \<in> set (toDeliver s)
      then map_option (\<lambda>g. s\<lparr>aggr := g, toDeliver := remove1 ((i, b), v) (toDeliver s)\<rparr>)
             (endS e i b v (aggr s))
      else None)"
| "weatherStep pend endS mainS F cap avg test n (Main m) s =
     map_option (\<lambda>g. s\<lparr>aggr := g\<rparr>) (mainS m (aggr s))"
| "weatherStep pend endS mainS F cap avg test n (Tester ch) s = Some (s\<lparr>chans := ch\<rparr>)"

definition startWeather :: "'s \<Rightarrow> ('s, 'f) weatherSystem" where
  "startWeather g =
     \<lparr>aggr = g, chans = \<lparr>backChannelValues = [], backChannelRPCReceipts = []\<rparr>,
      inCall = [], toDeliver = [], receipts = []\<rparr>"

definition weatherInit :: "'s \<Rightarrow> ('s, 'f) weatherSystem \<Rightarrow> bool" where
  "weatherInit g s \<longleftrightarrow> s = startWeather g"

section \<open>The interface of an aggregator\<close>

definition temperature :: "'f stationFloats \<Rightarrow> 'f \<Rightarrow> bool" where
  "temperature F v \<longleftrightarrow> (\<exists>m \<in> {0..99}. v = ofInt F m)"

text \<open>The batches that have begun are those up to \<open>begun g\<close>; \<open>got g\<close> are the answers handed over.\<close>

definition weather_inv ::
  "nat \<Rightarrow> (int \<Rightarrow> int \<Rightarrow> 's \<Rightarrow> bool) \<Rightarrow> ('s \<Rightarrow> int) \<Rightarrow> ('s \<Rightarrow> 'f set) \<Rightarrow> ('s \<Rightarrow> bool) \<Rightarrow> 'f stationFloats \<Rightarrow>
     ('s, 'f) weatherSystem \<Rightarrow> bool" where
  "weather_inv k pend begun got sane F s \<longleftrightarrow>
     sane (aggr s) \<and> distinct (receipts s) \<and> distinct (inCall s) \<and> distinct (map fst (toDeliver s)) \<and>
     (\<forall>(i, b) \<in> set (receipts s). 0 \<le> i \<and> i < int k \<and> 0 \<le> b \<and> b \<le> begun (aggr s)) \<and>
     set (inCall s) \<inter> fst ` set (toDeliver s) = {} \<and>
     set (inCall s) \<union> fst ` set (toDeliver s) = {(i, b) \<in> set (receipts s). pend i b (aggr s)} \<and>
     (\<forall>v \<in> snd ` set (toDeliver s) \<union> got (aggr s). temperature F v)"

locale aggregator =
  fixes k :: nat and start :: 's
    and pend :: "int \<Rightarrow> int \<Rightarrow> 's \<Rightarrow> bool"
    and endS :: "'e \<Rightarrow> int \<Rightarrow> int \<Rightarrow> 'f \<Rightarrow> 's \<Rightarrow> 's option"
    and mainS :: "'m \<Rightarrow> 's \<Rightarrow> 's option"
    and begun :: "'s \<Rightarrow> int" and got :: "'s \<Rightarrow> 'f set" and sane :: "'s \<Rightarrow> bool"
  assumes start: "sane start" "got start = {}"
    and pend_bounds: "sane g \<Longrightarrow> pend i b g \<Longrightarrow> 0 \<le> i \<and> i < int k \<and> 0 \<le> b \<and> b \<le> begun g"
    and end_step: "sane g \<Longrightarrow> endS e i b v g = Some h \<Longrightarrow> sane h \<and> begun h = begun g \<and>
      (\<forall>j c. pend j c h \<longleftrightarrow> pend j c g \<and> (j, c) \<noteq> (i, b)) \<and> got h \<subseteq> insert v (got g)"
    and main_step: "sane g \<Longrightarrow> mainS m g = Some h \<Longrightarrow> sane h \<and> begun g \<le> begun h \<and>
      (\<forall>j c. c \<le> begun g \<longrightarrow> pend j c h \<longleftrightarrow> pend j c g) \<and> got h = got g"
begin

abbreviation step where
  "step F cap avg test n \<equiv> weatherStep pend endS mainS F cap avg test n"

abbreviation inv where "inv F \<equiv> weather_inv k pend begun got sane F"

lemma inv_start: "inv F (startWeather start)"
  using start by (simp add: weather_inv_def startWeather_def)

end

lemma distinct_map_remove1:
  "distinct (map f xs) \<Longrightarrow> x \<in> set xs \<Longrightarrow>
    distinct (map f (remove1 x xs)) \<and> f ` set (remove1 x xs) = f ` set xs - {f x}"
  by (induction xs) (auto dest: notin_set_remove1)

lemma askStation_value:
  assumes "askStation F cap avg test n False d clock i b ch = Returns report ch'" and "validDraws d"
  shows "temperature F (Val report) \<and> Id report = i \<and> Batch report = b"
  using assms unfolding askStation_def GetWeatherRPCHandler_def
  by (auto simp: Let_def temperature_def validDraws_def split: if_splits option.splits)


context aggregator
begin

lemma inv_begin:
  assumes inv: "inv F s" and p: "pend i b (aggr s)" "(i, b) \<notin> set (inCall s)" "(i, b) \<notin> fst ` set (toDeliver s)"
  shows "inv F (s\<lparr>chans := ch, inCall := inCall s @ [(i, b)], receipts := receipts s @ [(i, b)]\<rparr>)"
proof -
  from inv have u: "set (inCall s) \<union> fst ` set (toDeliver s) = {(i, b) \<in> set (receipts s). pend i b (aggr s)}"
    and sane: "sane (aggr s)" by (simp_all add: weather_inv_def)
  from u p have new: "(i, b) \<notin> set (receipts s)" by blast
  moreover note pend_bounds [OF sane p(1)]
  moreover have "insert (i, b) (set (inCall s)) \<union> fst ` set (toDeliver s) =
      {(j, c) \<in> insert (i, b) (set (receipts s)). pend j c (aggr s)}" using u p(1) by auto
  ultimately show ?thesis using inv p by (simp add: weather_inv_def ball_Un)
qed

lemma inv_end:
  assumes inv: "inv F s" and c: "(i, b) \<in> set (inCall s)" and v: "temperature F v"
  shows "inv F (s\<lparr>chans := ch, inCall := remove1 (i, b) (inCall s), toDeliver := toDeliver s @ [((i, b), v)]\<rparr>)"
proof -
  from inv have d: "distinct (inCall s)" "set (inCall s) \<inter> fst ` set (toDeliver s) = {}"
    by (simp_all add: weather_inv_def)
  then have r: "set (remove1 (i, b) (inCall s)) = set (inCall s) - {(i, b)}" by simp
  then have "set (remove1 (i, b) (inCall s)) \<union> insert (i, b) (fst ` set (toDeliver s)) =
      set (inCall s) \<union> fst ` set (toDeliver s)" using c by blast
  moreover have "set (remove1 (i, b) (inCall s)) \<inter> insert (i, b) (fst ` set (toDeliver s)) = {}"
    using d(2) r by blast
  moreover have "(i, b) \<notin> fst ` set (toDeliver s)" using d(2) c by blast
  ultimately show ?thesis using inv v by (simp add: weather_inv_def del: set_remove1_eq)
qed

lemma inv_hand:
  assumes inv: "inv F s" and t: "((i, b), v) \<in> set (toDeliver s)" and e: "endS e i b v (aggr s) = Some g"
  shows "inv F (s\<lparr>aggr := g, toDeliver := remove1 ((i, b), v) (toDeliver s)\<rparr>)"
proof -
  let ?d = "remove1 ((i, b), v) (toDeliver s)"
  from inv have c: "sane (aggr s)" "distinct (map fst (toDeliver s))"
    "set (inCall s) \<inter> fst ` set (toDeliver s) = {}"
    "set (inCall s) \<union> fst ` set (toDeliver s) = {(i, b) \<in> set (receipts s). pend i b (aggr s)}"
    "\<forall>v \<in> snd ` set (toDeliver s) \<union> got (aggr s). temperature F v" by (simp_all add: weather_inv_def)
  note g = end_step [OF c(1) e]
  from distinct_map_remove1 [OF c(2) t]
  have d: "distinct (map fst ?d)" "fst ` set ?d = fst ` set (toDeliver s) - {(i, b)}" by simp_all
  have "(i, b) \<in> fst ` set (toDeliver s)" using t by force
  with c(3) have n: "(i, b) \<notin> set (inCall s)" by blast
  have "set (inCall s) \<inter> fst ` set ?d = {}" using c(3) unfolding d(2) by blast
  moreover have "set (inCall s) \<union> fst ` set ?d = {(i, b) \<in> set (receipts s). pend i b g}"
  proof -
    have "{(i, b) \<in> set (receipts s). pend i b g} = {(i, b) \<in> set (receipts s). pend i b (aggr s)} - {(i, b)}"
      using g by auto
    then show ?thesis unfolding d(2) c(4) [symmetric] using n by blast
  qed
  moreover have "\<forall>v \<in> snd ` set ?d \<union> got g. temperature F v"
  proof
    fix x assume "x \<in> snd ` set ?d \<union> got g"
    moreover have "snd ` set ?d \<subseteq> snd ` set (toDeliver s)" by (intro image_mono set_remove1_subset)
    moreover have "v \<in> snd ` set (toDeliver s)" using t by force
    ultimately show "temperature F x" using c(5) g by blast
  qed
  ultimately show ?thesis using inv d(1) g by (simp add: weather_inv_def)
qed

lemma inv_main:
  assumes inv: "inv F s" and m: "mainS m (aggr s) = Some g"
  shows "inv F (s\<lparr>aggr := g\<rparr>)"
proof -
  from inv have c: "sane (aggr s)" "\<forall>(i, b) \<in> set (receipts s). 0 \<le> i \<and> i < int k \<and> 0 \<le> b \<and> b \<le> begun (aggr s)"
    by (simp_all add: weather_inv_def)
  note g = main_step [OF c(1) m]
  have "{(i, b) \<in> set (receipts s). pend i b g} = {(i, b) \<in> set (receipts s). pend i b (aggr s)}"
    using c(2) g by blast
  moreover have "\<forall>(i, b) \<in> set (receipts s). 0 \<le> i \<and> i < int k \<and> 0 \<le> b \<and> b \<le> begun g"
    using c(2) g by (auto intro: order_trans)
  ultimately show ?thesis using inv g by (simp add: weather_inv_def)
qed

lemma inv_step:
  assumes inv: "inv F s" and step: "step F cap avg test n a s = Some t"
  shows "inv F t"
proof (cases a)
  case (BeginCall i b)
  with step inv_begin [OF inv] show ?thesis by (auto split: if_splits)
next
  case (EndCall i b d clock)
  with step obtain report ch where g: "(i, b) \<in> set (inCall s)" "validDraws d"
    "askStation F cap avg test n False d clock i b (chans s) = Returns report ch"
    "t = s\<lparr>chans := ch, inCall := remove1 (i, b) (inCall s), toDeliver := toDeliver s @ [((i, b), Val report)]\<rparr>"
    by (auto split: if_splits weatherCall.splits)
  from askStation_value [OF g(3,2)] inv_end [OF inv g(1)] show ?thesis unfolding g(4) by blast
next
  case (HandOver e i b v)
  with step inv_hand [OF inv] show ?thesis by (auto split: if_splits)
next
  case (Main m)
  with step inv_main [OF inv] show ?thesis by auto
next
  case (Tester ch)
  with step have "t = s\<lparr>chans := ch\<rparr>" by simp
  with inv show ?thesis by (simp add: weather_inv_def)
qed

end

sublocale aggregator \<subseteq> calls: invariant "weatherInit start" "step F cap avg test n" "inv F"
  by unfold_locales (auto simp: weatherInit_def inv_start intro: inv_step)

text \<open>The steps that the aggregator takes by itself.\<close>

fun ownStep ::
  "('e \<Rightarrow> int \<Rightarrow> int \<Rightarrow> 'f \<Rightarrow> 's \<Rightarrow> 's option) \<Rightarrow> ('m \<Rightarrow> 's \<Rightarrow> 's option) \<Rightarrow>
     ('e \<times> int \<times> int \<times> 'f) + 'm \<Rightarrow> 's \<Rightarrow> 's option" where
  "ownStep endS mainS (Inl (e, i, b, v)) g = endS e i b v g"
| "ownStep endS mainS (Inr m) g = mainS m g"

sublocale aggregator \<subseteq> runs: simulation "weatherInit start" "step F cap avg test n"
  "\<lambda>g. g = start" "ownStep endS mainS" "\<lambda>s g. aggr s = g"
proof unfold_locales
  fix s assume "weatherInit start s"
  then show "\<exists>g. g = start \<and> aggr s = g" by (simp add: weatherInit_def startWeather_def)
next
  fix s g a s' assume g: "aggr s = g" and step: "step F cap avg test n a s = Some s'"
  show "aggr s' = g \<or> (\<exists>b g'. ownStep endS mainS b g = Some g' \<and> aggr s' = g')"
  proof (cases a)
    case (HandOver e i b v)
    with g step have "ownStep endS mainS (Inl (e, i, b, v)) g = Some (aggr s')" by (auto split: if_splits)
    then show ?thesis by blast
  next
    case (Main m)
    with g step have "ownStep endS mainS (Inr m) g = Some (aggr s')" by auto
    then show ?thesis by blast
  qed (use g step in \<open>auto split: if_splits weatherCall.splits\<close>)
qed


section \<open>The aggregator with a mutex\<close>

definition mutexPend :: "int \<Rightarrow> int \<Rightarrow> 'f mutexAgg \<Rightarrow> bool" where
  "mutexPend i b g \<longleftrightarrow> (i, b) \<in> set (requests g)"

definition mutexEnd ::
  "'f stationFloats \<Rightarrow> nat \<Rightarrow> unit \<Rightarrow> int \<Rightarrow> int \<Rightarrow> 'f \<Rightarrow> 'f mutexAgg \<Rightarrow> 'f mutexAgg option" where
  "mutexEnd F k e i b v g = mutexStep (floatOps.truncate F) k (Answer i b v) g"

fun isAnswer :: "'f aggAction \<Rightarrow> bool" where
  "isAnswer (Answer i b v) = True"
| "isAnswer _ = False"

definition mutexMain :: "'f stationFloats \<Rightarrow> nat \<Rightarrow> 'f aggAction \<Rightarrow> 'f mutexAgg \<Rightarrow> 'f mutexAgg option" where
  "mutexMain F k a g = (if isAnswer a then None else mutexStep (floatOps.truncate F) k a g)"

text \<open>The last batch whose goroutines have been started, and what they have delivered.\<close>

definition askedBatch :: "'f mutexAgg \<Rightarrow> int" where
  "askedBatch g = batch g - (if mphase g = NewBatch then 1 else 0)"

definition mutexGot :: "'f mutexAgg \<Rightarrow> 'f set" where
  "mutexGot g = (\<lambda>(c, b, v). v) ` set (arrivals g)"

definition mutexSane :: "nat \<Rightarrow> 'f mutexAgg \<Rightarrow> bool" where
  "mutexSane k g \<longleftrightarrow> distinct (requests g) \<and> 0 \<le> batch g \<and>
     (\<forall>(i, b) \<in> set (requests g). 0 \<le> i \<and> i < int k \<and> 0 \<le> b \<and> b \<le> askedBatch g)"

lemma mutex_main_step:
  assumes "mutexMain F k a g = Some h"
  shows "arrivals h = arrivals g \<and> 0 \<le> batch h - batch g \<and>
    (requests h = requests g \<and> askedBatch h = askedBatch g \<or>
     askedBatch g = batch g - 1 \<and> askedBatch h = batch g \<and>
     requests h = requests g @ map (\<lambda>i. (int i, batch g)) [0..<k])"
  using assms by (cases a) (auto simp: mutexMain_def askedBatch_def newBatch_def split: phase.splits)

lemma mutex_main_law:
  assumes "mutexSane k g" and "mutexMain F k a g = Some h"
  shows "mutexSane k h \<and> askedBatch g \<le> askedBatch h \<and>
    (\<forall>j c. c \<le> askedBatch g \<longrightarrow> mutexPend j c h \<longleftrightarrow> mutexPend j c g) \<and> mutexGot h = mutexGot g"
proof -
  from mutex_main_step [OF assms(2)] consider
    (same) "requests h = requests g" "askedBatch h = askedBatch g" "arrivals h = arrivals g" "batch g \<le> batch h"
  | (new) "askedBatch g = batch g - 1" "askedBatch h = batch g" "arrivals h = arrivals g" "batch g \<le> batch h"
      "requests h = requests g @ map (\<lambda>i. (int i, batch g)) [0..<k]" by force
  then show ?thesis
  proof cases
    case same
    with assms(1) show ?thesis by (auto simp: mutexSane_def mutexPend_def mutexGot_def)
  next
    case new
    from assms(1) new(1) have old: "\<forall>(i, b) \<in> set (requests g). 0 \<le> i \<and> i < int k \<and> 0 \<le> b \<and> b \<le> batch g - 1"
      "distinct (requests g)" "0 \<le> batch g" by (simp_all add: mutexSane_def)
    from old(1) have "(i, batch g) \<notin> set (requests g)" for i by force
    then have "distinct (requests h)"
      using old(2) by (auto simp: new(5) distinct_map inj_on_def)
    moreover have "\<forall>(i, b) \<in> set (requests h). 0 \<le> i \<and> i < int k \<and> 0 \<le> b \<and> b \<le> batch g"
      using old(1,3) by (auto simp: new(5))
    ultimately show ?thesis
      using new(1-4) old(3) by (auto simp: mutexSane_def mutexPend_def mutexGot_def new(5))
  qed
qed

lemma mutex_end_law:
  assumes "mutexSane k g" and "mutexEnd F k e i b v g = Some h"
  shows "mutexSane k h \<and> askedBatch h = askedBatch g \<and>
    (\<forall>j c. mutexPend j c h \<longleftrightarrow> mutexPend j c g \<and> (j, c) \<noteq> (i, b)) \<and> mutexGot h \<subseteq> insert v (mutexGot g)"
proof -
  from assms(2) have h: "requests h = remove1 (i, b) (requests g)" "arrivals h = arrivals g @ [(batch g, b, v)]"
    "batch h = batch g" "mphase h = mphase g"
    by (auto simp: mutexEnd_def retrieveData_def split: phase.splits if_splits)
  from assms(1) have "distinct (requests g)" by (simp add: mutexSane_def)
  then have "set (requests h) = set (requests g) - {(i, b)}" "distinct (requests h)" by (simp_all add: h(1))
  with assms(1) h(2-4) show ?thesis
    by (auto simp: mutexSane_def mutexPend_def mutexGot_def askedBatch_def)
qed

lemma mutex_pend_law: "mutexSane k g \<Longrightarrow> mutexPend i b g \<Longrightarrow> 0 \<le> i \<and> i < int k \<and> 0 \<le> b \<and> b \<le> askedBatch g"
  by (auto simp: mutexSane_def mutexPend_def)

interpretation mutex_weather: aggregator k "mutexAggregator (floatOps.truncate F) k" mutexPend
  "mutexEnd F k" "mutexMain F k" askedBatch mutexGot "mutexSane k"
proof unfold_locales
  show "mutexSane k (mutexAggregator (floatOps.truncate F) k)"
    by (auto simp: mutexSane_def mutexAggregator_def newBatch_def askedBatch_def distinct_map inj_on_def)
  show "mutexGot (mutexAggregator (floatOps.truncate F) k) = {}"
    by (simp add: mutexGot_def mutexAggregator_def newBatch_def)
qed (rule mutex_pend_law mutex_end_law mutex_main_law; assumption)+


section \<open>The aggregator with collectors\<close>

definition chanPend :: "int \<Rightarrow> int \<Rightarrow> 'f channelAgg \<Rightarrow> bool" where
  "chanPend i b g \<longleftrightarrow> 0 \<le> b \<and> nat b < length (collectors g) \<and> i \<in> set (asked (collectors g ! nat b))"

text \<open>A goroutine with its answer passes it on, or takes a quit signal and drops it.\<close>

definition chanEnd ::
  "'f stationFloats \<Rightarrow> nat \<Rightarrow> bool \<Rightarrow> int \<Rightarrow> int \<Rightarrow> 'f \<Rightarrow> 'f channelAgg \<Rightarrow> 'f channelAgg option" where
  "chanEnd F k passOn i b v g =
     (if b < 0 then None
      else chanStep (floatOps.truncate F) k (if passOn then Respond (nat b) i v else StationQuit (nat b) i) g)"

fun ofStation :: "'f chanAction \<Rightarrow> bool" where
  "ofStation (Respond b i v) = True"
| "ofStation (StationQuit b i) = True"
| "ofStation _ = False"

definition chanMain :: "'f stationFloats \<Rightarrow> nat \<Rightarrow> 'f chanAction \<Rightarrow> 'f channelAgg \<Rightarrow> 'f channelAgg option" where
  "chanMain F k a g = (if ofStation a then None else chanStep (floatOps.truncate F) k a g)"

definition chanGot :: "'f channelAgg \<Rightarrow> 'f set" where
  "chanGot g = (\<Union>c \<in> set (collectors g). set (answered c))"

definition chanSane :: "nat \<Rightarrow> 'f channelAgg \<Rightarrow> bool" where
  "chanSane k g \<longleftrightarrow> current g + 1 = int (length (collectors g)) \<and>
     (\<forall>c \<in> set (collectors g). distinct (asked c) \<and> set (asked c) \<subseteq> {0..<int k})"

text \<open>A step of one collector.\<close>

lemma onCollectorE:
  assumes "onCollector b f g = Some h"
  obtains d where "b < length (collectors g)" "f (collectors g ! b) = Some d"
    "h = g\<lparr>collectors := (collectors g)[b := d]\<rparr>"
  using assms that by (auto simp: onCollector_def split: if_splits)

lemma takeQuit_same: "takeQuit g = Some h \<Longrightarrow> collectors h = collectors g \<and> current h = current g"
  by (auto simp: takeQuit_def split: if_splits)

lemma collector_change:
  assumes sane: "chanSane k g" and h: "collectors h = (collectors g)[b := d]" "current h = current g"
    and b: "b < length (collectors g)"
    and d: "asked d = asked (collectors g ! b)" "answered d = answered (collectors g ! b)"
  shows "chanSane k h \<and> (\<forall>j c. chanPend j c h \<longleftrightarrow> chanPend j c g) \<and> chanGot h = chanGot g"
proof -
  have same: "map asked (collectors h) = map asked (collectors g)"
    "map answered (collectors h) = map answered (collectors g)"
    using b d by (simp_all add: h(1) map_update list_update_same_conv)
  from same(1) have len: "length (collectors h) = length (collectors g)" by (rule map_eq_imp_length_eq)
  have nth: "asked (collectors h ! m) = asked (collectors g ! m)" if "m < length (collectors g)" for m
    using arg_cong [OF same(1), of "\<lambda>xs. xs ! m"] that len by simp
  have "chanSane k h" using sane h(2) len nth by (simp add: chanSane_def all_set_conv_all_nth)
  moreover have "chanPend j c h \<longleftrightarrow> chanPend j c g" for j c using len nth by (auto simp: chanPend_def)
  moreover have "chanGot h = chanGot g"
    using arg_cong [OF same(2), of "\<lambda>xs. \<Union> (set ` set xs)"] by (simp add: chanGot_def)
  ultimately show ?thesis by blast
qed

lemma collector_ends:
  assumes sane: "chanSane k g" and h: "collectors h = (collectors g)[nat b := d]" "current h = current g"
    and b: "0 \<le> b" "nat b < length (collectors g)"
    and d: "asked d = remove1 i (asked (collectors g ! nat b))"
      "set (answered d) \<subseteq> insert v (set (answered (collectors g ! nat b)))"
  shows "chanSane k h \<and> (\<forall>j c. chanPend j c h \<longleftrightarrow> chanPend j c g \<and> (j, c) \<noteq> (i, b)) \<and>
    chanGot h \<subseteq> insert v (chanGot g)"
proof -
  from sane b(2) have c: "distinct (asked (collectors g ! nat b))"
    "set (asked (collectors g ! nat b)) \<subseteq> {0..<int k}" by (simp_all add: chanSane_def)
  then have a: "distinct (asked d)" "set (asked d) = set (asked (collectors g ! nat b)) - {i}"
    by (simp_all add: d(1))
  have sub: "set (collectors h) \<subseteq> insert d (set (collectors g))"
    unfolding h by (rule set_update_subset_insert)
  have "distinct (asked x) \<and> set (asked x) \<subseteq> {0..<int k}" if "x \<in> set (collectors h)" for x
  proof (cases "x = d")
    case True
    with a c(2) show ?thesis by blast
  next
    case False
    with that sub sane show ?thesis by (auto simp: chanSane_def)
  qed
  with sane have "chanSane k h" by (simp add: chanSane_def h)
  moreover have "chanPend j e h \<longleftrightarrow> chanPend j e g \<and> (j, e) \<noteq> (i, b)" for j e
    using b a(2) by (cases "e = b") (auto simp: chanPend_def h(1) nth_list_update nat_eq_iff)
  moreover have "set (answered d) \<subseteq> insert v (chanGot g)"
    using d(2) b(2) nth_mem by (fastforce simp: chanGot_def)
  then have "chanGot h \<subseteq> insert v (chanGot g)" using sub by (force simp: chanGot_def)
  ultimately show ?thesis by blast
qed

lemma chan_end_law:
  assumes "chanSane k g" and "chanEnd F k e i b v g = Some h"
  shows "chanSane k h \<and> current h = current g \<and>
    (\<forall>j c. chanPend j c h \<longleftrightarrow> chanPend j c g \<and> (j, c) \<noteq> (i, b)) \<and> chanGot h \<subseteq> insert v (chanGot g)"
proof -
  from assms(2) have b: "0 \<le> b" by (simp add: chanEnd_def split: if_splits)
  have "\<exists>d. nat b < length (collectors g) \<and> collectors h = (collectors g)[nat b := d] \<and> current h = current g \<and>
    asked d = remove1 i (asked (collectors g ! nat b)) \<and>
    set (answered d) \<subseteq> insert v (set (answered (collectors g ! nat b)))"
  proof (cases e)
    case True
    with assms(2) b have "onCollector (nat b) (respond k i v) g = Some h" by (simp add: chanEnd_def)
    then show ?thesis by (rule onCollectorE) (auto simp: respond_def split: if_splits)
  next
    case False
    with assms(2) b obtain u where u: "takeQuit g = Some u" "onCollector (nat b) (giveUp i) u = Some h"
      by (auto simp: chanEnd_def bind_eq_Some_conv)
    from u(2) takeQuit_same [OF u(1)] show ?thesis
      by (elim onCollectorE) (auto simp: giveUp_def split: if_splits)
  qed
  then obtain d where "nat b < length (collectors g)" "collectors h = (collectors g)[nat b := d]"
    "current h = current g" "asked d = remove1 i (asked (collectors g ! nat b))"
    "set (answered d) \<subseteq> insert v (set (answered (collectors g ! nat b)))" by blast
  with collector_ends [OF assms(1) this(2,3) b this(1,4,5)] show ?thesis by simp
qed

lemma chan_next_law:
  assumes "chanSane k g"
  shows "chanSane k (nextBatch F k g) \<and>
    (\<forall>j c. c \<le> current g \<longrightarrow> chanPend j c (nextBatch F k g) \<longleftrightarrow> chanPend j c g) \<and> chanGot (nextBatch F k g) = chanGot g"
proof -
  let ?b = "nat (current g)" and ?d = "startCollector F k"
  define u where "u = g\<lparr>collectors := (collectors g)[?b := (collectors g ! ?b)\<lparr>signalled := True\<rparr>]\<rparr>"
  from assms have cur: "current g + 1 = int (length (collectors g))" by (simp add: chanSane_def)
  have b: "collectors g = [] \<or> ?b < length (collectors g)" using cur by (cases "collectors g") auto
  have u: "chanSane k u \<and> (\<forall>j c. chanPend j c u \<longleftrightarrow> chanPend j c g) \<and> chanGot u = chanGot g"
  proof (cases "collectors g = []")
    case True
    with assms show ?thesis by (simp add: u_def chanSane_def chanPend_def chanGot_def)
  next
    case False
    with b have "?b < length (collectors g)" by simp
    then show ?thesis
      by (intro collector_change [OF assms, of u ?b "(collectors g ! ?b)\<lparr>signalled := True\<rparr>"])
         (simp_all add: u_def)
  qed
  have h: "nextBatch F k g = u\<lparr>collectors := collectors u @ [?d], current := current u + 1\<rparr>"
    by (simp add: nextBatch_def u_def)
  have cu: "current u = current g" "current u + 1 = int (length (collectors u))"
    using cur by (simp_all add: u_def)
  have "distinct (asked ?d)" "set (asked ?d) \<subseteq> {0..<int k}" "answered ?d = []"
    by (auto simp: startCollector_def distinct_map inj_on_def)
  then have "chanSane k (nextBatch F k g)" "chanGot (nextBatch F k g) = chanGot u"
    using u cu unfolding h by (auto simp: chanSane_def chanGot_def)
  moreover have "chanPend j c (nextBatch F k g) \<longleftrightarrow> chanPend j c u" if "c \<le> current g" for j c
    using that cu unfolding h by (auto simp: chanPend_def nth_append)
  ultimately show ?thesis using u by blast
qed

lemma chan_main_law:
  assumes sane: "chanSane k g" and step: "chanMain F k a g = Some h"
  shows "chanSane k h \<and> current g \<le> current h \<and>
    (\<forall>j c. c \<le> current g \<longrightarrow> chanPend j c h \<longleftrightarrow> chanPend j c g) \<and> chanGot h = chanGot g"
proof -
  from step have a: "\<not> ofStation a" and st: "chanStep (floatOps.truncate F) k a g = Some h"
    by (simp_all add: chanMain_def split: if_splits)
  have one: ?thesis if "onCollector b f u = Some h" "collectors u = collectors g" "current u = current g"
    "\<And>c d. f c = Some d \<Longrightarrow> asked d = asked c \<and> answered d = answered c" for b f u
    using that(1)
  proof (rule onCollectorE)
    fix d assume d: "b < length (collectors u)" "f (collectors u ! b) = Some d"
      "h = u\<lparr>collectors := (collectors u)[b := d]\<rparr>"
    with that collector_change [OF sane, of h b d] show ?thesis by simp
  qed
  have lv: "leave c = Some d \<Longrightarrow> asked d = asked c \<and> answered d = answered c" for c d :: "'a collector"
    by (auto simp: leave_def split: cphase.splits)
  have same: ?thesis if "collectors h = collectors g" "current h = current g"
    using sane that by (simp add: chanSane_def chanPend_def chanGot_def)
  show ?thesis
  proof (cases a)
    case (Receive b)
    with st have "onCollector b (receive (floatOps.truncate F)) g = Some h" by simp
    then show ?thesis
      by (rule one) (auto simp: receive_def Let_def split: cphase.splits list.splits if_splits)
  next
    case (SeeSignal b)
    with st have "onCollector b (stopCollecting (floatOps.truncate F) (int b)) g = Some h" by simp
    then show ?thesis by (rule one) (auto simp: stopCollecting_def split: cphase.splits if_splits)
  next
    case (Deliver b)
    with st obtain r where "onCollector b leave (g\<lparr>outs := outs g @ [r]\<rparr>) = Some h"
      by (auto split: if_splits cphase.splits)
    then show ?thesis by (rule one) (simp_all add: lv)
  next
    case (CollectorQuit b)
    with st obtain u where u: "takeQuit g = Some u" "onCollector b leave u = Some h"
      by (auto simp: bind_eq_Some_conv)
    from u(2) show ?thesis by (rule one) (simp_all add: lv takeQuit_same [OF u(1)])
  next
    case Stamp
    with st have "h = nextBatch (floatOps.truncate F) k g" by (simp split: if_splits)
    with chan_next_law [OF sane, of "floatOps.truncate F"] show ?thesis by (simp add: nextBatch_def)
  next
    case SendQuit
    with st show ?thesis by (intro same) auto
  next
    case LoopQuit
    with st obtain u where u: "takeQuit g = Some u" "h = u\<lparr>looping := False\<rparr>" by (auto split: if_splits)
    with takeQuit_same [OF u(1)] show ?thesis by (intro same) auto
  qed (use a in simp_all)
qed

lemma chan_pend_law: "chanSane k g \<Longrightarrow> chanPend i b g \<Longrightarrow> 0 \<le> i \<and> i < int k \<and> 0 \<le> b \<and> b \<le> current g"
  by (force simp: chanSane_def chanPend_def)

interpretation chan_weather: aggregator k "channelAggregator (floatOps.truncate F) k" chanPend
  "chanEnd F k" "chanMain F k" current chanGot "chanSane k"
proof unfold_locales
  show "chanSane k (channelAggregator (floatOps.truncate F) k)"
    by (auto simp: chanSane_def channelAggregator_def startCollector_def distinct_map inj_on_def)
  show "chanGot (channelAggregator (floatOps.truncate F) k) = {}"
    by (simp add: chanGot_def channelAggregator_def startCollector_def)
qed (rule chan_pend_law chan_end_law chan_main_law; assumption)+

section \<open>The system\<close>

text \<open>A goroutine that asks a station of its test gets an answer or waits for ever.\<close>

lemma call_never_fails:
  assumes "createAll canListen ((k0, avg0, name0) # rest) = Inr n" and "0 < k0"
    and "(k, avg, name) \<in> set ((k0, avg0, name0) # rest)" and "0 \<le> i" and "i < int k"
  shows "askStation F cap avg name n False d clock i b ch \<noteq> Fails e"
proof -
  from assms(4,5) have "nat i < k" by simp
  from createAll_effect(2) [OF assms(1-3) this] assms(4)
  have "sockAddr name i \<in> set (listeners n)" by simp
  with createAll_effect(1) [OF assms(1,2)] show ?thesis
    by (simp add: askStation_def Let_def split: option.split)
qed

context aggregator
begin

lemma weather_safe:
  assumes "createAll canListen ((k0, avg0, name0) # rest) = Inr n" and "0 < k0"
    and "(k, avg, name) \<in> set ((k0, avg0, name0) # rest)"
    and "reachable (weatherInit start) (step F cap avg name n) s"
  shows "(\<forall>v \<in> got (aggr s). temperature F v) \<and> distinct (receipts s) \<and>
    (\<forall>(i, b) \<in> set (receipts s). 0 \<le> i \<and> i < int k \<and> 0 \<le> b \<and> b \<le> begun (aggr s)) \<and>
    (\<forall>(i, b) \<in> set (inCall s). \<forall>d clock e. askStation F cap avg name n False d clock i b (chans s) \<noteq> Fails e)"
proof -
  note inv = calls.reachable_inv [OF assms(4)]
  then have r: "\<forall>(i, b) \<in> set (receipts s). 0 \<le> i \<and> i < int k \<and> 0 \<le> b \<and> b \<le> begun (aggr s)"
    "set (inCall s) \<subseteq> set (receipts s)" by (auto simp: weather_inv_def)
  then have "\<forall>(i, b) \<in> set (inCall s). 0 \<le> i \<and> i < int k" by blast
  with inv r(1) call_never_fails [OF assms(1-3)] show ?thesis by (fastforce simp: weather_inv_def)
qed

lemma own_reachable:
  assumes "reachable (weatherInit start) (step F cap avg name n) s"
    and "init2 start" and "\<And>a g h. ownStep endS mainS a g = Some h \<Longrightarrow> \<exists>b. step2 b g = Some h"
  shows "reachable init2 step2 (aggr s)"
proof -
  have "reachable init2 step2 g" if "reachable (\<lambda>g. g = start) (ownStep endS mainS) g" for g
    using that
  proof (induction rule: reachable.induct)
    case (reach_init s)
    with assms(2) show ?case by (simp add: reachable.reach_init)
  next
    case (reach_step s a t)
    with assms(3) show ?case by (blast intro: reachable.reach_step)
  qed
  with runs.reachable_simulated [OF assms(1)] show ?thesis by simp
qed

end

lemma mutex_own: "ownStep (mutexEnd F k) (mutexMain F k) a g = Some h \<Longrightarrow>
    \<exists>b. mutexStep (floatOps.truncate F) k b g = Some h"
  by (cases "(mutexEnd F k, mutexMain F k, a, g)" rule: ownStep.cases)
     (auto simp: mutexEnd_def mutexMain_def simp del: mutexStep.simps split: if_splits)

lemma chan_own: "ownStep (chanEnd F k) (chanMain F k) a g = Some h \<Longrightarrow>
    \<exists>b. chanStep (floatOps.truncate F) k b g = Some h"
  by (cases "(chanEnd F k, chanMain F k, a, g)" rule: ownStep.cases)
     (auto simp: chanEnd_def chanMain_def simp del: chanStep.simps split: if_splits)

text \<open>The two systems.\<close>

abbreviation mutexWeather where
  "mutexWeather F k \<equiv> startWeather (mutexAggregator (floatOps.truncate F) k)"

abbreviation mutexWeatherStep where
  "mutexWeatherStep F k \<equiv> weatherStep mutexPend (mutexEnd F k) (mutexMain F k) F"

abbreviation chanWeather where
  "chanWeather F k \<equiv> startWeather (channelAggregator (floatOps.truncate F) k)"

abbreviation chanWeatherStep where
  "chanWeatherStep F k \<equiv> weatherStep chanPend (chanEnd F k) (chanMain F k) F"



text \<open>Three stations; two are asked, one answers, and its temperature is the first report.\<close>

abbreviation longTest where "longTest \<equiv> ''TestMutexAggregator/TestLongAveragePeriod''"

definition oneAnswer :: "'e \<Rightarrow> (int, 'e, 'm) weatherAction list" where
  "oneAnswer e =
     [BeginCall 2 0, BeginCall 0 0,
      EndCall 2 0 longDraws \<lparr>requestedAt = 0, startTime = 10, returnedAt = 1750000500\<rparr>,
      Tester \<lparr>backChannelValues = [], backChannelRPCReceipts = []\<rparr>, HandOver e 2 0 21000]"

lemma oneAnswer_mutex:
  "case createAll (\<lambda>f. True) twoTests of Inl e \<Rightarrow> False | Inr n \<Rightarrow>
     (case run_actions (mutexWeatherStep milliFloat 3 30 5000 longTest n)
         (oneAnswer () @ [Main Tick, Main ReadOut, Main StartBatch, BeginCall 0 1]) (mutexWeather milliFloat 3) of
        None \<Rightarrow> False
      | Some s \<Rightarrow> receipts s = [(2, 0), (0, 0), (0, 1)] \<and> sent (aggr s) = [\<lparr>Val = 21000, Id = 0, Batch = 0\<rparr>] \<and>
          inCall s = [(0, 0), (0, 1)])"
  by code_simp

lemma oneAnswer_channels:
  "case createAll (\<lambda>f. True) twoTests of Inl e \<Rightarrow> False | Inr n \<Rightarrow>
     (case run_actions (chanWeatherStep milliFloat 3 30 5000 longTest n)
         (oneAnswer True @ [Main (Receive 0), Main Stamp, BeginCall 0 1, Main (SeeSignal 0), Main (Deliver 0)])
         (chanWeather milliFloat 3) of
        None \<Rightarrow> False
      | Some s \<Rightarrow> receipts s = [(2, 0), (0, 0), (0, 1)] \<and> outs (aggr s) = [\<lparr>Val = 21000, Id = 0, Batch = 0\<rparr>] \<and>
          inCall s = [(0, 0), (0, 1)])"
  by code_simp

lemma twoTests_long: "(3, 5000, longTest) \<in> set twoTests" "0 < (1 :: nat)"
  by (simp_all add: twoTests_def)



end
