(* ===== verification/WeatherTester.thy ===== *)
theory WeatherTester
  imports WeatherSystem
begin

text \<open>
  The test of ws/ws_test.go that runs an aggregator: \<open>testAll\<close> takes a report from \<open>out\<close>, counts the
  receipts and the seen of its batch in the back channels, puts back what belongs to later
  batches, and compares. Every operation on a channel is a step of its own, so the calls of the
  next batch go on in between. The clock is an argument.
\<close>

section \<open>The tests and their stations\<close>

text \<open>\<open>runTests\<close>: the number of stations, the period and the name of each test.\<close>

definition testCases :: "'f \<Rightarrow> 'f \<Rightarrow> string \<Rightarrow> (nat \<times> 'f \<times> string) list" where
  "testCases short long test =
     [(1, short, test @ ''TestK1''), (10, short, test @ ''TestK10''), (100, short, test @ ''TestK100''),
      (100, long, test @ ''TestLongAveragePeriod''), (100, short, test @ ''TestQuit'')]"

definition TestCleanup :: "'f rpcNetwork \<Rightarrow> 'f rpcNetwork" where
  "TestCleanup n = n\<lparr>listeners := []\<rparr>"

text \<open>
  A test runs as a subtest, whose name has a slash in it; its sockets have the names under which
  the stations were created. After the clean-up nothing listens, so a call ends the process.
\<close>

lemma sockAddr_subtest: "sockAddr (test @ ''/'' @ name) i = sockAddr (test @ name) i"
  by (simp add: sockAddr_def)

lemma call_after_cleanup:
  "askStation F cap avg test (TestCleanup n) broken d clock i b ch = Fails (Fatal ''dialing:'')"
  by (simp add: askStation_def TestCleanup_def)

lemma testCases_listen:
  assumes "createAll canListen (testCases short long test) = Inr n"
    and "(k, avg, test @ name) \<in> set (testCases short long test)" and "i < k"
  shows "sockAddr (test @ ''/'' @ name) (int i) \<in> set (listeners n)"
  using createAll_effect(2) [OF assms(1) [unfolded testCases_def] _ assms(2) [unfolded testCases_def] assms(3)]
  unfolding sockAddr_subtest by simp

section \<open>The loop of the test\<close>

datatype testFault =
    DuplicateRPC int
  | MissingRPCs nat
  | WrongAverage
  | WrongTime
  | NotNaN
  | ShouldBeNaN
  | AnswerAfterQuit
  | WrongNumberOfBatches int

text \<open>
  Where the test is, with the answer it looks at, the identifiers it has counted, the tot and
  the number of the values, and what is to be put back.
\<close>

datatype 'f testPhase =
    Waiting
  | TakingReceipts "'f WeatherReport" "int list" "weatherCallReceipt list"
  | PuttingReceipts "'f WeatherReport" "int list" "weatherCallReceipt list"
  | TakingValues "'f WeatherReport" 'f int "'f internalWeatherCallReport list"
  | PuttingValues "'f WeatherReport" 'f int "'f internalWeatherCallReport list"
  | QuitSent
  | TestPasses
  | TestFails testFault

text \<open>\<open>offers\<close> counts the seen on \<open>quit\<close> that the aggregator has not taken yet.\<close>

record ('s, 'f) testedSystem =
  weather :: "('s, 'f) weatherSystem"
  testPhase :: "'f testPhase"
  batchCount :: int
  offers :: nat

datatype ('f, 'e, 'm) testAction =
    Runs "('f, 'e, 'm) weatherAction"
  | NextReceipt
  | PutReceipt
  | NextValue
  | PutValue
  | Compare 'f
  | QuitTimer
  | QuietAfterQuit
  | DieTimer

definition zeroReceipt :: weatherCallReceipt where
  "zeroReceipt = \<lparr>receiptId = 0, receiptBatch = 0\<rparr>"

definition zeroValue :: "'f stationFloats \<Rightarrow> 'f internalWeatherCallReport" where
  "zeroValue F = \<lparr>requestedAtTime = 0, returnedAtTime = 0, measuredValue = floatOps.zero F,
     callId = 0, callBatch = 0, measuredDelay = 0\<rparr>"

text \<open>\<open>case studentAnswer := <-out\<close>, and the one that waits after the quit signal.\<close>

fun takeAnswer :: "nat \<Rightarrow> 'f WeatherReport \<Rightarrow> 'f testPhase \<Rightarrow> 'f testPhase option" where
  "takeAnswer k r Waiting = Some (TakingReceipts r [] (replicate (k * 2) zeroReceipt))"
| "takeAnswer k r QuitSent = Some (TestFails AnswerAfterQuit)"
| "takeAnswer k r _ = None"

text \<open>The loops over \<open>backChannelRPCReceipts\<close> and the check of their number.\<close>

definition countReceipt ::
  "'f WeatherReport \<Rightarrow> int list \<Rightarrow> weatherCallReceipt list \<Rightarrow> weatherCallReceipt \<Rightarrow> 'f testPhase" where
  "countReceipt r seen recycled receipt =
     (if receiptBatch receipt = Batch r then
        (if receiptId receipt \<in> set seen then TestFails (DuplicateRPC (receiptId receipt))
         else TakingReceipts r (seen @ [receiptId receipt]) recycled)
      else if receiptBatch receipt > Batch r then TakingReceipts r seen (recycled @ [receipt])
      else TakingReceipts r seen recycled)"

fun nextReceipt ::
  "'f testPhase \<Rightarrow> 'f backChannels \<Rightarrow> ('f testPhase \<times> 'f backChannels) option" where
  "nextReceipt (TakingReceipts r seen recycled) ch =
     Some (case backChannelRPCReceipts ch of
             [] \<Rightarrow> (PuttingReceipts r seen recycled, ch)
           | receipt # rest \<Rightarrow>
               (countReceipt r seen recycled receipt, ch\<lparr>backChannelRPCReceipts := rest\<rparr>))"
| "nextReceipt _ ch = None"

fun putReceipt ::
  "'f stationFloats \<Rightarrow> nat \<Rightarrow> nat \<Rightarrow> 'f testPhase \<Rightarrow> 'f backChannels \<Rightarrow>
     ('f testPhase \<times> 'f backChannels) option" where
  "putReceipt F k cap (PuttingReceipts r seen (receipt # rest)) ch =
     (if length (backChannelRPCReceipts ch) \<ge> cap then None
      else Some (PuttingReceipts r seen rest,
                 ch\<lparr>backChannelRPCReceipts := backChannelRPCReceipts ch @ [receipt]\<rparr>))"
| "putReceipt F k cap (PuttingReceipts r seen []) ch =
     Some (if length seen \<noteq> k then TestFails (MissingRPCs (length seen))
           else TakingValues r (floatOps.zero F) 0 (replicate (k * 2) (zeroValue F)), ch)"
| "putReceipt F k cap _ ch = None"

text \<open>The loops over \<open>backChannelValues\<close>.\<close>

definition countValue ::
  "'f stationFloats \<Rightarrow> 'f WeatherReport \<Rightarrow> 'f \<Rightarrow> int \<Rightarrow> 'f internalWeatherCallReport list \<Rightarrow>
     'f internalWeatherCallReport \<Rightarrow> 'f testPhase" where
  "countValue F r tot samples recycled report =
     (if callBatch report = Batch r
      then TakingValues r (floatOps.add F tot (measuredValue report)) (samples + 1) recycled
      else if callBatch report > Batch r then TakingValues r tot samples (recycled @ [report])
      else TakingValues r tot samples recycled)"

fun nextValue ::
  "'f stationFloats \<Rightarrow> 'f testPhase \<Rightarrow> 'f backChannels \<Rightarrow> ('f testPhase \<times> 'f backChannels) option" where
  "nextValue F (TakingValues r tot samples recycled) ch =
     Some (case backChannelValues ch of
             [] \<Rightarrow> (PuttingValues r tot samples recycled, ch)
           | report # rest \<Rightarrow>
               (countValue F r tot samples recycled report, ch\<lparr>backChannelValues := rest\<rparr>))"
| "nextValue F _ ch = None"

fun putValue ::
  "nat \<Rightarrow> 'f testPhase \<Rightarrow> 'f backChannels \<Rightarrow> ('f testPhase \<times> 'f backChannels) option" where
  "putValue cap (PuttingValues r tot samples (report # rest)) ch =
     (if length (backChannelValues ch) \<ge> cap then None
      else Some (PuttingValues r tot samples rest,
                 ch\<lparr>backChannelValues := backChannelValues ch @ [report]\<rparr>))"
| "putValue cap _ ch = None"

text \<open>The comparison, with the time that has passed since the last answer and the tolerance of 0.08.\<close>

definition compareAnswer ::
  "'f stationFloats \<Rightarrow> 'f \<Rightarrow> 'f \<Rightarrow> 'f WeatherReport \<Rightarrow> 'f \<Rightarrow> int \<Rightarrow> 'f \<Rightarrow> testFault option" where
  "compareAnswer F tolerance avg r tot samples elapsed =
     (let answer = floatOps.divide F tot samples in
      if less F (Val r) (minus F answer tolerance) \<or> less F (floatOps.add F answer tolerance) (Val r)
      then Some WrongAverage
      else if less F elapsed (minus F avg tolerance) \<or> less F (floatOps.add F avg tolerance) elapsed
      then Some WrongTime
      else if floatOps.isNaN F (Val r) \<and> \<not> floatOps.isNaN F answer then Some NotNaN
      else if \<not> floatOps.isNaN F (Val r) \<and> floatOps.isNaN F answer then Some ShouldBeNaN
      else None)"

fun comparing ::
  "'f stationFloats \<Rightarrow> 'f \<Rightarrow> 'f \<Rightarrow> 'f \<Rightarrow> 'f testPhase \<Rightarrow> int \<Rightarrow> ('f testPhase \<times> int) option" where
  "comparing F tolerance avg elapsed (PuttingValues r tot samples []) batches =
     Some (case compareAnswer F tolerance avg r tot samples elapsed of
             None \<Rightarrow> (Waiting, batches + 1)
           | Some e \<Rightarrow> (TestFails e, batches))"
| "comparing F tolerance avg elapsed _ batches = None"

section \<open>The test and what it tests\<close>

text \<open>The parameters of a test: \<open>K\<close>, the capacity, and how many answers it expects.\<close>

record 'f testSetup =
  stations :: nat
  capacity :: nat
  tolerance :: 'f
  period :: 'f
  expectedCount :: int

text \<open>
  \<open>outsOf\<close> is what the aggregator has sent on \<open>out\<close>, which is not buffered: a send is the step in
  which the test takes the answer. \<open>usesQuit\<close> are the steps that need the value on \<open>quit\<close>, which
  a goroutine of the test offers. \<open>weatherS\<close> are the steps of the aggregator and the stations.
\<close>

definition onChannels ::
  "('f testPhase \<Rightarrow> 'f backChannels \<Rightarrow> ('f testPhase \<times> 'f backChannels) option) \<Rightarrow>
     ('s, 'f) testedSystem \<Rightarrow> ('s, 'f) testedSystem option" where
  "onChannels f s =
     map_option (\<lambda>(ph, ch). s\<lparr>testPhase := ph, weather := (weather s)\<lparr>chans := ch\<rparr>\<rparr>)
       (f (testPhase s) (chans (weather s)))"

definition runWeather ::
  "nat \<Rightarrow> ('s \<Rightarrow> 'f WeatherReport list) \<Rightarrow> ('s, 'f) weatherSystem \<Rightarrow> ('s, 'f) testedSystem \<Rightarrow>
     ('s, 'f) testedSystem option" where
  "runWeather k outsOf w s =
     (if outsOf (aggr w) = outsOf (aggr (weather s)) then Some (s\<lparr>weather := w\<rparr>)
      else map_option (\<lambda>ph. s\<lparr>weather := w, testPhase := ph\<rparr>)
             (takeAnswer k (last (outsOf (aggr w))) (testPhase s)))"

definition takeOffer ::
  "('m \<Rightarrow> bool) \<Rightarrow> ('f, 'e, 'm) weatherAction \<Rightarrow> ('s, 'f) testedSystem \<Rightarrow> ('s, 'f) testedSystem option" where
  "takeOffer usesQuit a s =
     (case a of
        Tester ch \<Rightarrow> None
      | Main m \<Rightarrow>
          (if \<not> usesQuit m then Some s
           else if offers s > 0 then Some (s\<lparr>offers := offers s - 1\<rparr>) else None)
      | _ \<Rightarrow> Some s)"

fun weatherTestStep ::
  "(('f, 'e, 'm) weatherAction \<Rightarrow> ('s, 'f) weatherSystem \<Rightarrow> ('s, 'f) weatherSystem option) \<Rightarrow>
     ('s \<Rightarrow> 'f WeatherReport list) \<Rightarrow> ('m \<Rightarrow> bool) \<Rightarrow> 'f stationFloats \<Rightarrow> 'f testSetup \<Rightarrow>
     ('f, 'e, 'm) testAction \<Rightarrow> ('s, 'f) testedSystem \<Rightarrow> ('s, 'f) testedSystem option" where
  "weatherTestStep weatherS outsOf usesQuit F c (Runs a) s =
     Option.bind (takeOffer usesQuit a s) (\<lambda>s1.
       Option.bind (weatherS a (weather s1)) (\<lambda>w. runWeather (stations c) outsOf w s1))"
| "weatherTestStep weatherS outsOf usesQuit F c NextReceipt s = onChannels nextReceipt s"
| "weatherTestStep weatherS outsOf usesQuit F c PutReceipt s = onChannels (putReceipt F (stations c) (capacity c)) s"
| "weatherTestStep weatherS outsOf usesQuit F c NextValue s = onChannels (nextValue F) s"
| "weatherTestStep weatherS outsOf usesQuit F c PutValue s = onChannels (putValue (capacity c)) s"
| "weatherTestStep weatherS outsOf usesQuit F c (Compare elapsed) s =
     map_option (\<lambda>(ph, batches). s\<lparr>testPhase := ph, batchCount := batches\<rparr>)
       (comparing F (tolerance c) (period c) elapsed (testPhase s) (batchCount s))"
| "weatherTestStep weatherS outsOf usesQuit F c QuitTimer s =
     (case testPhase s of Waiting \<Rightarrow> Some (s\<lparr>testPhase := QuitSent, offers := offers s + 1\<rparr>) | _ \<Rightarrow> None)"
| "weatherTestStep weatherS outsOf usesQuit F c QuietAfterQuit s =
     (case testPhase s of QuitSent \<Rightarrow> Some (s\<lparr>testPhase := TestPasses\<rparr>) | _ \<Rightarrow> None)"
| "weatherTestStep weatherS outsOf usesQuit F c DieTimer s =
     (case testPhase s of
        Waiting \<Rightarrow> Some (s\<lparr>testPhase :=
          if batchCount s \<noteq> expectedCount c then TestFails (WrongNumberOfBatches (batchCount s)) else TestPasses\<rparr>)
      | _ \<Rightarrow> None)"

definition startTest :: "'s \<Rightarrow> ('s, 'f) testedSystem" where
  "startTest g = \<lparr>weather = startWeather g, testPhase = Waiting, batchCount = 0, offers = 0\<rparr>"

section \<open>Counting receipts\<close>

text \<open>
  The receipts of the batches that the test has not finished counting are in the channel, to be
  put back, or counted. What \<open>make\<close> puts into the slice for recycling are receipts of batch 0, and
  so are not counted with them.
\<close>

definition receiptOf :: "int \<times> int \<Rightarrow> weatherCallReceipt" where
  "receiptOf x = \<lparr>receiptId = fst x, receiptBatch = snd x\<rparr>"

lemma receiptOf_simps [simp]: "receiptId (receiptOf x) = fst x" "receiptBatch (receiptOf x) = snd x"
  by (simp_all add: receiptOf_def)

lemma inj_receiptOf: "inj_on receiptOf A"
  by (auto simp: inj_on_def receiptOf_def)

lemma receiptOf_back: "receiptOf (receiptId r, receiptBatch r) = r"
  by (simp add: receiptOf_def)

fun held :: "'f testPhase \<Rightarrow> weatherCallReceipt list \<Rightarrow> weatherCallReceipt list" where
  "held (TakingReceipts r seen recycled) ch =
     ch @ filter (\<lambda>x. Batch r < receiptBatch x) recycled @ map (\<lambda>i. receiptOf (i, Batch r)) seen"
| "held (PuttingReceipts r seen rest) ch = ch @ rest"
| "held _ ch = ch"

text \<open>The first batch whose receipts are still needed, after \<open>n\<close> answers.\<close>

fun firstNeeded :: "int \<Rightarrow> 'f testPhase \<Rightarrow> int" where
  "firstNeeded n (TakingReceipts r seen recycled) = n - 1"
| "firstNeeded n _ = n"

definition fromBatch :: "int \<Rightarrow> weatherCallReceipt list \<Rightarrow> weatherCallReceipt multiset" where
  "fromBatch b xs = mset (filter (\<lambda>x. b \<le> receiptBatch x) xs)"

lemma fromBatch_simps [simp]:
  "fromBatch b (xs @ ys) = fromBatch b xs + fromBatch b ys"
  "fromBatch b [] = {#}"
  "fromBatch b (x # xs) = (if b \<le> receiptBatch x then {#x#} else {#}) + fromBatch b xs"
  by (simp_all add: fromBatch_def)

lemma fromBatch_later:
  "fromBatch b xs = fromBatch b ys \<Longrightarrow> b \<le> c \<Longrightarrow> fromBatch c xs = fromBatch c ys"
proof -
  assume eq: "fromBatch b xs = fromBatch b ys" and "b \<le> c"
  then have "fromBatch c zs = filter_mset (\<lambda>x. c \<le> receiptBatch x) (fromBatch b zs)" for zs
    by (simp add: fromBatch_def flip: mset_filter) (meson dual_order.trans)
  with eq show ?thesis by simp
qed

fun phase_ok :: "nat \<Rightarrow> int \<Rightarrow> 'f testPhase \<Rightarrow> bool" where
  "phase_ok k n (TakingReceipts r seen recycled) = (Batch r = n - 1)"
| "phase_ok k n (PuttingReceipts r seen rest) = (distinct seen \<and> set seen \<subseteq> {0..<int k})"
| "phase_ok k n (TestFails (DuplicateRPC i)) = False"
| "phase_ok k n (TestFails (MissingRPCs m)) = (m < k)"
| "phase_ok k n _ = True"

definition tally ::
  "nat \<Rightarrow> int \<Rightarrow> (int \<times> int) list \<Rightarrow> weatherCallReceipt list \<Rightarrow> 'f testPhase \<Rightarrow> bool" where
  "tally k n rs ch ph \<longleftrightarrow> phase_ok k n ph \<and>
     fromBatch (firstNeeded n ph) (held ph ch) = fromBatch (firstNeeded n ph) (map receiptOf rs)"

text \<open>What has been counted for a batch, and what is in the channel for it, are its receipts.\<close>

lemma tally_counted:
  assumes t: "tally k n rs ch (TakingReceipts r seen recycled)" and rs: "distinct rs"
  shows "distinct (map (\<lambda>i. receiptOf (i, Batch r)) seen @ filter (\<lambda>x. receiptBatch x = Batch r) ch)"
    and "set seen \<subseteq> {i. (i, Batch r) \<in> set rs}"
    and "ch = [] \<Longrightarrow> set seen = {i. (i, Batch r) \<in> set rs}"
proof -
  let ?b = "Batch r" and ?vs = "map (\<lambda>i. receiptOf (i, Batch r)) seen"
  let ?ch = "filter (\<lambda>x. receiptBatch x = ?b) ch" and ?rs = "filter (\<lambda>x. receiptBatch x = ?b) (map receiptOf rs)"
  from t have eq: "fromBatch ?b (held (TakingReceipts r seen recycled) ch) = fromBatch ?b (map receiptOf rs)"
    unfolding tally_def by (metis firstNeeded.simps(1) phase_ok.simps(1))
  have only: "filter_mset (\<lambda>x. receiptBatch x = ?b) (fromBatch ?b xs) = mset (filter (\<lambda>x. receiptBatch x = ?b) xs)" for xs
    unfolding fromBatch_def by (induction xs) auto
  have "filter (\<lambda>x. receiptBatch x = ?b) (held (TakingReceipts r seen recycled) ch) = ?ch @ ?vs"
    by (auto simp: filter_empty_conv filter_id_conv)
  with arg_cong [OF eq, of "filter_mset (\<lambda>x. receiptBatch x = ?b)"] have m: "mset (?vs @ ?ch) = mset ?rs"
    unfolding only by (simp add: add.commute)
  have "distinct ?rs" using rs by (simp add: distinct_map inj_receiptOf)
  with mset_eq_imp_distinct_iff [OF m] show d: "distinct (?vs @ ?ch)" by blast
  have s: "set ?vs \<union> set ?ch = set ?rs" using mset_eq_setD [OF m] by simp
  have in_rs: "receiptOf (i, ?b) \<in> set ?rs \<longleftrightarrow> (i, ?b) \<in> set rs" for i
    by (simp add: inj_image_mem_iff [OF inj_receiptOf])
  have in_vs: "receiptOf (i, ?b) \<in> set ?vs \<longleftrightarrow> i \<in> set seen" for i
    by (auto simp: receiptOf_def)
  show "set seen \<subseteq> {i. (i, ?b) \<in> set rs}" using s in_rs in_vs by blast
  show "set seen = {i. (i, ?b) \<in> set rs}" if "ch = []" using s in_rs in_vs that by auto
qed

lemma tally_count:
  assumes t: "tally k n rs (x # ch) (TakingReceipts r seen recycled)" and rs: "distinct rs"
  shows "tally k n rs ch (countReceipt r seen recycled x)"
proof -
  from t have b: "Batch r = n - 1" by (simp add: tally_def)
  have new: "receiptId x \<notin> set seen" if "receiptBatch x = Batch r"
  proof
    assume "receiptId x \<in> set seen"
    then have "receiptOf (receiptId x, Batch r) \<in> set (map (\<lambda>i. receiptOf (i, Batch r)) seen)" by simp
    moreover have "receiptOf (receiptId x, Batch r) = x" using that receiptOf_back [of x] by simp
    ultimately show False using that tally_counted(1) [OF t rs] by simp
  qed
  have x: "receiptOf (receiptId x, n - 1) = x" if "receiptBatch x = n - 1"
    using that receiptOf_back [of x] by simp
  show ?thesis
    using t b new by (auto simp: countReceipt_def tally_def ac_simps x)
qed

lemma tally_next:
  assumes t: "tally k n rs (backChannelRPCReceipts ch) ph" and rs: "distinct rs"
    and ids: "\<forall>(i, b) \<in> set rs. 0 \<le> i \<and> i < int k"
    and step: "nextReceipt ph ch = Some (ph', ch')"
  shows "tally k n rs (backChannelRPCReceipts ch') ph'"
proof (cases ph)
  case (TakingReceipts r seen recycled)
  show ?thesis
  proof (cases "backChannelRPCReceipts ch")
    case Nil
    with step TakingReceipts have s: "ph' = PuttingReceipts r seen recycled" "ch' = ch" by simp_all
    from t [unfolded TakingReceipts Nil] have b: "Batch r = n - 1" by (simp add: tally_def)
    with t [unfolded TakingReceipts Nil]
    have eq: "fromBatch (n - 1) (held ph []) = fromBatch (n - 1) (map receiptOf rs)"
      by (simp add: tally_def TakingReceipts)
    have "(n - 1 < m \<and> n \<le> m) = (n \<le> m)" for m by auto
    then have "fromBatch n (held ph []) = fromBatch n recycled"
      by (simp add: TakingReceipts b fromBatch_def)
    with fromBatch_later [OF eq, of n] have "fromBatch n recycled = fromBatch n (map receiptOf rs)" by simp
    moreover note c = tally_counted [OF t [unfolded TakingReceipts Nil] rs]
    have "distinct seen" using c(1) by (simp add: distinct_map)
    moreover have "set seen \<subseteq> {0..<int k}" using c(2) ids by fastforce
    ultimately show ?thesis using Nil by (simp add: s tally_def fromBatch_def)
  next
    case (Cons x rest)
    with step TakingReceipts have s: "ph' = countReceipt r seen recycled x"
      "ch' = ch\<lparr>backChannelRPCReceipts := rest\<rparr>" by simp_all
    from tally_count [OF t [unfolded TakingReceipts Cons] rs] show ?thesis by (simp add: s)
  qed
qed (use step in simp_all)

lemma distinct_ids_length: "distinct xs \<Longrightarrow> set xs \<subseteq> {0..<int k} \<Longrightarrow> length xs \<le> k"
  using card_mono [of "{0..<int k}" "set xs"] by (simp add: distinct_card)

lemma tally_put:
  assumes t: "tally k n rs (backChannelRPCReceipts ch) ph"
    and step: "putReceipt F k cap ph ch = Some (ph', ch')"
  shows "tally k n rs (backChannelRPCReceipts ch') ph'"
proof (cases ph)
  case (PuttingReceipts r seen rest)
  show ?thesis
  proof (cases rest)
    case Nil
    from t [unfolded PuttingReceipts] distinct_ids_length [of seen k] step [unfolded PuttingReceipts Nil]
    show ?thesis by (auto simp: tally_def Nil)
  next
    case (Cons x xs)
    with t step PuttingReceipts show ?thesis by (auto simp: tally_def ac_simps split: if_splits)
  qed
qed (use step in simp_all)

text \<open>The other steps of the test leave the receipts alone.\<close>

definition quiet :: "'f testPhase \<Rightarrow> bool" where
  "quiet ph \<longleftrightarrow> (\<forall>k n. phase_ok k n ph \<and> firstNeeded n ph = n) \<and> (\<forall>ch. held ph ch = ch)"

lemma quiet_phases:
  "quiet Waiting" "quiet QuitSent" "quiet TestPasses" "quiet (TakingValues r tot samples vs)"
  "quiet (PuttingValues r tot samples vs)"
  "(\<forall>i m. e \<noteq> DuplicateRPC i \<and> e \<noteq> MissingRPCs m) \<Longrightarrow> quiet (TestFails e)"
  by (simp_all add: quiet_def) (cases e; simp)

lemma tally_quiet: "quiet ph \<Longrightarrow> quiet ph' \<Longrightarrow> tally k n rs ch ph \<Longrightarrow> tally k n rs ch ph'"
  by (simp add: tally_def quiet_def)

lemma nextValue_quiet:
  "nextValue F ph ch = Some (ph', ch') \<Longrightarrow>
    quiet ph \<and> quiet ph' \<and> backChannelRPCReceipts ch' = backChannelRPCReceipts ch"
  by (cases ph) (auto simp: quiet_phases countValue_def split: list.splits)

lemma putValue_quiet:
  "putValue cap ph ch = Some (ph', ch') \<Longrightarrow>
    quiet ph \<and> quiet ph' \<and> backChannelRPCReceipts ch' = backChannelRPCReceipts ch"
  by (cases "(cap, ph, ch)" rule: putValue.cases) (auto simp: quiet_phases split: if_splits)

lemma compareAnswer_verdict:
  "compareAnswer F tol avg r tot samples elapsed = Some e \<Longrightarrow>
    \<forall>i m. e \<noteq> DuplicateRPC i \<and> e \<noteq> MissingRPCs m"
  by (auto simp: compareAnswer_def Let_def split: if_splits)

lemma comparing_quiet:
  "comparing F tol avg elapsed ph batches = Some (ph', batches') \<Longrightarrow> quiet ph \<and> quiet ph'"
  by (cases "(F, tol, avg, elapsed, ph, batches)" rule: comparing.cases)
     (auto simp: quiet_phases dest: compareAnswer_verdict split: option.splits)

text \<open>An answer is taken when the aggregator sends it; it is that of the next batch.\<close>

lemma tally_take:
  assumes t: "tally k n rs ch ph" and "takeAnswer k r ph = Some ph'" and r: "Batch r = n" and n: "0 \<le> n"
  shows "tally k (n + 1) rs ch ph'"
proof (cases ph)
  case Waiting
  with assms(2) have "ph' = TakingReceipts r [] (replicate (k * 2) zeroReceipt)" by simp
  with t r n Waiting show ?thesis by (simp add: tally_def zeroReceipt_def)
next
  case QuitSent
  with assms(2) have "ph' = TestFails AnswerAfterQuit" by simp
  with t QuitSent fromBatch_later [of n ch "map receiptOf rs" "n + 1"] show ?thesis by (simp add: tally_def)
qed (use assms(2) in simp_all)

text \<open>A call that begins leaves its receipt.\<close>

lemma tally_begin: "tally k n rs ch ph \<Longrightarrow> tally k n (rs @ [x]) (ch @ [receiptOf x]) ph"
  by (cases ph) (auto simp: tally_def ac_simps)

section \<open>The test of the aggregator with a mutex\<close>

lemma askStation_receipts:
  "askStation F cap avg test n False d clock i b ch = Returns report ch' \<Longrightarrow>
    backChannelRPCReceipts ch' = backChannelRPCReceipts ch"
  by (auto simp: askStation_def Let_def split: if_splits option.splits)

lemma weather_receipts:
  assumes "weatherStep pend endS mainS F cap avg test n a s = Some t" and "\<forall>ch. a \<noteq> Tester ch"
  shows "receipts t = receipts s \<and> backChannelRPCReceipts (chans t) = backChannelRPCReceipts (chans s) \<or>
    (\<exists>x. receipts t = receipts s @ [x] \<and> aggr t = aggr s \<and>
       backChannelRPCReceipts (chans t) = backChannelRPCReceipts (chans s) @ [receiptOf x])"
  using assms
  by (cases a) (auto simp: sendReceipt_def receiptOf_def split: if_splits weatherCall.splits
      dest: askStation_receipts)

lemma mutex_sends:
  assumes "agg_inv F g" and "mutexStep F k a g = Some h" and "sent h \<noteq> sent g"
  shows "\<exists>r. sent h = sent g @ [r] \<and> Batch r = slen (sent g)"
proof (cases a)
  case ReadOut
  with assms(2) obtain r where "mphase g = Sending r" "sent h = sent g @ [r]" by (auto split: phase.splits)
  with assms(1) show ?thesis by (simp add: agg_inv_def reportOf_def slen_def)
qed (use assms(2,3) in \<open>auto simp: retrieveData_def newBatch_def split: phase.splits if_splits\<close>)

lemma weather_sends:
  assumes "agg_inv (floatOps.truncate F) (aggr s)" and "mutexWeatherStep F k cap avg test n a s = Some t"
  shows "agg_inv (floatOps.truncate F) (aggr t) \<and> (sent (aggr t) \<noteq> sent (aggr s) \<longrightarrow>
    (\<exists>r. sent (aggr t) = sent (aggr s) @ [r] \<and> Batch r = slen (sent (aggr s))))"
proof -
  have own: ?thesis if "mutexStep (floatOps.truncate F) k b (aggr s) = Some (aggr t)" for b
    using agg_step [OF assms(1) that] mutex_sends [OF assms(1) that] by blast
  show ?thesis
  proof (cases a)
    case (HandOver e i b v)
    with assms(2) own show ?thesis by (auto simp: mutexEnd_def simp del: mutexStep.simps split: if_splits)
  next
    case (Main m)
    with assms(2) own show ?thesis by (auto simp: mutexMain_def simp del: mutexStep.simps split: if_splits)
  qed (use assms in \<open>auto split: if_splits weatherCall.splits\<close>)
qed

definition test_inv :: "'f stationFloats \<Rightarrow> nat \<Rightarrow> ('f mutexAgg, 'f) testedSystem \<Rightarrow> bool" where
  "test_inv F k s \<longleftrightarrow>
     weather_inv k mutexPend askedBatch mutexGot (mutexSane k) F (weather s) \<and>
     agg_inv (floatOps.truncate F) (aggr (weather s)) \<and>
     tally k (slen (sent (aggr (weather s)))) (receipts (weather s))
       (backChannelRPCReceipts (chans (weather s))) (testPhase s)"

abbreviation mutexTestStep where
  "mutexTestStep F c name n \<equiv>
     weatherTestStep (mutexWeatherStep F (stations c) (capacity c) (period c) name n) sent (\<lambda>m. m = Quit) F c"

abbreviation mutexTest where
  "mutexTest F k \<equiv> startTest (mutexAggregator (floatOps.truncate F) k)"

lemma test_inv_start: "test_inv F k (mutexTest F k)"
proof -
  have "agg_inv (floatOps.truncate F) (mutexAggregator (floatOps.truncate F) k)"
    by (rule mutex_agg.inv_init) (simp add: mutexInit_def)
  then show ?thesis using mutex_weather.inv_start [of k F]
    by (simp add: test_inv_def startTest_def startWeather_def tally_def mutexAggregator_def newBatch_def)
qed

text \<open>A step of the test on the channels.\<close>

lemma weather_inv_chans: "weather_inv k p b g sane F (w\<lparr>chans := ch\<rparr>) = weather_inv k p b g sane F w"
  by (simp add: weather_inv_def)

lemma test_inv_channels:
  assumes inv: "test_inv F k s" and step: "onChannels f s = Some t"
    and f: "\<And>ph' ch'. f (testPhase s) (chans (weather s)) = Some (ph', ch') \<Longrightarrow>
      tally k (slen (sent (aggr (weather s)))) (receipts (weather s)) (backChannelRPCReceipts ch') ph'"
  shows "test_inv F k t"
  using inv step f by (auto simp: onChannels_def test_inv_def weather_inv_chans)

lemma takeOffer_same:
  "takeOffer usesQuit a s = Some t \<Longrightarrow>
    weather t = weather s \<and> testPhase t = testPhase s \<and> (\<forall>ch. a \<noteq> Tester ch)"
  by (auto simp: takeOffer_def split: weatherAction.splits if_splits)

lemma test_inv_runs:
  assumes inv: "test_inv F k s" and w: "mutexWeatherStep F k cap avg name n a (weather s) = Some w"
    and a: "\<forall>ch. a \<noteq> Tester ch" and run: "runWeather k sent w s = Some t"
  shows "test_inv F k t"
proof -
  let ?n = "slen (sent (aggr (weather s)))" and ?ch = "\<lambda>w. backChannelRPCReceipts (chans w)"
  from inv have i: "weather_inv k mutexPend askedBatch mutexGot (mutexSane k) F (weather s)"
    "agg_inv (floatOps.truncate F) (aggr (weather s))"
    "tally k ?n (receipts (weather s)) (?ch (weather s)) (testPhase s)" by (simp_all add: test_inv_def)
  note sends = weather_sends [OF i(2) w] and wi = mutex_weather.inv_step [OF i(1) w]
  have begun: "tally k ?n (receipts w) (?ch w) (testPhase s)"
    using weather_receipts [OF w a] i(3) tally_begin by auto
  show ?thesis
  proof (cases "sent (aggr w) = sent (aggr (weather s))")
    case True
    with run begun sends wi show ?thesis by (auto simp: runWeather_def test_inv_def)
  next
    case False
    with sends obtain r where r: "sent (aggr w) = sent (aggr (weather s)) @ [r]" "Batch r = ?n" by blast
    with run obtain ph where ph: "takeAnswer k r (testPhase s) = Some ph"
      and t: "t = s\<lparr>weather := w, testPhase := ph\<rparr>" by (auto simp: runWeather_def)
    have "tally k (?n + 1) (receipts w) (?ch w) ph"
      by (rule tally_take [OF begun ph r(2)]) simp
    with sends wi r(1) show ?thesis by (simp add: t test_inv_def)
  qed
qed

lemma test_inv_step:
  assumes inv: "test_inv F (stations c) s" and step: "mutexTestStep F c name n a s = Some t"
  shows "test_inv F (stations c) t"
proof -
  let ?k = "stations c" and ?rs = "receipts (weather s)"
  from inv have i: "tally ?k (slen (sent (aggr (weather s)))) ?rs
      (backChannelRPCReceipts (chans (weather s))) (testPhase s)"
    and wi: "distinct ?rs" "\<forall>(i, b) \<in> set ?rs. 0 \<le> i \<and> i < int ?k"
    by (auto simp: test_inv_def weather_inv_def)
  have quiet: "test_inv F ?k t" if "quiet (testPhase s)" "quiet (testPhase t)" "weather t = weather s"
    using inv tally_quiet [OF that(1,2)] by (auto simp: test_inv_def that(3))
  show ?thesis
  proof (cases a)
    case (Runs b)
    with step obtain s1 w where r: "takeOffer (\<lambda>m. m = Quit) b s = Some s1"
      "mutexWeatherStep F ?k (capacity c) (period c) name n b (weather s1) = Some w" "runWeather ?k sent w s1 = Some t"
      by (auto simp: bind_eq_Some_conv)
    note o = takeOffer_same [OF r(1)]
    with inv have "test_inv F ?k s1" by (simp add: test_inv_def)
    with test_inv_runs [OF this r(2) _ r(3)] o show ?thesis by blast
  next
    case NextReceipt
    with step test_inv_channels [OF inv] tally_next [OF i wi] show ?thesis by auto
  next
    case PutReceipt
    with step test_inv_channels [OF inv] tally_put [OF i] show ?thesis by auto
  next
    case NextValue
    with step have s: "onChannels (nextValue F) s = Some t" by simp
    show ?thesis
    proof (rule test_inv_channels [OF inv s])
      fix ph' ch' assume "nextValue F (testPhase s) (chans (weather s)) = Some (ph', ch')"
      from nextValue_quiet [OF this] i tally_quiet show "tally ?k (slen (sent (aggr (weather s)))) ?rs
          (backChannelRPCReceipts ch') ph'" by metis
    qed
  next
    case PutValue
    with step have s: "onChannels (putValue (capacity c)) s = Some t" by simp
    show ?thesis
    proof (rule test_inv_channels [OF inv s])
      fix ph' ch' assume "putValue (capacity c) (testPhase s) (chans (weather s)) = Some (ph', ch')"
      from putValue_quiet [OF this] i tally_quiet show "tally ?k (slen (sent (aggr (weather s)))) ?rs
          (backChannelRPCReceipts ch') ph'" by metis
    qed
  next
    case (Compare elapsed)
    with step obtain ph batches where
      "comparing F (tolerance c) (period c) elapsed (testPhase s) (batchCount s) = Some (ph, batches)"
      and t: "t = s\<lparr>testPhase := ph, batchCount := batches\<rparr>" by auto
    from comparing_quiet [OF this(1)] show ?thesis by (intro quiet) (simp_all add: t)
  next
    case QuitTimer
    with step have "quiet (testPhase s)" "quiet (testPhase t)" "weather t = weather s"
      by (auto simp: quiet_phases split: testPhase.splits)
    then show ?thesis by (rule quiet)
  next
    case QuietAfterQuit
    with step have "quiet (testPhase s)" "quiet (testPhase t)" "weather t = weather s"
      by (auto simp: quiet_phases split: testPhase.splits)
    then show ?thesis by (rule quiet)
  next
    case DieTimer
    with step have "quiet (testPhase s)" "quiet (testPhase t)" "weather t = weather s"
      by (auto simp: quiet_phases split: testPhase.splits)
    then show ?thesis by (rule quiet)
  qed
qed

interpretation mutex_test: invariant "\<lambda>s. s = mutexTest F (stations c)" "mutexTestStep F c name n"
  "test_inv F (stations c)"
  by unfold_locales (auto intro: test_inv_start test_inv_step)

text \<open>C39. The test of an aggregator counts its calls right. When the test has emptied the channel of
  receipts for an answer of the aggregator with a mutex, it has counted exactly the stations that
  have been called for that batch, each once, although calls of later batches and late calls of
  earlier ones leave their receipts in between and the test itself fills the channel up with
  zeros: it never accuses the aggregator of a duplicate call, and when it misses calls there
  really were fewer than \<open>K\<close>.\<close>

theorem test_counts_calls:
  assumes "reachable (\<lambda>s. s = mutexTest F (stations c)) (mutexTestStep F c name n) s"
  shows "(\<forall>i. testPhase s \<noteq> TestFails (DuplicateRPC i)) \<and>
    (\<forall>m. testPhase s = TestFails (MissingRPCs m) \<longrightarrow> m < stations c) \<and>
    (\<forall>r seen recycled. testPhase s = TakingReceipts r seen recycled \<and>
       backChannelRPCReceipts (chans (weather s)) = [] \<longrightarrow>
       distinct seen \<and> set seen = {i. (i, Batch r) \<in> set (receipts (weather s))})"
proof -
  from mutex_test.reachable_inv [OF assms] have inv: "test_inv F (stations c) s" .
  then have t: "tally (stations c) (slen (sent (aggr (weather s)))) (receipts (weather s))
      (backChannelRPCReceipts (chans (weather s))) (testPhase s)" "distinct (receipts (weather s))"
    by (simp_all add: test_inv_def weather_inv_def)
  have "distinct seen \<and> set seen = {i. (i, Batch r) \<in> set (receipts (weather s))}"
    if "testPhase s = TakingReceipts r seen recycled" "backChannelRPCReceipts (chans (weather s)) = []"
    for r seen recycled
    using tally_counted [OF t(1) [unfolded that] t(2)] by (simp add: distinct_map)
  with t(1) show ?thesis by (auto simp: tally_def)
qed

text \<open>One station. Its answer is the first report, and the next batch begins while the test counts.\<close>

definition oneStation :: "int testSetup" where
  "oneStation = \<lparr>stations = 1, capacity = 10, tolerance = 80, period = 800, expectedCount = 7\<rparr>"

definition countOne :: "(int, unit, int aggAction) testAction list" where
  "countOne =
     map Runs [BeginCall 0 0, EndCall 0 0 longDraws \<lparr>requestedAt = 0, startTime = 10, returnedAt = 500000010\<rparr>,
       HandOver () 0 0 21000, Main Tick, Main ReadOut, Main StartBatch, BeginCall 0 1] @
     [NextReceipt, NextReceipt]"

abbreviation shortTest where "shortTest \<equiv> ''TestMutexAggregatorTestK1''"

lemma countOne_run:
  "case createAll (\<lambda>f. True) twoTests of Inl e \<Rightarrow> False | Inr n \<Rightarrow>
     (case run_actions (mutexTestStep milliFloat oneStation shortTest n) countOne
         (mutexTest milliFloat (stations oneStation)) of
        None \<Rightarrow> False
      | Some s \<Rightarrow> testPhase s = TakingReceipts \<lparr>Val = 21000, Id = 0, Batch = 0\<rparr> [0]
            [zeroReceipt, zeroReceipt, receiptOf (0, 1)] \<and>
          backChannelRPCReceipts (chans (weather s)) = [] \<and> receipts (weather s) = [(0, 0), (0, 1)])"
  by code_simp

theorem test_counts_calls_witness:
  "\<exists>n s. reachable (\<lambda>s. s = mutexTest milliFloat (stations oneStation))
       (mutexTestStep milliFloat oneStation shortTest n) s \<and>
     testPhase s = TakingReceipts \<lparr>Val = 21000, Id = 0, Batch = 0\<rparr> [0] [zeroReceipt, zeroReceipt, receiptOf (0, 1)] \<and>
     set [0] = {i. (i, 0) \<in> set (receipts (weather s))}"
proof -
  from countOne_run obtain n s where
    run: "run_actions (mutexTestStep milliFloat oneStation shortTest n) countOne
       (mutexTest milliFloat (stations oneStation)) = Some s"
    and s: "testPhase s = TakingReceipts \<lparr>Val = 21000, Id = 0, Batch = 0\<rparr> [0] [zeroReceipt, zeroReceipt, receiptOf (0, 1)]"
      "backChannelRPCReceipts (chans (weather s)) = []"
    by (auto simp del: run_actions.simps split: sum.splits option.splits)
  have reach: "reachable (\<lambda>s. s = mutexTest milliFloat (stations oneStation))
      (mutexTestStep milliFloat oneStation shortTest n) s"
    by (rule reachable_run [OF reach_init run]) simp
  from test_counts_calls [OF reach] s have "set [0] = {i. (i, 0) \<in> set (receipts (weather s))}" by auto
  with reach s(1) show ?thesis by blast
qed

section \<open>A wrong accusation\<close>

text \<open>
  The slices for recycling are made with \<open>K * 2\<close> elements and then appended to, so the test puts
  zeros back. An aggregator that reports batch 1 before batch 0, as the one with collectors may,
  is accused of a duplicate call of station 0 that nobody made.
\<close>

definition lateBatch :: "(int, bool, int chanAction) testAction list" where
  "lateBatch =
     map Runs [BeginCall 0 0, Main Stamp, BeginCall 0 1, Main Stamp, Main (SeeSignal 1), Main (Deliver 1)] @
     replicate 3 NextReceipt @ replicate 3 PutReceipt @ [NextValue, PutValue, PutValue, Compare 800] @
     map Runs [Main (SeeSignal 0), Main (Deliver 0)] @ replicate 2 NextReceipt"

lemma test_accuses_wrongly:
  "case createAll (\<lambda>f. True) twoTests of Inl e \<Rightarrow> False | Inr n \<Rightarrow>
     (case run_actions (weatherTestStep (chanWeatherStep milliFloat 1 10 800 shortTest n) outs (\<lambda>m. m = SendQuit)
           milliFloat oneStation) lateBatch (startTest (channelAggregator (floatOps.truncate milliFloat) 1)) of
        None \<Rightarrow> False
      | Some s \<Rightarrow> testPhase s = TestFails (DuplicateRPC 0) \<and> receipts (weather s) = [(0, 0), (0, 1)])"
  by code_simp

end
