(* ===== verification/Spec2Isabelle.thy ===== *)
theory Spec2Isabelle
  imports RaftFaults RaftTested RaftLive BankLinear MrMains MrTiming JobCount LockConfig TesterChecks Labgob WeatherChannels
    WeatherTester
begin

text \<open>
  A verification of the programs of the course CS 350 under \<open>src/ALL_CODE_350/starter-1\<close>: a Raft
  library (raft), a lock service on top of it (raft-lock), the simulated network and encoder both
  run on (labrpc, labgob), the testers that drive them (raft/config.go, raft-lock/config.go), a
  MapReduce system (mr, mr-main), a concurrent bank (bank) and two aggregators of weather
  reports (ws).

  \<^bold>\<open>How programs are modelled.\<close> A Go struct is a \<open>record\<close>, a method a function from state to
  state. A statement that can panic, end the process or wait for ever gives a \<open>fault\<close>
  (\<open>'a go = fault + 'a\<close>, theory Prelude). Concurrency is a step function over actions: an action
  is one critical section, one channel operation or one event of the environment, \<open>None\<close> says
  that it cannot happen, and \<open>reachable\<close> gives the states of all interleavings. The locale
  \<open>invariant\<close> turns a proof about one step into a fact about every reachable state; it is
  interpreted for each system. A timer may fire at any moment; the clock, random numbers and
  what the environment answers are arguments. Numbers are \<open>int\<close> but for balances, hashes and
  counters that can wrap, which are words.

  \<^bold>\<open>Raft\<close> (raft/persister.go, raft/raft.go). Persister: the stable store and its contract (locale
  \<open>stable_store\<close>). RaftNode: a peer, one definition per method, \<open>election\<close> and \<open>heartbeat\<close> split
  at their RPCs. RaftLemmas: what each method does to terms, votes and logs. RaftSystem: the
  cluster, with goroutines, RPCs in flight, losses, delays and crashes (\<open>sysStep\<close>). RaftSteps:
  facts that survive crashes, above all that indices are applied in order, that a restart
  succeeds and that the handlers do not panic. RaftElection and RaftLog: Election Safety and
  Log Matching for executions without crashes. RaftLive: with crashes, losses and old goroutines, a
  majority of running peers can still elect a leader, which is shown by giving the schedule. RaftFaults: executions in which the code breaks
  what Raft promises: committed entries are lost to a delayed heartbeat, a crash gives a term two
  leaders, and the apply loop panics.

  \<^bold>\<open>Raft in its tester.\<close> RaftCluster: the peers of raft.go wired up by raft/config.go over the network
  of Labrpc: peers are objects in a heap, the goroutines of a peer that was crashed live on with
  its old object, and every request and reply goes through the calls of Labrpc. RaftWiring: which
  ends, servers and services the tester has made. RaftCalls: its invariant, and that every call is
  dispatched to the handler of its arguments and answered with the reply its caller decodes.
  RaftRefines: every step of this cluster is matched by steps of RaftSystem (an interpretation of
  the locale \<open>simulation\<close> of Prelude). RaftTested carries Election Safety, Log Matching, the order of
  applied messages and the absence of panics over to it. What the cluster leaves out is the end of
  a test, when the tester kills all peers and closes the network.

  \<^bold>\<open>labrpc and labgob.\<close> Labrpc: network, servers, services, and the life of a call; the theorems say
  that a call runs at most once, when it is answered, what deleting a server or disabling an end
  guarantees, and that the statistics are exact up to the width of their counters. A reply is
  sent some time after the last check of the server, so a reply that is on its way survives the
  deletion. A closed network refuses calls once its goroutine has stopped, and may until then. Labgob: \<open>checkType\<close> as an exploration of a table of types, proved to end
  and to be exact, and \<open>checkDefault\<close> with its depth bound of three levels.

  \<^bold>\<open>The lock service.\<close> LockStore: waiting lines as an abstract queue (locale \<open>lock_queue\<close>) that the
  multimap refines. LockServer: messages, server and clerk. LockService: lock servers above the
  cluster of RaftSystem; the apply loop never blocks because Raft delivers an index once (a fact
  of RaftSteps). \<open>applyToStateMachine\<close> is empty in the code, so the service answers OK but
  grants no lock; the theorems on duplicates hold for any state machine.

  \<^bold>\<open>The testers.\<close> TesterNet: crashes, restarts and partitions on the network of Labrpc; exactly the
  current ends between connected peers are enabled, and, with the calls of Labrpc, a crash cuts
  the peer off from every call that is under way. TesterChecks: the checks of applied messages,
  exact for what they accept, composed with RaftSteps: they fail only on a disagreement between
  peers; and the checks on leaders, terms and commits, whose loops poll a cluster that runs in
  between. LockConfig: servers and clerks of the lock tester; its partitions refine sets of links.

  \<^bold>\<open>MapReduce.\<close> GoStrings: decimal numbers, formats, fields, sorting. Coordinator: the RPC handlers.
  Worker: map and reduce tasks over a directory. MrSequential: the sequential program and the
  contract of an application (locale \<open>mr_app\<close>). MrApps: the applications of mr-main/mrapps,
  interpretations of it. MapReduce: the job; its output is that of the sequential program.
  JobProgress: a job without crashes can always finish, one whose worker crashed with a task
  never does. MrMains: the three programs with their command lines, loading plugins, the socket
  of the coordinator and the calls that get no answer; the
  coordinator exits only when the output is complete, and it can always get there as long as no
  worker crashes. MrTiming: the applications that the tests use to observe a job; \<open>nparallel\<close> is a
  transition system over the directory and the running processes, and what it counts is bounded
  by the processes that were in the phase together. JobCount: the test that counts the calls of
  \<open>Map\<close>, whose \<open>Map\<close> and \<open>Reduce\<close> depend on the directory, so that a step of the job goes along
  with a step of the directory.

  \<^bold>\<open>The bank.\<close> Bank: every method as a program of atomic instructions. BankSystem: any number of
  goroutines, mutual exclusion, no deadlock, an explicit bound on the steps. BankLinear: every
  complete interleaving has the outcome of a sequential order of the calls.

  \<^bold>\<open>Weather.\<close> WeatherStations: the aggregator with a mutex. WeatherChannels: the one with a collector
  goroutine per batch, its reports, and how it loses the quit signal. WeatherRPC: the handler of a
  station, the function \<open>getWeatherData\<close>, and the RPC server behind the sockets, where only the
  first station that was created ever answers. WeatherSystem: an aggregator, the stations and the
  tester together, over an interface (locale \<open>aggregator\<close>) that both aggregators implement; each
  stays in its own system (again \<open>simulation\<close>), on which its reports were shown to be right.
  WeatherTester: the test itself, which takes the answers, counts the receipts in the back channels
  while new ones come in, and compares; its count is right for the aggregator with a mutex, and
  can be wrong for the other one, which may report batches out of order.

  \<^bold>\<open>Bounds and fuel.\<close> No theorem depends on a number of peers, goroutines, files or steps. Loops
  with a bound in the code have that bound (ten polls in \<open>checkOneLeader\<close>, thirty in \<open>wait\<close>, a
  \<open>Commit\<close> channel of 100 signals). Loops that the clock ends run over a list of what they find.
  Only the clerk's loop over the servers may not end, which is the value \<open>None\<close>.

  \<^bold>\<open>What is assumed.\<close> Texts and identifiers are ASCII. Gob and JSON give back what was written; how long
  an encoding is, only statistics depend on, and it is an argument there. A
  worker that crashes leaves no partial file behind (it writes before it reports, and what it
  wrote is what any other run of the task writes). A critical section under a mutex is atomic;
  where the code reads or writes outside of one, steps are split there. Fields of structs that
  no statement reads are left out.

  The operating system gives a process identifier once, and a listing of a directory is what was
  there at one moment. Random draws of a station are arguments.

  \<^bold>\<open>Not modelled.\<close> Logging (raft/util.go, DPrintf and the prints of the other programs), the sockets
  themselves, the format of plugins and of gob encodings, and the scenarios of the test programs
  and scripts, but for those of ws/ws_test.go and the job count test; what the scenarios of the
  others call, in raft/config.go and raft-lock/config.go, is modelled. TesterChecks and LockConfig
  hold for any order of those calls.
\<close>

end
